(* ===== verification/Prelude.thy ===== *)
theory Prelude
  imports Main "HOL-Library.Word" "HOL-Library.Signed_Division" "HOL-Library.Sublist"
begin

text \<open>
  Shared vocabulary of the development: the machine integer types of the C and C++ sources,
  the ways in which a C expression or a checked statement can fail, the checked signed
  operations, and generic lemmas on lists and words that several components use.

  Unsigned C types are words, so that they wrap as the hardware does. Signed \<open>Int\<close> and
  \<open>Long\<close> values are mathematical integers; an operation that leaves the range of its type is
  undefined behaviour in C and is the value \<open>Inl Signed_overflow\<close> here.
\<close>

unbundle bit_operations_syntax

section \<open>Machine types\<close>

type_synonym UWord = "64 word"
type_synonym Addr = "64 word"
type_synonym ULong = "64 word"
type_synonym UInt = "32 word"
type_synonym UChar = "8 word"

datatype cfault =
    Assert_fail
  | Div_by_zero
  | Signed_overflow
  | Out_of_bounds
  | Null_deref
  | Tool_panic string
  | Exit_with string

type_synonym 'a cres = "cfault + 'a"

definition cbind :: "'a cres \<Rightarrow> ('a \<Rightarrow> 'b cres) \<Rightarrow> 'b cres" where
  "cbind m f = (case m of Inl e \<Rightarrow> Inl e | Inr x \<Rightarrow> f x)"

definition cassert :: "bool \<Rightarrow> 'a cres \<Rightarrow> 'a cres" where
  "cassert b m = (if b then m else Inl Assert_fail)"

definition is_ok :: "'a cres \<Rightarrow> bool" where
  "is_ok m = (case m of Inl _ \<Rightarrow> False | Inr _ \<Rightarrow> True)"

lemma cbind_simps [simp]:
  "cbind (Inl e) f = Inl e"
  "cbind (Inr x) f = f x"
  by (simp_all add: cbind_def)

lemma cbind_eq_Inr: "cbind m f = Inr y \<longleftrightarrow> (\<exists>x. m = Inr x \<and> f x = Inr y)"
  by (cases m) simp_all

lemma cbind_InrE:
  assumes "cbind m f = Inr y"
  obtains x where "m = Inr x" and "f x = Inr y"
  using assms by (auto simp: cbind_eq_Inr)

lemma cbind_assoc: "cbind (cbind m f) g = cbind m (\<lambda>x. cbind (f x) g)"
  by (cases m) simp_all

lemma cassert_simps [simp]:
  "cassert True m = m"
  "cassert False m = Inl Assert_fail"
  by (simp_all add: cassert_def)

lemma cassert_eq_Inr: "cassert b m = Inr y \<longleftrightarrow> b \<and> m = Inr y"
  by (simp add: cassert_def)

lemma is_ok_simps [simp]: "is_ok (Inr x)" "\<not> is_ok (Inl e)"
  by (simp_all add: is_ok_def)

lemma is_ok_iff: "is_ok m \<longleftrightarrow> (\<exists>x. m = Inr x)"
  by (cases m) simp_all

section \<open>Signed arithmetic\<close>

definition in_Int :: "int \<Rightarrow> bool" where
  "in_Int x \<longleftrightarrow> - (2 ^ 31) \<le> x \<and> x < 2 ^ 31"

definition in_Long :: "int \<Rightarrow> bool" where
  "in_Long x \<longleftrightarrow> - (2 ^ 63) \<le> x \<and> x < 2 ^ 63"

definition mul_Int :: "int \<Rightarrow> int \<Rightarrow> int cres" where
  "mul_Int a b = (if in_Int (a * b) then Inr (a * b) else Inl Signed_overflow)"

definition add_Int :: "int \<Rightarrow> int \<Rightarrow> int cres" where
  "add_Int a b = (if in_Int (a + b) then Inr (a + b) else Inl Signed_overflow)"

definition div_Int :: "int \<Rightarrow> int \<Rightarrow> int cres" where
  "div_Int a b =
     (if b = 0 then Inl Div_by_zero
      else if in_Int (a sdiv b) then Inr (a sdiv b) else Inl Signed_overflow)"

definition mod_Int :: "int \<Rightarrow> int \<Rightarrow> int cres" where
  "mod_Int a b =
     (if b = 0 then Inl Div_by_zero
      else if in_Int (a sdiv b) then Inr (a smod b) else Inl Signed_overflow)"

text \<open>The conversion \<open>(Int)x\<close> of a wider value, as the supported compilers define it.\<close>

definition to_Int :: "int \<Rightarrow> int" where
  "to_Int x = signed_take_bit 31 x"

lemma in_IntI: "0 \<le> x \<Longrightarrow> x < 2147483648 \<Longrightarrow> in_Int x"
  by (simp add: in_Int_def)

lemma to_Int_id: "in_Int x \<Longrightarrow> to_Int x = x"
  by (simp add: to_Int_def in_Int_def signed_take_bit_int_eq_self)

lemma in_Int_to_Int: "in_Int (to_Int x)"
  unfolding to_Int_def in_Int_def
  using signed_take_bit_int_greater_eq_minus_exp [of 31 x] signed_take_bit_int_less_exp [of 31 x]
  by simp

lemma to_Int_eq_iff: "to_Int x = x \<longleftrightarrow> in_Int x"
  using to_Int_id in_Int_to_Int by metis

lemma sdiv_pos: "0 \<le> a \<Longrightarrow> 0 < b \<Longrightarrow> (a::int) sdiv b = a div b"
  by (cases "a = 0") (simp_all add: signed_divide_int_def)

lemma smod_pos: "0 \<le> a \<Longrightarrow> 0 < b \<Longrightarrow> (a::int) smod b = a mod b"
  by (cases "a = 0") (simp_all add: signed_modulo_int_def sdiv_pos minus_div_mult_eq_mod)

section \<open>Lists as arrays\<close>

text \<open>
  A C array is a list; \<open>window\<close> reads the window of an array that a pointer into it and a
  length describe, \<open>splice_at\<close> is what the array is after that window was overwritten.
\<close>

definition window :: "nat \<Rightarrow> nat \<Rightarrow> 'a list \<Rightarrow> 'a list" where
  "window b n xs = take n (drop b xs)"

definition splice_at :: "nat \<Rightarrow> 'a list \<Rightarrow> 'a list \<Rightarrow> 'a list" where
  "splice_at b ys xs = take b xs @ ys @ drop (b + length ys) xs"

lemma length_window [simp]: "length (window b n xs) = min n (length xs - b)"
  by (simp add: window_def)

lemma nth_window: "i < n \<Longrightarrow> b + i < length xs \<Longrightarrow> window b n xs ! i = xs ! (b + i)"
  by (simp add: window_def)

lemma length_splice_at: "b + length ys \<le> length xs \<Longrightarrow> length (splice_at b ys xs) = length xs"
  by (simp add: splice_at_def)

lemma splice_at_window: "b + n \<le> length xs \<Longrightarrow> splice_at b (window b n xs) xs = xs"
  by (simp add: splice_at_def window_def flip: drop_drop add.commute [of b])
    (metis append_take_drop_id drop_drop add.commute)

lemma window_splice_at_same:
  "b + length ys \<le> length xs \<Longrightarrow> n = length ys \<Longrightarrow> window b n (splice_at b ys xs) = ys"
  by (simp add: window_def splice_at_def)

lemma window_splice_at_other:
  assumes "b + length ys \<le> length xs"
    and "b' + n \<le> b \<or> b + length ys \<le> b'"
  shows "window b' n (splice_at b ys xs) = window b' n xs"
proof (rule nth_equalityI)
  show "length (window b' n (splice_at b ys xs)) = length (window b' n xs)"
    using assms(1) by (simp add: length_splice_at)
next
  fix i
  assume "i < length (window b' n (splice_at b ys xs))"
  then have i: "i < n" "b' + i < length xs"
    using assms(1) by (auto simp: length_splice_at)
  have "splice_at b ys xs ! (b' + i) = xs ! (b' + i)"
    using assms i by (auto simp: splice_at_def nth_append min_def)
  then show "window b' n (splice_at b ys xs) ! i = window b' n xs ! i"
    using i assms(1) by (simp add: nth_window length_splice_at)
qed

lemma list_update_splice_at:
  assumes "b + length ys \<le> length xs" and "i < length ys"
  shows "(splice_at b ys xs)[b + i := v] = splice_at b (ys[i := v]) xs"
  using assms by (simp add: splice_at_def list_update_append min_def)

lemma nth_splice_at:
  assumes "b + length ys \<le> length xs" and "i < length ys"
  shows "splice_at b ys xs ! (b + i) = ys ! i"
  using assms by (simp add: splice_at_def nth_append min_def)

lemma nth_splice_at_cases:
  assumes "b + length ys \<le> length xs" and "k < length xs"
  shows "splice_at b ys xs ! k =
    (if k < b then xs ! k else if k < b + length ys then ys ! (k - b) else xs ! k)"
  using assms by (auto simp: splice_at_def nth_append min_def)

lemma find_append:
  "find P (xs @ ys) = (case find P xs of None \<Rightarrow> find P ys | Some x \<Rightarrow> Some x)"
  by (induction xs) auto

lemma find_unique:
  assumes "\<And>x y. x \<in> set xs \<Longrightarrow> y \<in> set xs \<Longrightarrow> P x \<Longrightarrow> P y \<Longrightarrow> x = y"
  shows "find P xs = Some e \<longleftrightarrow> e \<in> set xs \<and> P e"
  using assms by (induction xs) auto

text \<open>Consecutive windows of equal length do not overlap.\<close>

lemma window_bound:
  assumes "s < (k::nat)"
  shows "s * n + n \<le> k * n"
proof -
  have "Suc s * n \<le> k * n"
    using assms by (intro mult_le_mono1) simp
  then show ?thesis by simp
qed

lemma window_disjoint:
  assumes "s \<noteq> (t::nat)"
  shows "t * n + n \<le> s * n \<or> s * n + n \<le> t * n"
  using assms window_bound [of t s n] window_bound [of s t n] by linarith

section \<open>Words\<close>

lemma unat_drop_bit: "unat (drop_bit n (w :: 'a::len word)) = unat w div 2 ^ n"
  unfolding unat_drop_bit_eq by (simp add: drop_bit_eq_div)

lemma unat_and_mask_exp: "unat (w AND (2 ^ k - 1 :: 'a::len word)) = unat w mod 2 ^ k"
proof -
  have "w AND (2 ^ k - 1) = take_bit k w"
    unfolding take_bit_eq_mask mask_eq_exp_minus_1 ..
  moreover have "unat (take_bit k w) = take_bit k (unat w)"
    by (rule unsigned_take_bit_eq)
  ultimately show ?thesis
    by (simp only: take_bit_eq_mod)
qed

lemma unat_pow2: "k < LENGTH('a::len) \<Longrightarrow> unat (2 ^ k :: 'a word) = 2 ^ k"
  by (simp add: unat_eq_nat_uint uint_2p nat_power_eq word_gt_0 exp_eq_0_imp_not_bit)

end
