(* ===== verification/LibcBase.thy ===== *)
theory LibcBase
  imports Prelude "HOL-Library.Char_ord"
begin

text \<open>
  The functions of Valgrind's own C library (\<open>valgrind/coregrind/m_libcbase.c\<close>) that the
  cache profiler is built on: character classes, decimal conversion, string comparison and
  the exact binary logarithm. A C string is the list of its characters before the terminating
  NUL, and an \<open>endptr\<close> is the suffix it points to. \<open>show_Int\<close> is the \<open>%d\<close> conversion of
  the profiler's \<open>sprintf\<close> calls.
\<close>

section \<open>Characters\<close>

definition VG_isspace :: "char \<Rightarrow> bool" where
  "VG_isspace c \<longleftrightarrow> c = CHR '' '' \<or> c = CHR 0x0A \<or> c = CHR 0x09 \<or>
     c = CHR 0x0C \<or> c = CHR 0x0B \<or> c = CHR 0x0D"

definition is_dec_digit :: "char \<Rightarrow> int option" where
  "is_dec_digit c =
     (let v = int (of_char c) in if 48 \<le> v \<and> v \<le> 57 then Some (v - 48) else None)"

section \<open>Decimal numbers\<close>

fun strtoll10_digits :: "string \<Rightarrow> int \<Rightarrow> bool \<Rightarrow> (int \<times> bool \<times> string) cres" where
  "strtoll10_digits [] n converted = Inr (n, converted, [])"
| "strtoll10_digits (c # cs) n converted =
     (case is_dec_digit c of
        Some digit \<Rightarrow>
          (if in_Long (10 * n + digit) then strtoll10_digits cs (10 * n + digit) True
           else Inl Signed_overflow)
      | None \<Rightarrow> Inr (n, converted, c # cs))"

definition VG_strtoll10 :: "string \<Rightarrow> (int \<times> string) cres" where
  "VG_strtoll10 str0 =
     (let str = dropWhile VG_isspace str0;
          (neg, str) = (case str of
              [] \<Rightarrow> (False, [])
            | c # cs \<Rightarrow> if c = CHR ''-'' then (True, cs)
                        else if c = CHR ''+'' then (False, cs) else (False, c # cs))
      in cbind (strtoll10_digits str 0 False)
           (\<lambda>(n, converted, str). Inr (if neg then - n else n, if converted then str else str0)))"

definition show_digit :: "nat \<Rightarrow> char" where
  "show_digit d = char_of (48 + d)"

fun show_nat :: "nat \<Rightarrow> string" where
  "show_nat n = (if n < 10 then [show_digit n] else show_nat (n div 10) @ [show_digit (n mod 10)])"

declare show_nat.simps [simp del]

definition show_Int :: "int \<Rightarrow> string" where
  "show_Int x = (if x < 0 then CHR ''-'' # show_nat (nat (- x)) else show_nat (nat x))"

section \<open>Strings\<close>

fun VG_strcmp :: "string \<Rightarrow> string \<Rightarrow> int" where
  "VG_strcmp [] [] = 0"
| "VG_strcmp [] (y # ys) = - 1"
| "VG_strcmp (x # xs) [] = 1"
| "VG_strcmp (x # xs) (y # ys) =
     (if x < y then - 1 else if y < x then 1 else VG_strcmp xs ys)"

section \<open>Binary logarithm\<close>

definition VG_log2 :: "UInt \<Rightarrow> int" where
  "VG_log2 x = (case find (\<lambda>i. push_bit i 1 = x) [0..<32] of None \<Rightarrow> - 1 | Some i \<Rightarrow> int i)"

definition VG_log2_64 :: "ULong \<Rightarrow> int" where
  "VG_log2_64 x = (case find (\<lambda>i. push_bit i 1 = x) [0..<64] of None \<Rightarrow> - 1 | Some i \<Rightarrow> int i)"

section \<open>The comparison is a linear order\<close>

lemma VG_strcmp_eq_0 [simp]: "VG_strcmp a b = 0 \<longleftrightarrow> a = b"
  by (induction a b rule: VG_strcmp.induct) auto

lemma VG_strcmp_refl: "VG_strcmp a a = 0"
  by simp

lemma VG_strcmp_swap: "VG_strcmp b a = - VG_strcmp a b"
  by (induction a b rule: VG_strcmp.induct) auto

lemma VG_strcmp_trans:
  "VG_strcmp a b < 0 \<Longrightarrow> VG_strcmp b c < 0 \<Longrightarrow> VG_strcmp a c < 0"
proof (induction a b arbitrary: c rule: VG_strcmp.induct)
  case (2 y ys)
  then show ?case by (cases c) auto
next
  case (4 x xs y ys)
  then show ?case by (cases c) (auto split: if_splits)
qed auto

section \<open>The exact logarithm\<close>

lemma push_bit_one_inj:
  assumes "push_bit i (1 :: 'a::len word) = push_bit j 1" and "i < LENGTH('a)" and "j < LENGTH('a)"
  shows "i = j"
proof -
  have "bit (push_bit i (1 :: 'a word)) i"
    using assms(2) by (simp add: bit_simps)
  then have "bit (push_bit j (1 :: 'a word)) i"
    by (simp only: assms(1))
  then show ?thesis
    by (simp add: bit_simps)
qed

lemma VG_log2_eq_iff: "VG_log2 x = int k \<longleftrightarrow> k < 32 \<and> x = 2 ^ k"
proof
  assume "VG_log2 x = int k"
  then have "find (\<lambda>i. push_bit i 1 = x) [0..<32] = Some k"
    by (auto simp: VG_log2_def split: option.splits)
  then show "k < 32 \<and> x = 2 ^ k"
    by (auto simp: find_Some_iff push_bit_eq_mult)
next
  assume k: "k < 32 \<and> x = 2 ^ k"
  then have x: "push_bit k 1 = x"
    by (simp add: push_bit_eq_mult)
  have "find (\<lambda>i. push_bit i 1 = x) [0..<32] = Some k"
    unfolding find_Some_iff
  proof (intro exI [of _ k] conjI allI impI)
    fix j
    assume "j < k"
    then show "push_bit ([0..<32] ! j) 1 \<noteq> x"
      using x k push_bit_one_inj [where 'a = 32, of j k] by auto
  qed (use x k in auto)
  then show "VG_log2 x = int k"
    by (simp add: VG_log2_def)
qed

lemma VG_log2_cases: "VG_log2 x = - 1 \<or> (\<exists>k < 32. VG_log2 x = int k)"
  by (auto simp: VG_log2_def find_Some_iff split: option.splits)

lemma VG_log2_neq_m1: "VG_log2 x \<noteq> - 1 \<longleftrightarrow> (\<exists>k < 32. x = 2 ^ k)"
proof
  assume "VG_log2 x \<noteq> - 1"
  then obtain k where "VG_log2 x = int k"
    using VG_log2_cases by blast
  then show "\<exists>k < 32. x = 2 ^ k"
    by (auto simp: VG_log2_eq_iff)
next
  assume "\<exists>k < 32. x = 2 ^ k"
  then obtain k where "VG_log2 x = int k"
    using VG_log2_eq_iff by blast
  then show "VG_log2 x \<noteq> - 1" by simp
qed

lemma VG_log2_64_neq_m1: "VG_log2_64 x \<noteq> - 1 \<longleftrightarrow> (\<exists>k < 64. x = 2 ^ k)"
  by (auto simp: VG_log2_64_def find_Some_iff find_None_iff push_bit_eq_mult split: option.splits)

section \<open>Printing and reading decimal numbers\<close>

lemma is_dec_digit_show [simp]: "d < 10 \<Longrightarrow> is_dec_digit (show_digit d) = Some (int d)"
  by (simp add: is_dec_digit_def show_digit_def)

lemma strtoll10_digits_show_nat:
  assumes "in_Long (int n)"
  shows "strtoll10_digits (show_nat n @ rest) 0 c = strtoll10_digits rest (int n) True"
  using assms
proof (induction n arbitrary: rest rule: show_nat.induct)
  case (1 n)
  show ?case
  proof (cases "n < 10")
    case True
    with 1(2) show ?thesis
      by (simp add: show_nat.simps [of n])
  next
    case False
    have le: "int (n div 10) \<le> int n" by simp
    have "in_Long (int (n div 10))"
      using 1(2) le by (simp add: in_Long_def)
    with 1(1) False
    have "strtoll10_digits (show_nat (n div 10) @ (show_digit (n mod 10) # rest)) 0 c =
        strtoll10_digits (show_digit (n mod 10) # rest) (int (n div 10)) True"
      by simp
    moreover have "10 * int (n div 10) + int (n mod 10) = int n"
      by (simp add: zdiv_int zmod_int)
    ultimately show ?thesis
      using False 1(2) by (simp add: show_nat.simps [of n])
  qed
qed

lemma show_nat_Cons: "\<exists>d cs. d < 10 \<and> show_nat n = show_digit d # cs"
proof (induction n rule: show_nat.induct)
  case (1 n)
  then show ?case
    by (cases "n < 10") (force simp: show_nat.simps [of n])+
qed

lemma not_dec_digit:
  "VG_isspace c \<or> c = CHR ''-'' \<or> c = CHR ''+'' \<or> c = CHR '','' \<Longrightarrow> is_dec_digit c = None"
  by (auto simp: VG_isspace_def is_dec_digit_def)

lemma show_digit_plain:
  assumes "d < 10"
  shows "\<not> VG_isspace (show_digit d)" "show_digit d \<noteq> CHR ''-''" "show_digit d \<noteq> CHR ''+''"
  using is_dec_digit_show [OF assms] not_dec_digit [of "show_digit d"] by auto

text \<open>A suffix at which the conversion of a number stops.\<close>

definition stops_number :: "string \<Rightarrow> bool" where
  "stops_number rest = (case rest of [] \<Rightarrow> True | c # _ \<Rightarrow> is_dec_digit c = None)"

lemma strtoll10_digits_stop: "stops_number rest \<Longrightarrow> strtoll10_digits rest n True = Inr (n, True, rest)"
  by (cases rest) (auto simp: stops_number_def)

lemma VG_strtoll10_show_Int:
  assumes "in_Long x" and "in_Long (- x)" and "stops_number rest"
  shows "VG_strtoll10 (show_Int x @ rest) = Inr (x, rest)"
proof -
  obtain d cs where d: "d < 10" "show_nat (nat x) = show_digit d # cs"
    using show_nat_Cons by blast
  show ?thesis
  proof (cases "x < 0")
    case True
    then have "strtoll10_digits (show_nat (nat (- x)) @ rest) 0 False = Inr (- x, True, rest)"
      using assms by (simp add: strtoll10_digits_show_nat strtoll10_digits_stop)
    with True show ?thesis
      by (simp add: VG_strtoll10_def show_Int_def VG_isspace_def)
  next
    case False
    then have "strtoll10_digits (show_nat (nat x) @ rest) 0 False = Inr (x, True, rest)"
      using assms by (simp add: strtoll10_digits_show_nat strtoll10_digits_stop)
    with False d show_digit_plain [OF d(1)] show ?thesis
      by (simp add: VG_strtoll10_def show_Int_def)
  qed
qed

end
