(* ===== verification/CacheArch.thy ===== *)
theory CacheArch
  imports LibcBase Complex_Main
begin

text \<open>
  The cache configuration of the profilers, \<open>valgrind/cachegrind/cg_arch.c\<close>, which both
  Cachegrind and Callgrind include: validity of a configuration (with the repository's change
  that lets a cache be as small as one line), the command line options \<open>--I1\<close>, \<open>--D1\<close>,
  \<open>--LL\<close>, the adjustment of a detected last level cache, the per-architecture defaults, and
  the choice between detected and given caches.

  An option that is not accepted ends the process: it is \<open>Inl (Exit_with message)\<close>. The
  \<open>Double\<close> arithmetic of \<open>maybe_tweak_LLc\<close> is exact rational arithmetic here; under the
  hypotheses of the theorems its operands are integers below \<open>2\<^sup>5\<^sup>3\<close> and a division by a power
  of two, which an IEEE double computes exactly.
\<close>

section \<open>Configurations\<close>

record cache_t =
  csize :: int
  cassoc :: int
  cline_size :: int

definition MIN_LINE_SIZE :: int where
  "MIN_LINE_SIZE = 16"

definition UNDEFINED_CACHE :: cache_t where
  "UNDEFINED_CACHE = \<lparr>csize = - 1, cassoc = - 1, cline_size = - 1\<rparr>"

definition check_cache :: "cache_t \<Rightarrow> string option cres" where
  "check_cache c =
     cbind (mul_Int (cline_size c) (cassoc c)) (\<lambda>la.
     cbind (mod_Int (csize c) la) (\<lambda>r.
     cbind (if r \<noteq> 0 then Inr True
            else cbind (div_Int (csize c) (cline_size c)) (\<lambda>q.
                 cbind (div_Int q (cassoc c)) (\<lambda>s.
                 Inr (VG_log2 (word_of_int s) = - 1)))) (\<lambda>bad_sets.
     if bad_sets then Inr (Some ''Cache set count is not a power of two.\<newline>'')
     else if VG_log2 (word_of_int (cline_size c)) = - 1
       then Inr (Some ''Cache line size is not a power of two.\<newline>'')
     else if cline_size c < MIN_LINE_SIZE then Inr (Some ''Cache line size is too small.\<newline>'')
     else if csize c < cline_size c then Inr (Some ''Cache size <= line size.\<newline>'')
     else cbind (div_Int (csize c) (cline_size c)) (\<lambda>q.
          if cassoc c > q then Inr (Some ''Cache associativity > (size / line size).\<newline>'')
          else Inr None))))"

section \<open>Command line options\<close>

definition expect_char :: "char option \<Rightarrow> string \<Rightarrow> bool" where
  "expect_char c s = (case s of [] \<Rightarrow> c = None | x # _ \<Rightarrow> c = Some x)"

definition bad_argument :: "string \<Rightarrow> 'a cres" where
  "bad_argument optval = Inl (Exit_with (''Bad argument '' @ [CHR 0x27] @ optval @ [CHR 0x27, CHR 0x0A]))"

definition cache_overflow :: "'a cres" where
  "cache_overflow = Inl (Exit_with ''One of the cache parameters was too large and overflowed.\<newline>'')"

definition parse_cache_opt :: "string \<Rightarrow> cache_t cres" where
  "parse_cache_opt optval =
     cbind (VG_strtoll10 optval) (\<lambda>(i1, end1).
     if \<not> expect_char (Some CHR '','') end1 then bad_argument optval else
     cbind (VG_strtoll10 (tl end1)) (\<lambda>(i2, end2).
     if \<not> expect_char (Some CHR '','') end2 then bad_argument optval else
     cbind (VG_strtoll10 (tl end2)) (\<lambda>(i3, end3).
     if \<not> expect_char None end3 then bad_argument optval else
     let c = \<lparr>csize = to_Int i1, cassoc = to_Int i2, cline_size = to_Int i3\<rparr> in
     if csize c \<noteq> i1 then cache_overflow
     else if cassoc c \<noteq> i2 then cache_overflow
     else if cline_size c \<noteq> i3 then cache_overflow
     else cbind (check_cache c) (\<lambda>checkRes.
          case checkRes of Some _ \<Rightarrow> bad_argument optval | None \<Rightarrow> Inr c))))"

definition VG_STR_CLO :: "string \<Rightarrow> string \<Rightarrow> string option" where
  "VG_STR_CLO arg option_name =
     (if take (length option_name + 1) arg = option_name @ ''=''
      then Some (drop (length option_name + 1) arg) else None)"

record clo_caches =
  clo_I1c :: cache_t
  clo_D1c :: cache_t
  clo_LLc :: cache_t

definition str_clo_cache_opt :: "string \<Rightarrow> clo_caches \<Rightarrow> (bool \<times> clo_caches) cres" where
  "str_clo_cache_opt arg clo =
     (case VG_STR_CLO arg ''--I1'' of
        Some tmp_str \<Rightarrow> cbind (parse_cache_opt tmp_str) (\<lambda>c. Inr (True, clo\<lparr>clo_I1c := c\<rparr>))
      | None \<Rightarrow>
     (case VG_STR_CLO arg ''--D1'' of
        Some tmp_str \<Rightarrow> cbind (parse_cache_opt tmp_str) (\<lambda>c. Inr (True, clo\<lparr>clo_D1c := c\<rparr>))
      | None \<Rightarrow>
     (case (case VG_STR_CLO arg ''--L2'' of Some v \<Rightarrow> Some v | None \<Rightarrow> VG_STR_CLO arg ''--LL'') of
        Some tmp_str \<Rightarrow> cbind (parse_cache_opt tmp_str) (\<lambda>c. Inr (True, clo\<lparr>clo_LLc := c\<rparr>))
      | None \<Rightarrow> Inr (False, clo))))"

section \<open>Checking and adjusting detected caches\<close>

definition check_cache_or_override :: "cache_t \<Rightarrow> bool \<Rightarrow> unit cres" where
  "check_cache_or_override c clo_redefined =
     cbind (check_cache c) (\<lambda>checkRes.
       case checkRes of
         None \<Rightarrow> Inr ()
       | Some _ \<Rightarrow> cassert clo_redefined (Inr ()))"

definition floor_power_of_2 :: "UInt \<Rightarrow> UInt" where
  "floor_power_of_2 x =
     (let x = x OR drop_bit 1 x;
          x = x OR drop_bit 2 x;
          x = x OR drop_bit 4 x;
          x = x OR drop_bit 8 x;
          x = x OR drop_bit 16 x
      in x - drop_bit 1 x)"

definition tweak_factor :: "UInt \<Rightarrow> UInt \<Rightarrow> rat" where
  "tweak_factor old_nSets new_nSets = rat_of_int (uint old_nSets) / rat_of_int (uint new_nSets)"

definition tweaked_assoc :: "rat \<Rightarrow> UInt \<Rightarrow> UInt" where
  "tweaked_assoc factor old_assoc = word_of_int \<lfloor>1 / 2 + factor * rat_of_int (uint old_assoc)\<rfloor>"

definition maybe_tweak_LLc :: "cache_t \<Rightarrow> cache_t cres" where
  "maybe_tweak_LLc c =
     (if csize c = 0 \<or> cassoc c = 0 \<or> cline_size c = 0 then Inr c else
      cassert (csize c > 0 \<and> cassoc c > 0 \<and> cline_size c > 0) (
      let old_size = word_of_int (csize c) :: UInt;
          old_assoc = word_of_int (cassoc c) :: UInt;
          old_line_size = word_of_int (cline_size c) :: UInt
      in
      if old_assoc * old_line_size = 0 then Inl Div_by_zero else
      let old_nSets = old_size div (old_assoc * old_line_size) in
      if old_nSets = 0 then Inr c else
      cbind (if VG_log2_64 (ucast old_nSets) \<noteq> - 1
             then Inr (old_line_size * old_assoc * old_nSets, old_assoc)
             else let new_nSets = floor_power_of_2 old_nSets in
                  cassert (new_nSets > 0 \<and> new_nSets < old_nSets) (
                  let factor = tweak_factor old_nSets new_nSets in
                  cassert (factor \<ge> 1) (
                  let new_assoc = tweaked_assoc factor old_assoc in
                  cassert (new_assoc \<ge> old_assoc)
                    (Inr (old_line_size * new_assoc * new_nSets, new_assoc)))))
        (\<lambda>(new_size, new_assoc).
           if new_size = old_size \<and> new_assoc = old_assoc then Inr c
           else Inr \<lparr>csize = sint new_size, cassoc = sint new_assoc,
                     cline_size = sint old_line_size\<rparr>)))"

section \<open>Detected caches and defaults\<close>

datatype VexCacheKind = DATA_CACHE | INSN_CACHE | UNIFIED_CACHE

record VexCache =
  vc_kind :: VexCacheKind
  vc_level :: UInt
  vc_sizeB :: UInt
  vc_line_sizeB :: UInt
  vc_assoc :: UInt
  vc_is_trace_cache :: bool

record VexCacheInfo =
  vci_num_levels :: UInt
  vci_caches :: "VexCache list"

definition locate_cache :: "VexCacheInfo \<Rightarrow> VexCacheKind \<Rightarrow> UInt \<Rightarrow> VexCache option" where
  "locate_cache ci kind level = find (\<lambda>c. vc_level c = level \<and> vc_kind c = kind) (vci_caches ci)"

datatype VGA_arch =
    VGA_ppc32 | VGA_ppc64be | VGA_ppc64le | VGA_arm | VGA_arm64 | VGA_s390x
  | VGA_mips32 | VGA_nanomips | VGA_mips64 | VGA_x86 | VGA_amd64

definition mk_cache :: "int \<Rightarrow> int \<Rightarrow> int \<Rightarrow> cache_t" where
  "mk_cache s a l = \<lparr>csize = s, cassoc = a, cline_size = l\<rparr>"

fun default_caches :: "VGA_arch \<Rightarrow> cache_t \<times> cache_t \<times> cache_t" where
  "default_caches VGA_ppc32 = (mk_cache 65536 2 64, mk_cache 65536 2 64, mk_cache 262144 8 64)"
| "default_caches VGA_ppc64be = (mk_cache 65536 2 64, mk_cache 65536 2 64, mk_cache 262144 8 64)"
| "default_caches VGA_ppc64le = (mk_cache 65536 2 64, mk_cache 65536 2 64, mk_cache 262144 8 64)"
| "default_caches VGA_arm = (mk_cache 16384 4 64, mk_cache 16384 4 64, mk_cache 262144 8 64)"
| "default_caches VGA_arm64 = (mk_cache 16384 4 64, mk_cache 16384 4 64, mk_cache 262144 8 64)"
| "default_caches VGA_s390x = (mk_cache 65536 4 256, mk_cache 131072 8 256, mk_cache 50331648 24 256)"
| "default_caches VGA_mips32 = (mk_cache 32768 4 32, mk_cache 32768 4 32, mk_cache 524288 8 32)"
| "default_caches VGA_nanomips = (mk_cache 32768 4 32, mk_cache 32768 4 32, mk_cache 524288 8 32)"
| "default_caches VGA_mips64 = (mk_cache 32768 4 32, mk_cache 32768 4 32, mk_cache 524288 8 32)"
| "default_caches VGA_x86 = (mk_cache 65536 2 64, mk_cache 65536 2 64, mk_cache 262144 8 64)"
| "default_caches VGA_amd64 = (mk_cache 65536 2 64, mk_cache 65536 2 64, mk_cache 262144 8 64)"

definition cache_of_vex :: "VexCache \<Rightarrow> cache_t" where
  "cache_of_vex c = mk_cache (sint (vc_sizeB c)) (sint (vc_assoc c)) (sint (vc_line_sizeB c))"

definition configure_caches :: "VGA_arch \<Rightarrow> VexCacheInfo \<Rightarrow> cache_t \<times> cache_t \<times> cache_t" where
  "configure_caches arch ci =
     (case (locate_cache ci INSN_CACHE 1, locate_cache ci DATA_CACHE 1,
            locate_cache ci UNIFIED_CACHE (vci_num_levels ci)) of
        (Some i1, Some d1, Some ll) \<Rightarrow>
          ((if vc_is_trace_cache i1
            then mk_cache (if vc_sizeB i1 = 12 * 1024 \<or> vc_sizeB i1 = 16 * 1024
                           then 16 * 1024 else 32 * 1024) (sint (vc_assoc i1)) 32
            else cache_of_vex i1),
           cache_of_vex d1, cache_of_vex ll)
      | _ \<Rightarrow> default_caches arch)"

definition DEFINED :: "cache_t \<Rightarrow> bool" where
  "DEFINED c \<longleftrightarrow> - 1 \<noteq> csize c \<or> - 1 \<noteq> cassoc c \<or> - 1 \<noteq> cline_size c"

definition override_cache :: "cache_t \<Rightarrow> cache_t \<Rightarrow> cache_t" where
  "override_cache clo c = (if DEFINED clo then clo else c)"

definition post_clo_init_configure_caches ::
  "VGA_arch \<Rightarrow> VexCacheInfo \<Rightarrow> clo_caches \<Rightarrow> (cache_t \<times> cache_t \<times> cache_t) cres" where
  "post_clo_init_configure_caches arch ci clo =
     (let (I1c, D1c, LLc) = configure_caches arch ci in
      cbind (maybe_tweak_LLc LLc) (\<lambda>LLc.
      cbind (check_cache_or_override I1c (DEFINED (clo_I1c clo))) (\<lambda>_.
      cbind (check_cache_or_override D1c (DEFINED (clo_D1c clo))) (\<lambda>_.
      cbind (check_cache_or_override LLc (DEFINED (clo_LLc clo))) (\<lambda>_.
      Inr (override_cache (clo_I1c clo) I1c, override_cache (clo_D1c clo) D1c,
           override_cache (clo_LLc clo) LLc))))))"

section \<open>What the simulators require of a configuration\<close>

definition valid_cache :: "cache_t \<Rightarrow> bool" where
  "valid_cache c \<longleftrightarrow>
     (\<exists>j k. 4 \<le> j \<and> cline_size c = 2 ^ j \<and> 0 < cassoc c \<and> csize c = 2 ^ k * cassoc c * cline_size c)"

definition Int_fields :: "cache_t \<Rightarrow> bool" where
  "Int_fields c \<longleftrightarrow> in_Int (csize c) \<and> in_Int (cassoc c) \<and> in_Int (cline_size c)"

text \<open>What the adjustment starts from: a detected cache that is plausible but may have a set
  count that is not a power of two.\<close>

definition tweakable :: "cache_t \<Rightarrow> bool" where
  "tweakable c \<longleftrightarrow> (\<exists>j\<ge>4. cline_size c = 2 ^ j) \<and> 0 < cassoc c \<and>
     cline_size c * cassoc c \<le> csize c \<and> csize c \<le> 2 ^ 30"

definition cache_sets :: "cache_t \<Rightarrow> int" where
  "cache_sets c = csize c div (cassoc c * cline_size c)"

text \<open>All the arguments in order, from the initial, undefined, option caches.\<close>

definition run_cache_opts :: "string list \<Rightarrow> clo_caches \<Rightarrow> clo_caches cres" where
  "run_cache_opts args clo0 =
     foldl (\<lambda>r arg. cbind r (\<lambda>clo. cbind (str_clo_cache_opt arg clo) (\<lambda>(_, clo'). Inr clo'))) (Inr clo0) args"

definition no_clo_caches :: clo_caches where
  "no_clo_caches = \<lparr>clo_I1c = UNDEFINED_CACHE, clo_D1c = UNDEFINED_CACHE, clo_LLc = UNDEFINED_CACHE\<rparr>"

text \<open>The option text that describes a configuration.\<close>

definition cache_text :: "cache_t \<Rightarrow> string" where
  "cache_text c = show_Int (csize c) @ '','' @ show_Int (cassoc c) @ '','' @ show_Int (cline_size c)"

text \<open>An option cache that is absent or acceptable.\<close>

definition clo_ok :: "cache_t \<Rightarrow> bool" where
  "clo_ok c \<longleftrightarrow> (DEFINED c \<longrightarrow> Int_fields c \<and> valid_cache c)"

section \<open>Validity\<close>

lemma Int_fieldsI:
  assumes "0 \<le> csize c" "csize c < 2147483648" "0 \<le> cassoc c" "cassoc c < 2147483648"
    "0 \<le> cline_size c" "cline_size c < 2147483648"
  shows "Int_fields c"
  using assms by (simp add: Int_fields_def in_Int_def)

lemma pow2_less_31: "(2::int) ^ k < 2 ^ 31 \<Longrightarrow> k < 31"
  using power_less_imp_less_exp [of "2::int" k 31] by simp

lemma word_of_pow2: "word_of_int (2 ^ k) = (2 ^ k :: 'a::len word)"
  by simp

lemma word_of_int_pow2_pos:
  assumes "(word_of_int s :: UInt) = 2 ^ k" and "k < 32" and "0 \<le> s" and "s < 2 ^ 32"
  shows "s = 2 ^ k"
proof -
  have "uint (word_of_int s :: UInt) = s"
    using assms(3,4) by (simp add: uint_word_of_int_eq take_bit_int_eq_self)
  moreover have "uint (2 ^ k :: UInt) = 2 ^ k"
    using assms(2) by (simp add: uint_2p word_gt_0)
  ultimately show ?thesis using assms(1) by simp
qed

lemma word_of_int_not_pow2_neg:
  assumes "- (2 ^ 31) < s" and "s < 0" and "k < 32"
  shows "(word_of_int s :: UInt) \<noteq> 2 ^ k"
proof
  assume eq: "(word_of_int s :: UInt) = 2 ^ k"
  have "uint (word_of_int s :: UInt) = s mod 2 ^ 32"
    by (simp add: uint_word_of_int)
  also have "\<dots> = s + 2 ^ 32"
    using mod_pos_pos_trivial [of "s + 2 ^ 32" "2 ^ 32"] assms by simp
  finally have "2 ^ k = s + 2 ^ 32"
    using eq assms(3) by (simp add: uint_2p word_gt_0)
  moreover have "(2::int) ^ k \<le> 2 ^ 31"
    using assms(3) by (intro power_increasing) auto
  ultimately show False using assms by simp
qed

lemma check_cache_valid:
  assumes "Int_fields c" and "valid_cache c"
  shows "check_cache c = Inr None"
proof -
  obtain j k where j: "4 \<le> j" "cline_size c = 2 ^ j" and a: "0 < cassoc c"
    and s: "csize c = 2 ^ k * cassoc c * cline_size c"
    using assms(2) by (auto simp: valid_cache_def)
  have sz: "csize c < 2 ^ 31" and ln: "cline_size c < 2 ^ 31"
    using assms(1) by (auto simp: Int_fields_def in_Int_def)
  have l0: "0 < cline_size c" using j by simp
  have l16: "16 \<le> cline_size c"
    using j power_increasing [of 4 j "2::int"] by simp
  have q: "csize c sdiv cline_size c = 2 ^ k * cassoc c"
    using s l0 a by (simp add: sdiv_pos)
  have qa: "2 ^ k * cassoc c sdiv cassoc c = 2 ^ k"
    using a by (simp add: sdiv_pos)
  have la: "cline_size c * cassoc c \<le> csize c"
    using s a l0 by (simp add: mult.commute mult_le_cancel_left1)
  have sla: "csize c sdiv (cline_size c * cassoc c) = 2 ^ k"
    using s a l0 by (simp add: sdiv_pos mult.assoc mult.commute [of "cassoc c"])
  have mla: "csize c smod (cline_size c * cassoc c) = 0"
    using s a l0 by (simp add: smod_pos mult.assoc mult.commute [of "cassoc c"])
  have qle: "2 ^ k * cassoc c \<le> csize c"
    using s a l0 mult_left_mono [of 1 "cline_size c" "2 ^ k * cassoc c"] by simp
  have kle: "2 ^ k \<le> 2 ^ k * cassoc c"
    using a by (simp add: mult_le_cancel_left1)
  have "(2::int) ^ k < 2 ^ 31"
    using qle kle sz by linarith
  then have k: "k < 31" "j < 31"
    using pow2_less_31 ln j(2) by simp_all
  have lg: "VG_log2 (2 ^ k) \<noteq> - 1" "VG_log2 (word_of_int (cline_size c)) \<noteq> - 1"
    unfolding VG_log2_neq_m1 j(2) using k by (auto intro: exI [of _ k] exI [of _ j])
  have pk: "(0::int) < 2 ^ k" by simp
  then have k1: "1 \<le> 2 ^ k * cassoc c" using kle by linarith
  have alq: "cassoc c \<le> 2 ^ k * cassoc c" "cline_size c \<le> csize c"
    using mult_right_mono [of 1 "2 ^ k" "cassoc c"] mult_right_mono [OF k1, of "cline_size c"] a l0 s
    by simp_all
  have ranges: "in_Int (cline_size c * cassoc c)" "in_Int (2 ^ k)" "in_Int (2 ^ k * cassoc c)"
    using la sz mult_pos_pos [OF l0 a] qle kle pk unfolding in_Int_def by linarith+
  have "\<not> (2::int) ^ k < 1" using pk by linarith
  then show ?thesis
    using l0 a l16 alq lg ranges
    by (simp add: check_cache_def mul_Int_def mod_Int_def div_Int_def q qa sla mla
        MIN_LINE_SIZE_def)
qed

lemma check_cache_sound:
  assumes "Int_fields c" and "check_cache c = Inr None"
  shows "valid_cache c"
proof -
  let ?l = "cline_size c" and ?a = "cassoc c" and ?s = "csize c"
  have la0: "?l * ?a \<noteq> 0" and m0: "?s smod (?l * ?a) = 0"
    and lg: "VG_log2 (word_of_int ((?s sdiv ?l) sdiv ?a)) \<noteq> - 1"
    and ll: "VG_log2 (word_of_int ?l) \<noteq> - 1"
    and l16: "16 \<le> ?l" and ls: "?l \<le> ?s" and aq: "?a \<le> ?s sdiv ?l"
    using assms(2)
    by (auto simp: check_cache_def mul_Int_def mod_Int_def div_Int_def cbind_eq_Inr
        MIN_LINE_SIZE_def split: if_splits)
  have s31: "?s < 2 ^ 31" and l31: "?l < 2 ^ 31"
    using assms(1) by (auto simp: Int_fields_def in_Int_def)
  obtain j where j: "j < 32" "(word_of_int ?l :: UInt) = 2 ^ j"
    using ll by (auto simp: VG_log2_neq_m1)
  have lj: "?l = 2 ^ j"
    using word_of_int_pow2_pos [OF j(2,1)] l16 l31 by simp
  have "\<not> j < 4"
  proof
    assume "j < 4"
    then have "(2::int) ^ j < 2 ^ 4" by (intro power_strict_increasing) auto
    with lj l16 show False by simp
  qed
  then have j4: "4 \<le> j" by simp
  obtain k where k: "k < 32" "(word_of_int ((?s sdiv ?l) sdiv ?a) :: UInt) = 2 ^ k"
    using lg by (auto simp: VG_log2_neq_m1)
  define q where "q = ?s div ?l"
  have q: "?s sdiv ?l = q"
    using l16 ls by (simp add: q_def sdiv_pos)
  have q0: "0 \<le> q" and q31: "q < 2 ^ 31"
    using l16 ls s31 int_div_less_self [of ?s ?l]
    by (auto simp: q_def pos_imp_zdiv_nonneg_iff)
  have "\<not> ?a < 0"
  proof
    assume neg: "?a < 0"
    have r: "q sdiv ?a \<in> {- q..q}"
      using sdiv_int_range [of q ?a] q0 by simp
    have "q sdiv ?a = - (q div (- ?a))"
      using neg q0 sdiv_minus_eq [of q "- ?a"] sdiv_pos [of q "- ?a"] by simp
    moreover have "0 \<le> q div (- ?a)"
      using neg q0 by (simp add: pos_imp_zdiv_nonneg_iff)
    ultimately have le: "q sdiv ?a \<le> 0" by simp
    show False
    proof (cases "q sdiv ?a = 0")
      case True
      then have "(2 :: UInt) ^ k = 0" using k(2) q by simp
      then show False using k(1) by (simp add: exp_eq_zero_iff)
    next
      case False
      then show False
        using word_of_int_not_pow2_neg [of "q sdiv ?a" k] k q le r q31 by auto
    qed
  qed
  then have a: "0 < ?a" using la0 by (cases "?a = 0") auto
  have lpos: "0 < ?l" using l16 by simp
  have sd: "q sdiv ?a = q div ?a" "0 \<le> q div ?a"
    using a q0 by (auto simp: sdiv_pos pos_imp_zdiv_nonneg_iff)
  have "q div ?a \<le> q"
    using sdiv_int_range [of q ?a] q0 sd by simp
  have "q div ?a = 2 ^ k"
    using word_of_int_pow2_pos [OF k(2,1)] sd q q31 \<open>q div ?a \<le> q\<close> by simp
  then have "?s div (?l * ?a) = 2 ^ k"
    using lpos a by (simp add: q_def zdiv_zmult2_eq)
  moreover have "?s mod (?l * ?a) = 0"
    using m0 lpos a ls smod_pos [of ?s "?l * ?a"] by simp
  ultimately have "?s = 2 ^ k * ?a * ?l"
    using mult_div_mod_eq [of "?l * ?a" ?s] by (simp add: mult_ac)
  with j4 lj a show ?thesis
    by (auto simp: valid_cache_def)
qed

lemma check_cache_iff: "Int_fields c \<Longrightarrow> check_cache c = Inr None \<longleftrightarrow> valid_cache c"
  using check_cache_valid check_cache_sound by blast
section \<open>The largest power of two below a number\<close>

lemma smear_step:
  assumes "\<And>n. bit y n \<longleftrightarrow> (\<exists>m. n \<le> m \<and> m < n + w \<and> bit x m)"
  shows "bit (y OR drop_bit w (y :: 'a::len word)) n \<longleftrightarrow> (\<exists>m. n \<le> m \<and> m < n + 2 * w \<and> bit x m)"
proof -
  have "bit (y OR drop_bit w y) n \<longleftrightarrow> bit y n \<or> bit y (w + n)"
    by (simp add: bit_simps)
  also have "\<dots> \<longleftrightarrow> (\<exists>m. n \<le> m \<and> m < n + 2 * w \<and> bit x m)"
    unfolding assms
  proof
    assume "(\<exists>m. n \<le> m \<and> m < n + w \<and> bit x m) \<or> (\<exists>m. w + n \<le> m \<and> m < w + n + w \<and> bit x m)"
    then obtain m where "n \<le> m \<and> m < n + 2 * w \<and> bit x m" by force
    then show "\<exists>m. n \<le> m \<and> m < n + 2 * w \<and> bit x m" ..
  next
    assume "\<exists>m. n \<le> m \<and> m < n + 2 * w \<and> bit x m"
    then obtain m where m: "n \<le> m" "m < n + 2 * w" "bit x m" by blast
    then show "(\<exists>m. n \<le> m \<and> m < n + w \<and> bit x m) \<or> (\<exists>m. w + n \<le> m \<and> m < w + n + w \<and> bit x m)"
      by (cases "m < n + w") (auto intro: exI [of _ m])
  qed
  finally show ?thesis .
qed

lemma highest_bit:
  assumes "(x :: 'a::len word) \<noteq> 0"
  obtains h where "h < LENGTH('a)" "bit x h" "\<And>m. h < m \<Longrightarrow> \<not> bit x m"
    "2 ^ h \<le> unat x" "unat x < 2 ^ (h + 1)"
proof -
  let ?B = "{m. bit x m}"
  have fin: "finite ?B"
    by (rule finite_subset [of _ "{..<LENGTH('a)}"]) (auto dest: bit_imp_le_length)
  have ne: "?B \<noteq> {}"
    using assms by (auto simp: bit_eq_iff)
  define h where "h = Max ?B"
  have h: "bit x h" using Max_in [OF fin ne] by (simp add: h_def)
  have top: "\<not> bit x m" if "h < m" for m
  proof
    assume "bit x m"
    then have "m \<le> h"
      unfolding h_def by (intro Max_ge [OF fin]) simp
    with that show False by simp
  qed
  have "odd (unat x div 2 ^ h)"
    using h by (simp add: bit_unsigned_iff flip: bit_iff_odd)
  then have lo: "2 ^ h \<le> unat x"
    by (metis div_less even_zero not_less)
  have "drop_bit (h + 1) x = 0"
    by (rule bit_eqI) (simp add: bit_simps top)
  then have "unat x div 2 ^ (h + 1) = 0"
    by (metis unat_drop_bit unsigned_0)
  then have hi: "unat x < 2 ^ (h + 1)"
    by (simp add: div_eq_0_iff)
  show thesis
    using that [of h] h top lo hi bit_imp_le_length [OF h] by blast
qed

lemma floor_power_of_2_pos:
  assumes "x \<noteq> 0"
  obtains h where "h < 32" "floor_power_of_2 x = 2 ^ h" "2 ^ h \<le> unat x" "unat x < 2 ^ (h + 1)"
proof -
  obtain h where h: "h < 32" "bit x h" "\<And>m. h < m \<Longrightarrow> \<not> bit x m"
    "2 ^ h \<le> unat x" "unat x < 2 ^ (h + 1)"
    using highest_bit [OF assms] by auto
  define x1 where "x1 = x OR drop_bit 1 x"
  define x2 where "x2 = x1 OR drop_bit 2 x1"
  define x4 where "x4 = x2 OR drop_bit 4 x2"
  define x8 where "x8 = x4 OR drop_bit 8 x4"
  define x16 where "x16 = x8 OR drop_bit 16 x8"
  have b0: "bit x n \<longleftrightarrow> (\<exists>m. n \<le> m \<and> m < n + 1 \<and> bit x m)" for n
    by (auto simp: le_less)
  have b1: "bit x1 n \<longleftrightarrow> (\<exists>m. n \<le> m \<and> m < n + 2 \<and> bit x m)" for n
    using smear_step [OF b0, of n] by (simp add: x1_def)
  have b2: "bit x2 n \<longleftrightarrow> (\<exists>m. n \<le> m \<and> m < n + 4 \<and> bit x m)" for n
    using smear_step [OF b1, of n] by (simp add: x2_def)
  have b4: "bit x4 n \<longleftrightarrow> (\<exists>m. n \<le> m \<and> m < n + 8 \<and> bit x m)" for n
    using smear_step [OF b2, of n] by (simp add: x4_def)
  have b8: "bit x8 n \<longleftrightarrow> (\<exists>m. n \<le> m \<and> m < n + 16 \<and> bit x m)" for n
    using smear_step [OF b4, of n] by (simp add: x8_def)
  have b16: "bit x16 n \<longleftrightarrow> (\<exists>m. n \<le> m \<and> m < n + 32 \<and> bit x m)" for n
    using smear_step [OF b8, of n] by (simp add: x16_def)
  have bits: "bit x16 n \<longleftrightarrow> n \<le> h" for n
    unfolding b16 using h(1-3) by (metis le_eq_less_or_eq not_less trans_less_add2 order_trans)
  have m: "x16 = mask (h + 1)"
    by (rule bit_eqI) (use h(1) in \<open>auto simp: bits bit_mask_iff\<close>)
  have "drop_bit 1 x16 = mask h"
    by (rule bit_eqI) (use h(1) in \<open>auto simp: bits bit_simps\<close>)
  then have "x16 - drop_bit 1 x16 = 2 ^ h"
    by (simp add: m mask_eq_exp_minus_1)
  then have "floor_power_of_2 x = 2 ^ h"
    unfolding floor_power_of_2_def Let_def x1_def [symmetric] x2_def [symmetric] x4_def [symmetric]
      x8_def [symmetric] x16_def [symmetric] .
  then show thesis using that h by blast
qed

section \<open>The adjusted last level cache\<close>

lemma uint_word_of_Int: "0 \<le> x \<Longrightarrow> x < 4294967296 \<Longrightarrow> uint (word_of_int x :: UInt) = x"
  by (simp add: uint_word_of_int_eq take_bit_int_eq_self)

lemma uint_mult_small:
  "uint (a :: UInt) * uint b < 2 ^ 32 \<Longrightarrow> uint (a * b) = uint a * uint b"
  using uint_mult_lem [of a b] by simp

lemma sint_small:
  assumes "uint (w :: UInt) < 2147483648"
  shows "sint w = uint w"
proof -
  have "- (2 ^ 31) \<le> uint w"
    by (rule order_trans [of _ 0]) simp_all
  with assms show ?thesis
    unfolding sint_uint by (intro signed_take_bit_int_eq_self) simp_all
qed

text \<open>The rounded associativity: at least the old one, and the cache grows by half at most.\<close>

lemma tweaked_assoc_bounds:
  fixes n a p :: int
  assumes "0 < a" and "0 < p" and "p \<le> n"
  defines "A \<equiv> \<lfloor>1 / 2 + (rat_of_int n / rat_of_int p) * rat_of_int a\<rfloor>"
  shows "a \<le> A" and "2 * (p * A) \<le> p + 2 * (n * a)" and "2 * (n * a) \<le> p + 2 * (p * A)"
proof -
  let ?f = "1 / 2 + (rat_of_int n / rat_of_int p) * rat_of_int a"
  have p: "rat_of_int p > 0" using assms(2) by simp
  have "1 \<le> rat_of_int n / rat_of_int p"
    using assms(2,3) by simp
  then have "1 * rat_of_int a \<le> (rat_of_int n / rat_of_int p) * rat_of_int a"
    using assms(1) by (intro mult_right_mono) simp_all
  then have "rat_of_int a \<le> ?f" by simp
  then show "a \<le> A" unfolding A_def by (simp add: le_floor_iff)
  have eq: "2 * (rat_of_int p * ?f) = rat_of_int p + 2 * (rat_of_int n * rat_of_int a)"
    using p by (simp add: field_simps)
  have "rat_of_int p * rat_of_int A \<le> rat_of_int p * ?f"
    using p by (intro mult_left_mono) (simp_all add: A_def)
  then have "2 * (rat_of_int p * rat_of_int A) \<le> rat_of_int p + 2 * (rat_of_int n * rat_of_int a)"
    using eq by linarith
  then have "rat_of_int (2 * (p * A)) \<le> rat_of_int (p + 2 * (n * a))" by simp
  then show "2 * (p * A) \<le> p + 2 * (n * a)" by (simp only: of_int_le_iff)
  have "?f < rat_of_int A + 1"
    unfolding A_def by linarith
  then have "rat_of_int p * ?f < rat_of_int p * (rat_of_int A + 1)"
    using p by (intro mult_strict_left_mono)
  then have "rat_of_int p + 2 * (rat_of_int n * rat_of_int a) < 2 * (rat_of_int p * rat_of_int A) + 2 * rat_of_int p"
    using eq by (simp add: algebra_simps)
  then have "rat_of_int (p + 2 * (n * a)) < rat_of_int (2 * (p * A) + 2 * p)" by simp
  then have "p + 2 * (n * a) < 2 * (p * A) + 2 * p" by (simp only: of_int_less_iff)
  then show "2 * (n * a) \<le> p + 2 * (p * A)" by linarith
qed

lemma valid_cacheI:
  "4 \<le> j \<Longrightarrow> cline_size c = 2 ^ j \<Longrightarrow> 0 < cassoc c \<Longrightarrow> csize c = 2 ^ k * cassoc c * cline_size c
   \<Longrightarrow> valid_cache c"
  by (auto simp: valid_cache_def)

lemma tweakable_bounds:
  assumes "tweakable c"
  shows "0 < cline_size c" "0 < cassoc c" "0 < csize c" "csize c \<le> 1073741824"
    "cline_size c \<le> csize c" "cassoc c \<le> csize c" "cline_size c * cassoc c \<le> csize c"
    "1 \<le> cache_sets c" "cache_sets c * (cassoc c * cline_size c) \<le> csize c"
proof -
  let ?l = "cline_size c" and ?a = "cassoc c" and ?s = "csize c"
  show l0: "0 < ?l" and a: "0 < ?a" and las: "?l * ?a \<le> ?s" and "?s \<le> 1073741824"
    using assms by (auto simp: tweakable_def)
  have lapos: "0 < ?l * ?a" using l0 a by simp
  then show "0 < ?s" using las by linarith
  have "?l \<le> ?l * ?a" "?a \<le> ?l * ?a"
    using l0 a by (auto simp: mult_le_cancel_left1 mult_le_cancel_right1)
  with las show "?l \<le> ?s" "?a \<le> ?s" by linarith+
  show "1 \<le> cache_sets c"
    unfolding cache_sets_def using las lapos
    by (simp add: pos_imp_zdiv_pos_iff int_one_le_iff_zero_less mult.commute)
  have "0 \<le> ?s mod (?a * ?l)" using l0 a by simp
  moreover have "cache_sets c * (?a * ?l) = ?s - ?s mod (?a * ?l)"
    unfolding cache_sets_def by (simp add: minus_mod_eq_div_mult)
  ultimately show "cache_sets c * (?a * ?l) \<le> ?s" by linarith
qed

text \<open>The unsigned operands of \<open>maybe_tweak_LLc\<close> hold the configured values.\<close>

lemma tweak_operands:
  assumes "tweakable c"
  defines "S \<equiv> word_of_int (csize c) :: UInt" and "A \<equiv> word_of_int (cassoc c) :: UInt"
    and "L \<equiv> word_of_int (cline_size c) :: UInt"
  shows "uint S = csize c" "uint A = cassoc c" "uint L = cline_size c"
    "uint (A * L) = cassoc c * cline_size c" "A * L \<noteq> 0"
    "uint (S div (A * L)) = cache_sets c" "S div (A * L) \<noteq> 0"
proof -
  note b = tweakable_bounds [OF assms(1)]
  show uS: "uint S = csize c" and uA: "uint A = cassoc c" and uL: "uint L = cline_size c"
    unfolding S_def A_def L_def using b by (simp_all add: uint_word_of_Int)
  show uAL: "uint (A * L) = cassoc c * cline_size c"
    using uint_mult_small [of A L] uA uL b by (simp add: mult.commute)
  show "A * L \<noteq> 0"
  proof
    assume "A * L = 0"
    then have "uint (A * L) = 0" by simp
    with uAL b show False by auto
  qed
  show "uint (S div (A * L)) = cache_sets c"
    by (simp add: uint_div uAL uS cache_sets_def)
  then show "S div (A * L) \<noteq> 0" using b(8) by auto
qed

lemma tweak_power_of_two:
  assumes "tweakable c" and "cache_sets c = 2 ^ k" and "k < 32"
  shows "maybe_tweak_LLc c =
    Inr \<lparr>csize = cline_size c * cassoc c * 2 ^ k, cassoc = cassoc c, cline_size = cline_size c\<rparr>"
proof -
  define S A L where "S = (word_of_int (csize c) :: UInt)" and "A = (word_of_int (cassoc c) :: UInt)"
    and "L = (word_of_int (cline_size c) :: UInt)"
  define N where "N = S div (A * L)"
  note b = tweakable_bounds [OF assms(1)]
  note w = tweak_operands [OF assms(1), folded S_def A_def L_def, folded N_def]
  have "ucast N = (2 ^ k :: ULong)"
    using w(6) assms(2,3) by (intro word_uint_eqI) (simp add: uint_up_ucast is_up uint_2p word_gt_0)
  then have lg: "VG_log2_64 (ucast N) \<noteq> - 1"
    unfolding VG_log2_64_neq_m1 using assms(3) by (intro exI [of _ k]) simp
  have sz: "uint (L * A * N) = cline_size c * cassoc c * 2 ^ k"
    using uint_mult_small [of "L * A" N] w(4,6) b assms(2) by (simp add: mult_ac)
  have tw: "maybe_tweak_LLc c = (if L * A * N = S then Inr c
     else Inr \<lparr>csize = sint (L * A * N), cassoc = sint A, cline_size = sint L\<rparr>)"
    using lg b w(5,7)
    by (auto simp: maybe_tweak_LLc_def Let_def S_def [symmetric] A_def [symmetric]
        L_def [symmetric] N_def [symmetric])
  show ?thesis
  proof (cases "L * A * N = S")
    case True
    then have "csize c = cline_size c * cassoc c * 2 ^ k" using sz w(1) by simp
    with True tw show ?thesis by simp
  next
    case False
    have "sint (L * A * N) = cline_size c * cassoc c * 2 ^ k" "sint A = cassoc c" "sint L = cline_size c"
      using sz w(2,3) b assms(2) by (simp_all add: sint_small mult_ac)
    with False tw show ?thesis by simp
  qed
qed

lemma tweaked_size_bound:
  assumes "tweakable c" and "2 ^ h \<le> cache_sets c" and "cassoc c \<le> X"
    and "2 * (2 ^ h * X) \<le> 2 ^ h + 2 * (cache_sets c * cassoc c)"
  shows "cline_size c * X * 2 ^ h < 2147483648" "cline_size c * X \<le> cline_size c * X * 2 ^ h"
    "X \<le> cline_size c * X" "0 < X"
proof -
  note b = tweakable_bounds [OF assms(1)]
  have "cache_sets c \<le> cache_sets c * cassoc c"
    using mult_left_mono [of 1 "cassoc c" "cache_sets c"] b by simp
  then have "2 * (2 ^ h * X) \<le> 3 * (cache_sets c * cassoc c)"
    using assms(2,4) by linarith
  then have "cline_size c * (2 * (2 ^ h * X)) \<le> cline_size c * (3 * (cache_sets c * cassoc c))"
    using b by (intro mult_left_mono) simp_all
  then have "2 * (cline_size c * X * 2 ^ h) \<le> 3 * csize c"
    using b(9) by (simp add: mult_ac)
  then show "cline_size c * X * 2 ^ h < 2147483648"
    using b(4) by linarith
  show X: "0 < X" using assms(3) b by linarith
  show "X \<le> cline_size c * X" "cline_size c * X \<le> cline_size c * X * 2 ^ h"
    using X b mult_right_mono [of 1 "cline_size c" X]
      mult_left_mono [of 1 "2 ^ h" "cline_size c * X"] by simp_all
qed

lemma tweak_other:
  assumes "tweakable c" and "floor_power_of_2 (word_of_int (cache_sets c)) = 2 ^ h" and "h < 32"
    and "2 ^ h < cache_sets c" and "cache_sets c < 2 ^ (h + 1)"
  defines "X \<equiv> \<lfloor>1 / 2 + (rat_of_int (cache_sets c) / rat_of_int (2 ^ h)) * rat_of_int (cassoc c)\<rfloor>"
  shows "maybe_tweak_LLc c =
    Inr \<lparr>csize = cline_size c * X * 2 ^ h, cassoc = X, cline_size = cline_size c\<rparr>"
proof -
  define S A L where "S = (word_of_int (csize c) :: UInt)" and "A = (word_of_int (cassoc c) :: UInt)"
    and "L = (word_of_int (cline_size c) :: UInt)"
  define N P where "N = S div (A * L)" and "P = (2 ^ h :: UInt)"
  define W where "W = tweaked_assoc (tweak_factor N P) A"
  note b = tweakable_bounds [OF assms(1)]
  note w = tweak_operands [OF assms(1), folded S_def A_def L_def, folded N_def]
  have uP: "uint P = 2 ^ h" using assms(3) by (simp add: P_def uint_2p word_gt_0)
  have fl: "floor_power_of_2 N = P"
    using assms(2) w(6) by (metis P_def word_of_int_uint)
  have PN: "P > 0" "P < N"
    using assms(4) uP w(6) by (simp_all add: word_less_def)
  have lg: "VG_log2_64 (ucast N) = - 1"
  proof (rule ccontr)
    assume "VG_log2_64 (ucast N) \<noteq> - 1"
    then obtain k where "k < 64" "ucast N = (2 ^ k :: ULong)"
      using VG_log2_64_neq_m1 by blast
    moreover have "uint (ucast N :: ULong) = cache_sets c"
      using w(6) by (simp add: uint_up_ucast is_up)
    ultimately have "cache_sets c = 2 ^ k" by (simp add: uint_2p word_gt_0)
    with assms(4,5) have "(2::int) ^ h < 2 ^ k" "(2::int) ^ k < 2 ^ (h + 1)" by simp_all
    then have "h < k" "k < h + 1"
      by (simp_all only: power_strict_increasing_iff one_less_numeral_iff semiring_norm)
    then show False by simp
  qed
  have X: "cassoc c \<le> X" "2 * (2 ^ h * X) \<le> 2 ^ h + 2 * (cache_sets c * cassoc c)"
    unfolding X_def using tweaked_assoc_bounds [of "cassoc c" "2 ^ h" "cache_sets c"] b assms(4)
    by simp_all
  note bd = tweaked_size_bound [OF assms(1) less_imp_le [OF assms(4)] X]
  have uW: "uint W = X"
    unfolding W_def tweaked_assoc_def tweak_factor_def w(2) w(6) uP X_def [symmetric]
    using bd by (intro uint_word_of_Int) linarith+
  have sz: "uint (L * W * P) = cline_size c * X * 2 ^ h"
    using uint_mult_small [of L W] uint_mult_small [of "L * W" P] w(3) uW uP bd by simp
  have "rat_of_int (2 ^ h) \<le> rat_of_int (cache_sets c)"
    using assms(4) by (simp only: of_int_le_iff less_imp_le)
  then have f1: "1 \<le> tweak_factor N P"
    unfolding tweak_factor_def w(6) uP by (simp add: le_divide_eq)
  have AW: "A \<le> W" using X(1) uW w(2) by (simp add: word_le_def)
  have "maybe_tweak_LLc c = (if L * W * P = S \<and> W = A then Inr c
     else Inr \<lparr>csize = sint (L * W * P), cassoc = sint W, cline_size = sint L\<rparr>)"
    using lg b w(5,7) PN f1 AW
    by (simp add: maybe_tweak_LLc_def Let_def S_def [symmetric] A_def [symmetric]
        L_def [symmetric] N_def [symmetric] fl W_def [symmetric])
  moreover have "csize c = cline_size c * X * 2 ^ h \<and> cassoc c = X" if "L * W * P = S" "W = A"
    using that sz w(1,2) uW by auto
  moreover have "X < 2147483648" "cline_size c < 2147483648" "0 \<le> X"
    using bd b by linarith+
  then have "sint W = X" "sint L = cline_size c" "sint (L * W * P) = cline_size c * X * 2 ^ h"
    using sint_small [of W] sint_small [of L] sint_small [of "L * W * P"] uW w(3) sz bd(1)
    by (simp_all only:)
  ultimately show ?thesis by auto
qed

text \<open>Every plausible last level cache becomes one the simulators accept.\<close>

lemma maybe_tweak_LLc_cases:
  assumes "tweakable c"
  obtains k A where "maybe_tweak_LLc c =
      Inr \<lparr>csize = cline_size c * A * 2 ^ k, cassoc = A, cline_size = cline_size c\<rparr>"
    "cassoc c \<le> A" "2 * (2 ^ k * A) \<le> 2 ^ k + 2 * (cache_sets c * cassoc c)"
    "2 * (cache_sets c * cassoc c) \<le> 2 ^ k + 2 * (2 ^ k * A)" "2 ^ k \<le> cache_sets c"
proof -
  note b = tweakable_bounds [OF assms]
  define N where "N = (word_of_int (cache_sets c) :: UInt)"
  have "0 < cassoc c * cline_size c" using b by (intro mult_pos_pos)
  then have "1 \<le> cassoc c * cline_size c" by linarith
  then have "cache_sets c \<le> cache_sets c * (cassoc c * cline_size c)"
    using mult_left_mono [of 1 "cassoc c * cline_size c" "cache_sets c"] b by simp
  then have "cache_sets c \<le> csize c" using b(9) by linarith
  then have uN: "uint N = cache_sets c"
    unfolding N_def using b(4,8) by (intro uint_word_of_Int) linarith+
  have "N \<noteq> 0" using uN b(8) by auto
  then obtain h where h: "h < 32" "floor_power_of_2 N = 2 ^ h" "2 ^ h \<le> unat N" "unat N < 2 ^ (h + 1)"
    by (rule floor_power_of_2_pos)
  have "int (2 ^ h) \<le> int (unat N)" "int (unat N) < int (2 ^ (h + 1))"
    using h(3,4) by (simp_all only: of_nat_le_iff of_nat_less_iff)
  then have hn: "2 ^ h \<le> cache_sets c" "cache_sets c < 2 ^ (h + 1)" using uN by simp_all
  show thesis
  proof (cases "cache_sets c = 2 ^ h")
    case True
    show thesis
      using that [of "cassoc c" h] tweak_power_of_two [OF assms True h(1)] True by simp
  next
    case False
    with hn have lt: "2 ^ h < cache_sets c" by simp
    let ?X = "\<lfloor>1 / 2 + (rat_of_int (cache_sets c) / rat_of_int (2 ^ h)) * rat_of_int (cassoc c)\<rfloor>"
    show thesis
      using that [of ?X h] tweak_other [OF assms h(2) [unfolded N_def] h(1) lt hn(2)]
        tweaked_assoc_bounds [of "cassoc c" "2 ^ h" "cache_sets c"] b(2) hn(1) by simp
  qed
qed

section \<open>Options, detection and defaults\<close>

lemma valid_cache_bounds:
  assumes "valid_cache c"
  shows "0 < cline_size c" "0 < cassoc c" "0 < csize c" "cassoc c \<le> csize c" "cline_size c \<le> csize c"
    "cline_size c * cassoc c \<le> csize c"
proof -
  obtain j k where j: "cline_size c = 2 ^ j" and a: "0 < cassoc c"
    and s: "csize c = 2 ^ k * cassoc c * cline_size c"
    using assms by (auto simp: valid_cache_def)
  show "0 < cline_size c" "0 < cassoc c" "0 < csize c" using j a s by simp_all
  have 1: "1 \<le> (2::int) ^ k" "1 \<le> cline_size c" "1 \<le> cassoc c" using j a by simp_all
  have 2: "0 < cline_size c * cassoc c" using j a by simp
  have "1 * (cline_size c * cassoc c) \<le> 2 ^ k * (cline_size c * cassoc c)"
    using 1 2 by (intro mult_right_mono) simp_all
  then show 3: "cline_size c * cassoc c \<le> csize c" using s by (simp add: mult_ac)
  have "cline_size c * 1 \<le> cline_size c * cassoc c" "1 * cassoc c \<le> cline_size c * cassoc c"
    using 1 by (intro mult_left_mono mult_right_mono; simp)+
  with 3 show "cassoc c \<le> csize c" "cline_size c \<le> csize c" by linarith+
qed

lemma maybe_tweak_LLc_valid_id:
  assumes "valid_cache c" and "csize c \<le> 2 ^ 30"
  shows "maybe_tweak_LLc c = Inr c"
proof -
  note b = valid_cache_bounds [OF assms(1)]
  obtain j k where j: "4 \<le> j" "cline_size c = 2 ^ j" and s: "csize c = 2 ^ k * cassoc c * cline_size c"
    using assms(1) by (auto simp: valid_cache_def)
  have tw: "tweakable c"
    using assms(2) j b by (auto simp: tweakable_def)
  have sets: "cache_sets c = 2 ^ k"
    unfolding cache_sets_def s using b(1,2) by (simp add: mult.assoc)
  have "cache_sets c * 1 \<le> cache_sets c * (cassoc c * cline_size c)"
    using mult_pos_pos [OF b(2,1)] unfolding sets by (intro mult_left_mono) simp_all
  then have "(2::int) ^ k \<le> 2 ^ 30"
    using tweakable_bounds(9) [OF tw] sets assms(2) by linarith
  then have "k < 32"
    using power_increasing_iff [of "2::int" k 30] by simp
  from tweak_power_of_two [OF tw sets this] show ?thesis
    using s by (simp add: mult_ac)
qed

lemma parse_cache_opt_sound:
  assumes "parse_cache_opt s = Inr c"
  shows "Int_fields c" "valid_cache c"
proof -
  have "Int_fields c \<and> check_cache c = Inr None"
    using assms
    by (auto simp: parse_cache_opt_def cbind_eq_Inr bad_argument_def cache_overflow_def Let_def
        Int_fields_def split: if_splits prod.splits option.splits)
      (metis in_Int_to_Int)+
  then show "Int_fields c" "valid_cache c"
    using check_cache_sound by auto
qed

lemma str_clo_cache_opt_ok:
  assumes "str_clo_cache_opt arg clo = Inr (b, clo')"
    and "clo_ok (clo_I1c clo)" and "clo_ok (clo_D1c clo)" and "clo_ok (clo_LLc clo)"
  shows "clo_ok (clo_I1c clo') \<and> clo_ok (clo_D1c clo') \<and> clo_ok (clo_LLc clo')"
  using assms(1) parse_cache_opt_sound assms(2-)
  by (auto simp: str_clo_cache_opt_def cbind_eq_Inr clo_ok_def split: option.splits)

lemma run_cache_opts_ok:
  assumes "run_cache_opts args no_clo_caches = Inr clo"
  shows "clo_ok (clo_I1c clo) \<and> clo_ok (clo_D1c clo) \<and> clo_ok (clo_LLc clo)"
  using assms
proof (induction args arbitrary: clo rule: rev_induct)
  case Nil
  then show ?case
    by (auto simp: run_cache_opts_def no_clo_caches_def clo_ok_def DEFINED_def UNDEFINED_CACHE_def)
next
  case (snoc arg args)
  then obtain clo1 b where "run_cache_opts args no_clo_caches = Inr clo1"
    "str_clo_cache_opt arg clo1 = Inr (b, clo)"
    by (auto simp: run_cache_opts_def cbind_eq_Inr)
  then show ?case using snoc.IH str_clo_cache_opt_ok by blast
qed

lemma in_Int_sint: "in_Int (sint (w :: UInt))"
  using sint_greater_eq [of w] sint_less [of w] by (simp add: in_Int_def)

lemma Int_fields_configure:
  assumes "configure_caches arch ci = (i, d, l)"
  shows "Int_fields i" "Int_fields d" "Int_fields l"
proof -
  have "Int_fields (cache_of_vex c)" for c
    by (simp add: Int_fields_def cache_of_vex_def mk_cache_def in_Int_sint)
  moreover have "default_caches arch = (i, d, l) \<Longrightarrow> Int_fields i \<and> Int_fields d \<and> Int_fields l"
    by (cases arch) (auto simp: Int_fields_def mk_cache_def in_Int_def)
  moreover have "Int_fields (mk_cache 16384 (sint w) 32)" "Int_fields (mk_cache 32768 (sint w) 32)"
    for w :: UInt
    using in_Int_sint [of w] by (simp_all add: Int_fields_def mk_cache_def in_Int_def)
  ultimately show "Int_fields i" "Int_fields d" "Int_fields l"
    using assms by (auto simp: configure_caches_def split: option.splits if_splits)
qed

lemma Int_fields_tweak:
  assumes "maybe_tweak_LLc c = Inr c'" and "Int_fields c"
  shows "Int_fields c'"
  using assms
  by (auto simp: maybe_tweak_LLc_def cbind_eq_Inr cassert_eq_Inr Let_def Int_fields_def in_Int_sint
      split: if_splits)

lemma check_or_override_ok:
  assumes "check_cache_or_override c (DEFINED clo) = Inr ()" and "Int_fields c" and "clo_ok clo"
  shows "valid_cache (override_cache clo c)" "Int_fields (override_cache clo c)"
proof -
  have "DEFINED clo \<or> valid_cache c"
    using assms(1,2) check_cache_sound
    by (auto simp: check_cache_or_override_def cbind_eq_Inr cassert_eq_Inr split: option.splits)
  then show "valid_cache (override_cache clo c)" "Int_fields (override_cache clo c)"
    using assms(2,3) by (auto simp: override_cache_def clo_ok_def)
qed

lemma valid_cache_default:
  assumes "default_caches arch = (i, d, l)"
  shows "valid_cache i" "valid_cache d" "valid_cache l" "csize l \<le> 2 ^ 30"
proof -
  have "valid_cache (mk_cache (2 ^ k * a * 2 ^ j) a (2 ^ j))" if "4 \<le> j" "0 < a" for a j k
    using that by (auto simp: valid_cache_def mk_cache_def)
  from this [of 6 2 9] this [of 6 8 9] this [of 6 4 6] this [of 8 4 6] this [of 8 8 6]
    this [of 8 24 13] this [of 5 4 8] this [of 5 8 11]
  have "valid_cache (mk_cache 65536 2 64)" "valid_cache (mk_cache 262144 8 64)"
    "valid_cache (mk_cache 16384 4 64)" "valid_cache (mk_cache 65536 4 256)"
    "valid_cache (mk_cache 131072 8 256)" "valid_cache (mk_cache 50331648 24 256)"
    "valid_cache (mk_cache 32768 4 32)" "valid_cache (mk_cache 524288 8 32)" by simp_all
  then show "valid_cache i" "valid_cache d" "valid_cache l" "csize l \<le> 2 ^ 30"
    using assms by (cases arch; auto simp: mk_cache_def)+
qed

lemma parse_cache_text:
  assumes "Int_fields c"
  shows "parse_cache_opt (cache_text c) =
    cbind (check_cache c) (\<lambda>r. case r of Some _ \<Rightarrow> bad_argument (cache_text c) | None \<Rightarrow> Inr c)"
proof -
  have L: "in_Long x \<and> in_Long (- x)" if "in_Int x" for x
    using that by (simp add: in_Int_def in_Long_def)
  have f: "in_Int (csize c)" "in_Int (cassoc c)" "in_Int (cline_size c)"
    using assms by (simp_all add: Int_fields_def)
  have stop: "stops_number []" "stops_number (CHR '','' # r)" for r
    by (simp_all add: stops_number_def not_dec_digit)
  have "VG_strtoll10 (cache_text c) =
      Inr (csize c, '','' @ show_Int (cassoc c) @ '','' @ show_Int (cline_size c))"
    unfolding cache_text_def using L [OF f(1)] stop by (intro VG_strtoll10_show_Int) simp_all
  moreover have "VG_strtoll10 (show_Int (cassoc c) @ CHR '','' # show_Int (cline_size c)) =
      Inr (cassoc c, CHR '','' # show_Int (cline_size c))"
    using L [OF f(2)] stop by (intro VG_strtoll10_show_Int) simp_all
  moreover have "VG_strtoll10 (show_Int (cline_size c)) = Inr (cline_size c, [])"
    using VG_strtoll10_show_Int [of "cline_size c" "[]"] L [OF f(3)] stop by simp
  ultimately show ?thesis
    using f by (cases c) (auto simp: parse_cache_opt_def expect_char_def to_Int_id Let_def)
qed

lemma parse_cache_text_valid:
  "Int_fields c \<Longrightarrow> valid_cache c \<Longrightarrow> parse_cache_opt (cache_text c) = Inr c"
  by (simp add: parse_cache_text check_cache_valid)

lemma one_line_cache: "Int_fields (mk_cache 64 1 64)" "valid_cache (mk_cache 64 1 64)"
proof -
  show "Int_fields (mk_cache 64 1 64)"
    by (rule Int_fieldsI) (simp_all add: mk_cache_def)
  have "valid_cache (mk_cache (2 ^ 0 * 1 * 2 ^ 6) 1 (2 ^ 6))"
    unfolding valid_cache_def mk_cache_def by (intro exI [of _ 6] exI [of _ 0]) simp
  then show "valid_cache (mk_cache 64 1 64)" by simp
qed

lemma str_clo_cache_opt_D1:
  "Int_fields c \<Longrightarrow> valid_cache c \<Longrightarrow>
   str_clo_cache_opt (''--D1='' @ cache_text c) clo = Inr (True, clo\<lparr>clo_D1c := c\<rparr>)"
  by (simp add: str_clo_cache_opt_def VG_STR_CLO_def parse_cache_text_valid)

text \<open>With every option cache absent or acceptable, and acceptable caches on the host, start-up
  goes through.\<close>

lemma post_clo_init_ok:
  assumes "configure_caches arch ci = (i, d, l)" and "valid_cache i" and "valid_cache d"
    and "valid_cache l" and "csize l \<le> 2 ^ 30"
  shows "post_clo_init_configure_caches arch ci clo =
    Inr (override_cache (clo_I1c clo) i, override_cache (clo_D1c clo) d, override_cache (clo_LLc clo) l)"
  using check_cache_valid [OF Int_fields_configure(1) [OF assms(1)] assms(2)]
    check_cache_valid [OF Int_fields_configure(2) [OF assms(1)] assms(3)]
    check_cache_valid [OF Int_fields_configure(3) [OF assms(1)] assms(4)]
    maybe_tweak_LLc_valid_id [OF assms(4,5)]
  by (simp add: post_clo_init_configure_caches_def assms(1) check_cache_or_override_def)

lemma configure_caches_default:
  assumes "locate_cache ci INSN_CACHE 1 = None \<or> locate_cache ci DATA_CACHE 1 = None \<or>
     locate_cache ci UNIFIED_CACHE (vci_num_levels ci) = None"
  shows "configure_caches arch ci = default_caches arch"
  using assms by (auto simp: configure_caches_def split: option.splits)

text \<open>
  C30: \<open>check_cache\<close> accepts exactly the configurations the simulators are written for: a
  line size that is a power of two and at least 16, a positive associativity, and a size that is
  a power of two many sets of that many lines. A cache of a single line is accepted.
\<close>

theorem check_cache_accepts:
  assumes "Int_fields c"
  shows "check_cache c = Inr None \<longleftrightarrow>
    (\<exists>j k. 4 \<le> j \<and> cline_size c = 2 ^ j \<and> 0 < cassoc c \<and>
       csize c = 2 ^ k * cassoc c * cline_size c)"
  using check_cache_iff [OF assms] by (simp add: valid_cache_def)

theorem check_cache_accepts_witness:
  "Int_fields (mk_cache 64 1 64) \<and> check_cache (mk_cache 64 1 64) = Inr None"
proof -
  have i: "Int_fields (mk_cache 64 1 64)"
    by (simp add: Int_fields_def mk_cache_def in_Int_def)
  have "\<exists>j k. 4 \<le> j \<and> (64::int) = 2 ^ j \<and> (64::int) = 2 ^ k * 1 * 64"
    by (intro exI [of _ 6] exI [of _ 0]) simp
  then show ?thesis
    using check_cache_accepts [OF i] i by (simp add: mk_cache_def)
qed

text \<open>
  on every nonzero word the bit smearing of \<open>floor_power_of_2\<close> computes the largest
  power of two that is not above its argument.
\<close>

theorem floor_power_of_2_spec:
  assumes "x \<noteq> 0"
  shows "\<exists>h < 32. floor_power_of_2 x = 2 ^ h \<and> 2 ^ h \<le> unat x \<and> unat x < 2 ^ (h + 1)"
  using floor_power_of_2_pos [OF assms] by blast

theorem floor_power_of_2_spec_witness:
  "(12288 :: UInt) \<noteq> 0 \<and> (\<exists>h < 32. floor_power_of_2 12288 = 2 ^ h \<and> (2::nat) ^ h \<le> 12288 \<and> 12288 < (2::nat) ^ (h + 1))"
  using floor_power_of_2_spec [of 12288] by simp

text \<open>
  C31: \<open>maybe_tweak_LLc\<close> turns every plausible last level cache into one that
  \<open>check_cache\<close> accepts, without failing an assertion: the line size is kept, the associativity
  does not shrink, the number of sets does not grow, and the capacity of whole sets changes by at
  most half a line per new set.
\<close>

theorem maybe_tweak_LLc_repairs:
  assumes "tweakable c"
  shows "\<exists>c'. maybe_tweak_LLc c = Inr c' \<and> check_cache c' = Inr None \<and>
    cline_size c' = cline_size c \<and> cassoc c \<le> cassoc c' \<and> cache_sets c' \<le> cache_sets c \<and>
    2 * \<bar>csize c' - cache_sets c * cassoc c * cline_size c\<bar> \<le> cache_sets c' * cline_size c"
proof (rule maybe_tweak_LLc_cases [OF assms])
  fix k A
  assume eq: "maybe_tweak_LLc c =
      Inr \<lparr>csize = cline_size c * A * 2 ^ k, cassoc = A, cline_size = cline_size c\<rparr>" (is "_ = Inr ?c")
    and A: "cassoc c \<le> A" and up: "2 * (2 ^ k * A) \<le> 2 ^ k + 2 * (cache_sets c * cassoc c)"
    and lo: "2 * (cache_sets c * cassoc c) \<le> 2 ^ k + 2 * (2 ^ k * A)" and k: "2 ^ k \<le> cache_sets c"
  note b = tweakable_bounds [OF assms] and bd = tweaked_size_bound [OF assms k A up]
  obtain j where j: "4 \<le> j" "cline_size c = 2 ^ j" using assms by (auto simp: tweakable_def)
  have sets: "cache_sets ?c = 2 ^ k"
    using b(1) bd(4) by (simp add: cache_sets_def mult.commute [of A])
  define u v t where "u = cline_size c * A * 2 ^ k" and "v = cache_sets c * cassoc c * cline_size c"
    and "t = 2 ^ k * cline_size c"
  have "cline_size c * (2 * (2 ^ k * A)) \<le> cline_size c * (2 ^ k + 2 * (cache_sets c * cassoc c))"
    "cline_size c * (2 * (cache_sets c * cassoc c)) \<le> cline_size c * (2 ^ k + 2 * (2 ^ k * A))"
    using up lo b(1) by (intro mult_left_mono; simp)+
  then have "2 * u \<le> t + 2 * v" "2 * v \<le> t + 2 * u"
    unfolding u_def v_def t_def by (simp_all add: distrib_left mult_ac)
  then have near: "2 * \<bar>u - v\<bar> \<le> t" by (auto simp: abs_if)
  have "0 \<le> cline_size c * A * 2 ^ k" "A < 2147483648" "cline_size c < 2147483648"
    using bd b by linarith+
  then have "Int_fields ?c"
    using bd(1,4) b(1) by (intro Int_fieldsI) simp_all
  moreover have "valid_cache ?c"
    unfolding valid_cache_def using j bd(4) by (intro exI [of _ j] exI [of _ k]) (simp add: mult_ac)
  ultimately have "check_cache ?c = Inr None" by (rule check_cache_valid)
  then show ?thesis using eq A k sets near by (intro exI [of _ ?c]) (simp add: u_def v_def t_def)
qed

theorem maybe_tweak_LLc_repairs_witness:
  "tweakable (mk_cache 12582912 12 64) \<and> tweakable (mk_cache 15728640 12 64) \<and>
   (\<exists>c'. maybe_tweak_LLc (mk_cache 15728640 12 64) = Inr c' \<and> check_cache c' = Inr None)"
proof -
  have *: "\<exists>j\<ge>4. (64::int) = 2 ^ j" by (intro exI [of _ 6]) simp
  then have "tweakable (mk_cache 12582912 12 64)" "tweakable (mk_cache 15728640 12 64)"
    by (simp_all add: tweakable_def mk_cache_def)
  then show ?thesis
    using maybe_tweak_LLc_repairs [of "mk_cache 15728640 12 64"] by blast
qed

text \<open>
  C33: the text of an acceptable configuration, as a user writes it after \<open>--I1=\<close>, is read
  back as that configuration.
\<close>

theorem parse_cache_opt_roundtrip:
  assumes "Int_fields c" and "valid_cache c"
  shows "parse_cache_opt (cache_text c) = Inr c"
  by (rule parse_cache_text_valid [OF assms])

theorem parse_cache_opt_roundtrip_witness:
  "Int_fields (mk_cache 64 1 64) \<and> valid_cache (mk_cache 64 1 64) \<and>
   parse_cache_opt (cache_text (mk_cache 64 1 64)) = Inr (mk_cache 64 1 64)"
  using parse_cache_opt_roundtrip [OF one_line_cache] one_line_cache by simp

lemma configured_valid:
  assumes "clo_ok (clo_I1c clo)" and "clo_ok (clo_D1c clo)" and "clo_ok (clo_LLc clo)"
    and "post_clo_init_configure_caches arch ci clo = Inr (i, d, l)"
  shows "Int_fields i \<and> valid_cache i" "Int_fields d \<and> valid_cache d" "Int_fields l \<and> valid_cache l"
proof -
  obtain I D L L' where c: "configure_caches arch ci = (I, D, L)" and t: "maybe_tweak_LLc L = Inr L'"
    and k: "check_cache_or_override I (DEFINED (clo_I1c clo)) = Inr ()"
      "check_cache_or_override D (DEFINED (clo_D1c clo)) = Inr ()"
      "check_cache_or_override L' (DEFINED (clo_LLc clo)) = Inr ()"
    and r: "i = override_cache (clo_I1c clo) I" "d = override_cache (clo_D1c clo) D"
      "l = override_cache (clo_LLc clo) L'"
    using assms(4)
    by (auto simp: post_clo_init_configure_caches_def cbind_eq_Inr split: prod.splits)
  note F = Int_fields_configure [OF c]
  show "Int_fields i \<and> valid_cache i" "Int_fields d \<and> valid_cache d" "Int_fields l \<and> valid_cache l"
    unfolding r using k F(1,2) Int_fields_tweak [OF t F(3)] assms(1-3) by (simp_all add: check_or_override_ok)
qed

text \<open>
  C32: whatever the host reports and whatever options were given, if start-up gets through the
  configuration, the three caches handed to the simulator pass \<open>check_cache\<close>.
\<close>

theorem post_clo_init_valid:
  assumes "run_cache_opts args no_clo_caches = Inr clo"
    and "post_clo_init_configure_caches arch ci clo = Inr (i, d, l)"
  shows "check_cache i = Inr None \<and> check_cache d = Inr None \<and> check_cache l = Inr None"
  using configured_valid [OF _ _ _ assms(2)] run_cache_opts_ok [OF assms(1)] by (simp add: check_cache_valid)

theorem post_clo_init_valid_witness:
  "check_cache (mk_cache 65536 2 64) = Inr None \<and> check_cache (mk_cache 64 1 64) = Inr None \<and>
   check_cache (mk_cache 262144 8 64) = Inr None"
proof (rule post_clo_init_valid)
  let ?ci = "\<lparr>vci_num_levels = 0, vci_caches = []\<rparr> :: VexCacheInfo"
  let ?clo = "no_clo_caches\<lparr>clo_D1c := mk_cache 64 1 64\<rparr>"
  show "run_cache_opts [''--D1='' @ cache_text (mk_cache 64 1 64)] no_clo_caches = Inr ?clo"
    using str_clo_cache_opt_D1 [OF one_line_cache, of no_clo_caches] by (simp add: run_cache_opts_def)
  have "configure_caches VGA_amd64 ?ci = default_caches VGA_amd64"
    by (rule configure_caches_default) (simp add: locate_cache_def)
  then have "configure_caches VGA_amd64 ?ci =
      (mk_cache 65536 2 64, mk_cache 65536 2 64, mk_cache 262144 8 64)" by simp
  from post_clo_init_ok [OF this valid_cache_default [OF default_caches.simps(11)], of ?clo]
  show "post_clo_init_configure_caches VGA_amd64 ?ci ?clo =
      Inr (mk_cache 65536 2 64, mk_cache 64 1 64, mk_cache 262144 8 64)"
    by (simp add: override_cache_def no_clo_caches_def DEFINED_def UNDEFINED_CACHE_def mk_cache_def)
qed

text \<open>
  when a cache level is not reported by the host and no option is given, start-up succeeds
  on every architecture with that architecture's defaults, unadjusted.
\<close>

theorem post_clo_init_defaults:
  assumes "locate_cache ci INSN_CACHE 1 = None \<or> locate_cache ci DATA_CACHE 1 = None \<or>
     locate_cache ci UNIFIED_CACHE (vci_num_levels ci) = None"
  shows "post_clo_init_configure_caches arch ci no_clo_caches = Inr (default_caches arch)"
proof -
  obtain i d l where dc: "default_caches arch = (i, d, l)" by (cases "default_caches arch")
  with configure_caches_default [OF assms] have "configure_caches arch ci = (i, d, l)" by simp
  from post_clo_init_ok [OF this valid_cache_default [OF dc]] show ?thesis
    by (simp add: dc override_cache_def no_clo_caches_def DEFINED_def UNDEFINED_CACHE_def)
qed

theorem post_clo_init_defaults_witness:
  "post_clo_init_configure_caches VGA_s390x \<lparr>vci_num_levels = 0, vci_caches = []\<rparr> no_clo_caches =
     Inr (mk_cache 65536 4 256, mk_cache 131072 8 256, mk_cache 50331648 24 256)"
  using post_clo_init_defaults [of "\<lparr>vci_num_levels = 0, vci_caches = []\<rparr>" VGA_s390x]
  by (simp add: locate_cache_def)

text \<open>
  an option that gives a zero associativity or line size is not reported as a bad
  argument: \<open>check_cache\<close> divides by zero before it reaches its tests.
\<close>

theorem check_cache_div_by_zero:
  assumes "Int_fields c" and "cassoc c = 0 \<or> cline_size c = 0"
  shows "parse_cache_opt (cache_text c) = Inl Div_by_zero"
  unfolding parse_cache_text [OF assms(1)]
  using assms(2) by (auto simp: check_cache_def mul_Int_def mod_Int_def in_Int_def)

theorem check_cache_div_by_zero_witness:
  "Int_fields (mk_cache 65536 0 64) \<and>
   parse_cache_opt (cache_text (mk_cache 65536 0 64)) = Inl Div_by_zero"
proof -
  have "Int_fields (mk_cache 65536 0 64)"
    by (rule Int_fieldsI) (simp_all add: mk_cache_def)
  then show ?thesis
    using check_cache_div_by_zero [of "mk_cache 65536 0 64"] by (simp add: mk_cache_def)
qed

end
