(* ===== verification/CacheSim.thy ===== *)
theory CacheSim
  imports CacheArch
begin

text \<open>
  The cache simulator \<open>valgrind/cachegrind/cg_sim.c\<close>: one tag array per cache, divided into
  sets of \<open>assoc\<close> tags that are kept in most recently used order.

  The array is a list of words and every access to it is checked against its length, so that an
  index out of range is the value \<open>Inl Out_of_bounds\<close>. Index arithmetic is done at the widths of
  the source: a set number is an unsigned 32 bit value, a block number a 64 bit one. Shifts by
  \<open>line_size_bits\<close> take the value that an initialised cache holds, which is never negative.

  The abstract view of a set is the list of its tags, and the specification of an access is the
  least recently used rule \<open>lru_access\<close> on that list.
\<close>

section \<open>State\<close>

record cache_t2 =
  c2_size :: int
  c2_assoc :: int
  c2_line_size :: int
  c2_sets :: int
  c2_sets_min_1 :: int
  c2_line_size_bits :: int
  c2_tag_shift :: int
  c2_desc_line :: string
  c2_tags :: "UWord list"

record cachesim =
  sim_I1 :: cache_t2
  sim_D1 :: cache_t2
  sim_LL :: cache_t2

section \<open>Operations\<close>

definition desc_line_of :: "cache_t \<Rightarrow> string" where
  "desc_line_of config =
     (if cassoc config = 1
      then show_Int (csize config) @ '' B, '' @ show_Int (cline_size config) @ '' B, direct-mapped''
      else show_Int (csize config) @ '' B, '' @ show_Int (cline_size config) @ '' B, '' @
           show_Int (cassoc config) @ ''-way associative'')"

definition cachesim_initcache :: "cache_t \<Rightarrow> cache_t2 cres" where
  "cachesim_initcache config =
     cbind (div_Int (csize config) (cline_size config)) (\<lambda>q.
     cbind (div_Int q (cassoc config)) (\<lambda>sets.
     cbind (add_Int sets (- 1)) (\<lambda>sets_min_1.
     let line_size_bits = VG_log2 (word_of_int (cline_size config)) in
     cbind (mul_Int sets (cassoc config)) (\<lambda>n.
     Inr \<lparr>c2_size = csize config, c2_assoc = cassoc config, c2_line_size = cline_size config,
          c2_sets = sets, c2_sets_min_1 = sets_min_1, c2_line_size_bits = line_size_bits,
          c2_tag_shift = line_size_bits + VG_log2 (word_of_int sets),
          c2_desc_line = desc_line_of config, c2_tags = replicate (nat n) 0\<rparr>))))"

text \<open>The loop \<open>for (j = i; j > 0; j--) set[j] = set[j - 1]\<close> on the set that starts at \<open>b\<close>.\<close>

fun shift_down :: "nat \<Rightarrow> nat \<Rightarrow> 'a list \<Rightarrow> 'a list" where
  "shift_down b 0 tags = tags"
| "shift_down b (Suc j) tags = shift_down b j (tags[b + Suc j := tags ! (b + j)])"

definition set_base :: "cache_t2 \<Rightarrow> UInt \<Rightarrow> nat" where
  "set_base c set_no = unat (set_no * word_of_int (c2_assoc c))"

definition cachesim_setref_is_miss :: "cache_t2 \<Rightarrow> UInt \<Rightarrow> UWord \<Rightarrow> (bool \<times> cache_t2) cres" where
  "cachesim_setref_is_miss c set_no tag =
     (let b = set_base c set_no; n = nat (c2_assoc c); tags = c2_tags c in
      if n = 0 \<or> length tags < b + n then Inl Out_of_bounds
      else if tag = tags ! b then Inr (False, c)
      else case find (\<lambda>i. tag = tags ! (b + i)) [1..<n] of
        Some i \<Rightarrow> Inr (False, c\<lparr>c2_tags := (shift_down b i tags)[b := tag]\<rparr>)
      | None \<Rightarrow> Inr (True, c\<lparr>c2_tags := (shift_down b (n - 1) tags)[b := tag]\<rparr>))"

definition block_of :: "cache_t2 \<Rightarrow> Addr \<Rightarrow> UWord" where
  "block_of c a = drop_bit (nat (c2_line_size_bits c)) a"

definition set_of_block :: "cache_t2 \<Rightarrow> UWord \<Rightarrow> UInt" where
  "set_of_block c block = ucast (block AND word_of_int (c2_sets_min_1 c))"

definition cachesim_ref_is_miss :: "cache_t2 \<Rightarrow> Addr \<Rightarrow> UChar \<Rightarrow> (bool \<times> cache_t2) cres" where
  "cachesim_ref_is_miss c a sz =
     (let block1 = block_of c a;
          block2 = block_of c (a + ucast sz - 1);
          set1 = set_of_block c block1
      in if block1 = block2 then cachesim_setref_is_miss c set1 block1
         else if block1 + 1 = block2 then
           let set2 = set_of_block c block2 in
           cbind (cachesim_setref_is_miss c set1 block1) (\<lambda>(miss1, c).
             if miss1
             then cbind (cachesim_setref_is_miss c set2 block2) (\<lambda>(_, c). Inr (True, c))
             else cachesim_setref_is_miss c set2 block2)
         else Inl (Tool_panic ''item straddles more than two cache sets''))"

definition cachesim_initcaches :: "cache_t \<Rightarrow> cache_t \<Rightarrow> cache_t \<Rightarrow> cachesim cres" where
  "cachesim_initcaches I1c D1c LLc =
     cbind (cachesim_initcache I1c) (\<lambda>i1.
     cbind (cachesim_initcache D1c) (\<lambda>d1.
     cbind (cachesim_initcache LLc) (\<lambda>ll.
     Inr \<lparr>sim_I1 = i1, sim_D1 = d1, sim_LL = ll\<rparr>)))"

definition cachesim_I1_doref_Gen ::
  "Addr \<Rightarrow> UChar \<Rightarrow> cachesim \<Rightarrow> ULong \<Rightarrow> ULong \<Rightarrow> (cachesim \<times> ULong \<times> ULong) cres" where
  "cachesim_I1_doref_Gen a sz st m1 mL =
     cbind (cachesim_ref_is_miss (sim_I1 st) a sz) (\<lambda>(miss, i1).
       let st = st\<lparr>sim_I1 := i1\<rparr> in
       if miss then
         cbind (cachesim_ref_is_miss (sim_LL st) a sz) (\<lambda>(missL, ll).
           Inr (st\<lparr>sim_LL := ll\<rparr>, m1 + 1, if missL then mL + 1 else mL))
       else Inr (st, m1, mL))"

definition cachesim_I1_doref_NoX ::
  "Addr \<Rightarrow> UChar \<Rightarrow> cachesim \<Rightarrow> ULong \<Rightarrow> ULong \<Rightarrow> (cachesim \<times> ULong \<times> ULong) cres" where
  "cachesim_I1_doref_NoX a sz st m1 mL =
     (let block = block_of (sim_I1 st) a;
          I1_set = set_of_block (sim_I1 st) block
      in cbind (cachesim_setref_is_miss (sim_I1 st) I1_set block) (\<lambda>(miss, i1).
           let st = st\<lparr>sim_I1 := i1\<rparr> in
           if miss then
             let LL_set = set_of_block (sim_LL st) block in
             cbind (cachesim_setref_is_miss (sim_LL st) LL_set block) (\<lambda>(missL, ll).
               Inr (st\<lparr>sim_LL := ll\<rparr>, m1 + 1, if missL then mL + 1 else mL))
           else Inr (st, m1, mL)))"

definition cachesim_D1_doref ::
  "Addr \<Rightarrow> UChar \<Rightarrow> cachesim \<Rightarrow> ULong \<Rightarrow> ULong \<Rightarrow> (cachesim \<times> ULong \<times> ULong) cres" where
  "cachesim_D1_doref a sz st m1 mL =
     cbind (cachesim_ref_is_miss (sim_D1 st) a sz) (\<lambda>(miss, d1).
       let st = st\<lparr>sim_D1 := d1\<rparr> in
       if miss then
         cbind (cachesim_ref_is_miss (sim_LL st) a sz) (\<lambda>(missL, ll).
           Inr (st\<lparr>sim_LL := ll\<rparr>, m1 + 1, if missL then mL + 1 else mL))
       else Inr (st, m1, mL))"

definition cachesim_is_IrNoX :: "cachesim \<Rightarrow> Addr \<Rightarrow> UChar \<Rightarrow> bool" where
  "cachesim_is_IrNoX st a sz =
     (if c2_line_size_bits (sim_I1 st) \<noteq> c2_line_size_bits (sim_LL st) then False
      else let block1 = block_of (sim_I1 st) a;
               block2 = block_of (sim_I1 st) (a + ucast sz - 1)
           in if block1 \<noteq> block2 then False else True)"

section \<open>Specification\<close>

text \<open>The least recently used rule on a set of ways.\<close>

definition lru_access :: "'a \<Rightarrow> 'a list \<Rightarrow> bool \<times> 'a list" where
  "lru_access tag ways =
     (if tag \<in> set ways then (False, tag # remove1 tag ways) else (True, tag # butlast ways))"

definition lru_fold :: "'a list \<Rightarrow> 'a list \<Rightarrow> 'a list" where
  "lru_fold ways bs = foldl (\<lambda>w b. snd (lru_access b w)) ways bs"

definition cache_set :: "cache_t2 \<Rightarrow> nat \<Rightarrow> UWord list" where
  "cache_set c s = window (s * nat (c2_assoc c)) (nat (c2_assoc c)) (c2_tags c)"

definition cache_ok :: "cache_t2 \<Rightarrow> bool" where
  "cache_ok c \<longleftrightarrow>
     (\<exists>j k. 4 \<le> j \<and> c2_line_size_bits c = int j \<and> c2_line_size c = 2 ^ j \<and>
        c2_sets c = 2 ^ k \<and> c2_sets_min_1 c = 2 ^ k - 1 \<and> 0 < c2_assoc c \<and>
        2 ^ k * c2_assoc c * 2 ^ j < 2 ^ 31 \<and> int (length (c2_tags c)) = 2 ^ k * c2_assoc c)"

text \<open>A run of references, with the miss or hit of each.\<close>

fun run_refs :: "cache_t2 \<Rightarrow> (Addr \<times> UChar) list \<Rightarrow> (bool list \<times> cache_t2) cres" where
  "run_refs c [] = Inr ([], c)"
| "run_refs c ((a, sz) # refs) =
     cbind (cachesim_ref_is_miss c a sz) (\<lambda>(m, c).
     cbind (run_refs c refs) (\<lambda>(ms, c). Inr (m # ms, c)))"

text \<open>A reference within the address space that is not longer than a line.\<close>

definition ref_fits :: "cache_t2 \<Rightarrow> Addr \<times> UChar \<Rightarrow> bool" where
  "ref_fits c = (\<lambda>(a, sz). 0 < sz \<and> int (unat sz) \<le> c2_line_size c \<and>
     unat a + unat sz \<le> 2 ^ 64)"

definition sim_ok :: "cachesim \<Rightarrow> bool" where
  "sim_ok st \<longleftrightarrow> cache_ok (sim_I1 st) \<and> cache_ok (sim_D1 st) \<and> cache_ok (sim_LL st)"

text \<open>A first level miss may be a last level miss; a hit changes neither counter.\<close>

definition counts_ok :: "ULong \<Rightarrow> ULong \<Rightarrow> ULong \<Rightarrow> ULong \<Rightarrow> bool" where
  "counts_ok m1 mL m1' mL' \<longleftrightarrow>
     (m1', mL') = (m1, mL) \<or> (m1', mL') = (m1 + 1, mL) \<or> (m1', mL') = (m1 + 1, mL + 1)"

text \<open>References to blocks, without the addresses they come from.\<close>

definition touch_block :: "cache_t2 \<Rightarrow> UWord \<Rightarrow> (bool \<times> cache_t2) cres" where
  "touch_block c block = cachesim_setref_is_miss c (set_of_block c block) block"

fun run_blocks :: "cache_t2 \<Rightarrow> UWord list \<Rightarrow> (bool list \<times> cache_t2) cres" where
  "run_blocks c [] = Inr ([], c)"
| "run_blocks c (b # bs) =
     cbind (touch_block c b) (\<lambda>(m, c).
     cbind (run_blocks c bs) (\<lambda>(ms, c). Inr (m # ms, c)))"

text \<open>The specification of a whole cache: a function from set numbers to sets of ways.\<close>

definition lru_block :: "nat \<Rightarrow> UWord \<Rightarrow> (nat \<Rightarrow> UWord list) \<Rightarrow> bool \<times> (nat \<Rightarrow> UWord list)" where
  "lru_block sets block f =
     (let s = unat block mod sets; (m, ways) = lru_access block (f s) in (m, f(s := ways)))"

definition lru_ref :: "nat \<Rightarrow> UWord \<Rightarrow> UWord \<Rightarrow> (nat \<Rightarrow> UWord list) \<Rightarrow> bool \<times> (nat \<Rightarrow> UWord list)" where
  "lru_ref sets block1 block2 f =
     (let (m1, f1) = lru_block sets block1 f in
      if block1 = block2 then (m1, f1)
      else let (m2, f2) = lru_block sets block2 f1 in (m1 \<or> m2, f2))"

fun lru_run :: "nat \<Rightarrow> (UWord \<times> UWord) list \<Rightarrow> (nat \<Rightarrow> UWord list) \<Rightarrow> bool list \<times> (nat \<Rightarrow> UWord list)" where
  "lru_run sets [] f = ([], f)"
| "lru_run sets ((b1, b2) # bs) f =
     (let (m, f1) = lru_ref sets b1 b2 f; (ms, f2) = lru_run sets bs f1 in (m # ms, f2))"

definition blocks_of_ref :: "cache_t2 \<Rightarrow> Addr \<times> UChar \<Rightarrow> UWord \<times> UWord" where
  "blocks_of_ref c = (\<lambda>(a, sz). (block_of c a, block_of c (a + ucast sz - 1)))"

section \<open>Sets of ways\<close>

lemma length_shift_down [simp]: "length (shift_down b j tags) = length tags"
  by (induction b j tags rule: shift_down.induct) simp_all

lemma nth_shift_down:
  assumes "b + j < length tags" and "k < length tags"
  shows "shift_down b j tags ! k = (if b < k \<and> k \<le> b + j then tags ! (k - 1) else tags ! k)"
  using assms
proof (induction b j tags arbitrary: k rule: shift_down.induct)
  case (2 b j tags)
  then show ?case
    by (auto simp: nth_list_update le_Suc_eq)
qed auto

lemma shift_down_front:
  assumes "i < n" and "b + n \<le> length tags"
  defines "ways \<equiv> window b n tags"
  shows "(shift_down b i tags)[b := tag] = splice_at b (tag # take i ways @ drop (Suc i) ways) tags"
proof (rule nth_equalityI)
  have len: "length (tag # take i ways @ drop (Suc i) ways) = n"
    using assms by simp
  then show "length ((shift_down b i tags)[b := tag]) =
      length (splice_at b (tag # take i ways @ drop (Suc i) ways) tags)"
    using assms(2) by (simp add: splice_at_def)
  fix k
  assume "k < length ((shift_down b i tags)[b := tag])"
  then have k: "k < length tags" by simp
  have "splice_at b (tag # take i ways @ drop (Suc i) ways) tags ! k =
      (if k = b then tag else if b < k \<and> k \<le> b + i then tags ! (k - 1) else tags ! k)"
    using assms k nth_splice_at_cases [of b "tag # take i ways @ drop (Suc i) ways" tags k] len
    by (auto simp: nth_append nth_Cons' ways_def window_def min_def)
  then show "(shift_down b i tags)[b := tag] ! k =
      splice_at b (tag # take i ways @ drop (Suc i) ways) tags ! k"
    using assms k by (auto simp: nth_list_update nth_shift_down)
qed

lemma remove1_first:
  assumes "i < length xs" and "xs ! i = x" and "\<And>j. j < i \<Longrightarrow> xs ! j \<noteq> x"
  shows "remove1 x xs = take i xs @ drop (Suc i) xs"
  using assms
proof (induction xs arbitrary: i)
  case (Cons y ys)
  show ?case
  proof (cases i)
    case 0
    then show ?thesis using Cons.prems by simp
  next
    case (Suc i')
    have "remove1 x ys = take i' ys @ drop (Suc i') ys"
      using Cons.prems Suc by (intro Cons.IH) force+
    moreover have "y \<noteq> x" using Cons.prems(3) [of 0] Suc by simp
    ultimately show ?thesis using Suc by simp
  qed
qed simp

lemma length_lru_access [simp]: "ways \<noteq> [] \<Longrightarrow> length (snd (lru_access tag ways)) = length ways"
  by (simp add: lru_access_def length_remove1)

lemma find_upt_Some_iff:
  "find P [1..<n] = Some i \<longleftrightarrow> 1 \<le> i \<and> i < n \<and> P i \<and> (\<forall>j. 1 \<le> j \<and> j < i \<longrightarrow> \<not> P j)"
  unfolding find_Some_iff
proof safe
  fix k j
  assume "k < length [1..<n]" "\<forall>j<k. \<not> P ([1..<n] ! j)" "1 \<le> j" "j < [1..<n] ! k" "P j"
  then show False by (auto dest: spec [of _ "j - 1"])
next
  assume "1 \<le> i" "i < n" "P i" "\<forall>j. 1 \<le> j \<and> j < i \<longrightarrow> \<not> P j"
  then show "\<exists>k<length [1..<n]. P ([1..<n] ! k) \<and> i = [1..<n] ! k \<and> (\<forall>j<k. \<not> P ([1..<n] ! j))"
    by (intro exI [of _ "i - 1"]) auto
qed auto

text \<open>Whichever way the loop leaves, the set it leaves is the one of the LRU rule.\<close>

lemma setref_lru:
  fixes c :: cache_t2 and tag :: UWord and b :: nat
  defines "n \<equiv> nat (c2_assoc c)" and "tags \<equiv> c2_tags c"
  assumes "0 < c2_assoc c" and "set_base c set_no = b" and "b + n \<le> length tags"
  defines "r \<equiv> lru_access tag (window b n tags)"
  shows "cachesim_setref_is_miss c set_no tag = Inr (fst r, c\<lparr>c2_tags := splice_at b (snd r) tags\<rparr>)"
proof -
  define ways where "ways = window b n tags"
  have n0: "0 < n" using assms(3) by (simp add: n_def)
  have lw: "length ways = n" using assms(5) by (simp add: ways_def)
  have nth: "tags ! (b + i) = ways ! i" if "i < n" for i
    using that assms(5) by (simp add: ways_def nth_window)
  have "tags ! b = ways ! 0" using nth [of 0] n0 by simp
  note step = cachesim_setref_is_miss_def Let_def n_def [symmetric] tags_def [symmetric]
    ways_def [symmetric] assms(4) r_def lru_access_def this
  consider (mru) "tag = ways ! 0"
    | (hit) i where "tag \<noteq> ways ! 0" "find (\<lambda>i. tag = tags ! (b + i)) [1..<n] = Some i"
    | (miss) "tag \<noteq> ways ! 0" "find (\<lambda>i. tag = tags ! (b + i)) [1..<n] = None"
    by (cases "find (\<lambda>i. tag = tags ! (b + i)) [1..<n]") auto
  then show ?thesis
  proof cases
    case mru
    then have "tag # remove1 tag ways = ways" using n0 lw by (cases ways) auto
    moreover have "tag \<in> set ways" using mru n0 lw by auto
    moreover have "c\<lparr>c2_tags := tags\<rparr> = c" by (simp add: tags_def)
    ultimately show ?thesis
      using mru n0 assms(5) splice_at_window [OF assms(5), folded ways_def] by (simp add: step)
  next
    case hit
    then have i: "1 \<le> i" "i < n" "tag = ways ! i" "\<And>j. 1 \<le> j \<Longrightarrow> j < i \<Longrightarrow> tag \<noteq> ways ! j"
      unfolding find_upt_Some_iff using nth by auto
    then have "remove1 tag ways = take i ways @ drop (Suc i) ways"
      using hit(1) lw by (intro remove1_first) (simp_all, metis One_nat_def Suc_leI not_gr_zero)
    moreover have "tag \<in> set ways" using i lw by auto
    ultimately show ?thesis
      using hit n0 assms(5) shift_down_front [OF i(2) assms(5), of tag, folded ways_def]
      by (simp add: step)
  next
    case miss
    have "tag \<noteq> ways ! i" if "i < n" for i
      using miss that nth by (cases "i = 0") (auto simp: find_None_iff)
    then have "tag \<notin> set ways" using lw by (auto simp: in_set_conv_nth)
    moreover have "take (n - 1) ways @ drop (Suc (n - 1)) ways = butlast ways"
      using n0 lw by (simp add: butlast_conv_take)
    ultimately show ?thesis
      using miss n0 assms(5) shift_down_front [of "n - 1" n b tags tag, folded ways_def]
      by (simp add: step)
  qed
qed

section \<open>Geometry\<close>

text \<open>The facts of an initialised cache, with its number of sets and ways as naturals.\<close>

lemma cache_okE:
  assumes "cache_ok c"
  obtains j k n where "4 \<le> j" "j < 31" "k < 31" "c2_line_size_bits c = int j"
    "c2_line_size c = 2 ^ j" "nat (c2_sets c) = 2 ^ k" "c2_sets_min_1 c = 2 ^ k - 1"
    "c2_assoc c = int n" "0 < n" "2 ^ k * n < 2147483648" "length (c2_tags c) = 2 ^ k * n"
proof -
  obtain j k where j: "4 \<le> j" "c2_line_size_bits c = int j" "c2_line_size c = 2 ^ j"
    and k: "c2_sets c = 2 ^ k" "c2_sets_min_1 c = 2 ^ k - 1" "0 < c2_assoc c"
    and b: "2 ^ k * c2_assoc c * 2 ^ j < 2 ^ 31" and l: "int (length (c2_tags c)) = 2 ^ k * c2_assoc c"
    using assms by (auto simp: cache_ok_def)
  obtain n where n: "c2_assoc c = int n" "0 < n" using k(3) by (metis pos_int_cases)
  have "int (2 ^ k * n * 2 ^ j) < int 2147483648" using b n by simp
  then have b': "2 ^ k * n * 2 ^ j < 2147483648" by (simp only: of_nat_less_iff)
  have 1: "2 ^ k * n * 1 \<le> 2 ^ k * n * 2 ^ j" "1 * 2 ^ j \<le> 2 ^ k * n * 2 ^ j" "2 ^ k * 1 \<le> 2 ^ k * n"
    using n by (intro mult_le_mono; simp)+
  have "(2::nat) ^ j < 2147483648" "(2::nat) ^ k < 2147483648"
    using 1 b' by linarith+
  then have "(2::nat) ^ j < 2 ^ 31" "(2::nat) ^ k < 2 ^ 31" by simp_all
  then have "j < 31" "k < 31"
    by (simp_all only: power_strict_increasing_iff one_less_numeral_iff semiring_norm)
  moreover have "nat (c2_sets c) = 2 ^ k" using k(1) by (simp add: nat_power_eq)
  moreover have "length (c2_tags c) = 2 ^ k * n"
  proof -
    have "int (length (c2_tags c)) = int (2 ^ k * n)" using l n by simp
    then show ?thesis by (simp only: of_nat_eq_iff)
  qed
  moreover have "2 ^ k * n < 2147483648" using 1(1) b' by linarith
  ultimately show thesis using that j k(2) n by blast
qed

lemma cache_ok_upd:
  "cache_ok c \<Longrightarrow> length tags = length (c2_tags c) \<Longrightarrow> cache_ok (c\<lparr>c2_tags := tags\<rparr>)"
  by (simp add: cache_ok_def)

lemma set_base_ok:
  assumes "cache_ok c" and "s < nat (c2_sets c)"
  shows "set_base c (of_nat s) = s * nat (c2_assoc c)"
    "s * nat (c2_assoc c) + nat (c2_assoc c) \<le> length (c2_tags c)"
proof -
  from assms(1) obtain k n where k: "nat (c2_sets c) = 2 ^ k" "c2_assoc c = int n"
    "2 ^ k * n < 2147483648" "length (c2_tags c) = 2 ^ k * n"
    by (rule cache_okE)
  show bound: "s * nat (c2_assoc c) + nat (c2_assoc c) \<le> length (c2_tags c)"
    using window_bound [of s "2 ^ k" n] assms(2) k by simp
  then have "s * n < 4294967296" using k by simp
  then have "take_bit 32 (s * n) = s * n" by (simp add: take_bit_nat_eq_self)
  then show "set_base c (of_nat s) = s * nat (c2_assoc c)"
    using k(2) by (simp add: set_base_def unsigned_of_nat flip: of_nat_mult)
qed

lemma set_of_block_ok:
  assumes "cache_ok c"
  shows "set_of_block c block = of_nat (unat block mod nat (c2_sets c))"
    "unat block mod nat (c2_sets c) < nat (c2_sets c)"
proof -
  from assms obtain k where k: "k < 31" "nat (c2_sets c) = 2 ^ k" "c2_sets_min_1 c = 2 ^ k - 1"
    by (rule cache_okE)
  show lt: "unat block mod nat (c2_sets c) < nat (c2_sets c)" by (simp add: k)
  have "unat (block AND word_of_int (c2_sets_min_1 c)) = unat block mod 2 ^ k"
    unfolding k(3) using unat_and_mask_exp [of block k] by simp
  then show "set_of_block c block = of_nat (unat block mod nat (c2_sets c))"
    unfolding set_of_block_def k(2) by (metis of_nat_unat)
qed

lemma set_of_block_inj:
  assumes "cache_ok c"
  shows "set_of_block c x = set_of_block c y \<longleftrightarrow> unat x mod nat (c2_sets c) = unat y mod nat (c2_sets c)"
proof -
  from assms obtain k where k: "k < 31" "nat (c2_sets c) = 2 ^ k" by (rule cache_okE)
  have "(2::nat) ^ k < 2 ^ 32" using k(1) by (intro power_strict_increasing) simp_all
  then have lt: "unat z mod nat (c2_sets c) < 2 ^ 32" for z :: UWord
    using k(2) by (metis less_trans mod_less_divisor zero_less_numeral zero_less_power)
  have "unat (set_of_block c z) = unat z mod nat (c2_sets c)" for z
    using lt [of z] by (simp add: set_of_block_ok(1) [OF assms] unat_of_nat)
  then show ?thesis by (metis word_unat_eq_iff)
qed

lemma length_cache_set:
  assumes "cache_ok c" and "s < nat (c2_sets c)"
  shows "length (cache_set c s) = nat (c2_assoc c)"
  using set_base_ok(2) [OF assms] by (simp add: cache_set_def)

lemma cache_set_outside:
  assumes "cache_ok c" and "\<not> s < nat (c2_sets c)"
  shows "cache_set c s = []"
proof -
  from assms(1) obtain k n where k: "nat (c2_sets c) = 2 ^ k" "c2_assoc c = int n"
    "length (c2_tags c) = 2 ^ k * n"
    by (rule cache_okE)
  have "2 ^ k * n \<le> s * n" using assms(2) k by (intro mult_le_mono1) simp
  then show ?thesis using k by (simp add: cache_set_def window_def)
qed

lemma cache_set_splice:
  assumes "cache_ok c" and "s < nat (c2_sets c)" and "length ways = nat (c2_assoc c)"
  shows "cache_set (c\<lparr>c2_tags := splice_at (s * nat (c2_assoc c)) ways (c2_tags c)\<rparr>) =
    (cache_set c)(s := ways)"
proof
  fix t
  have b: "s * nat (c2_assoc c) + length ways \<le> length (c2_tags c)"
    using set_base_ok(2) [OF assms(1,2)] assms(3) by simp
  show "cache_set (c\<lparr>c2_tags := splice_at (s * nat (c2_assoc c)) ways (c2_tags c)\<rparr>) t =
      ((cache_set c)(s := ways)) t"
  proof (cases "t = s")
    case True
    then show ?thesis using b assms(3) by (simp add: cache_set_def window_splice_at_same)
  next
    case False
    then show ?thesis
      using window_disjoint [of s t "nat (c2_assoc c)"] assms(3) b
      by (simp add: cache_set_def window_splice_at_other)
  qed
qed

section \<open>Refinement of the LRU specification\<close>

lemma touch_block_refines:
  assumes "cache_ok c"
  obtains c' where "touch_block c block = Inr (fst (lru_block (nat (c2_sets c)) block (cache_set c)), c')"
    "cache_set c' = snd (lru_block (nat (c2_sets c)) block (cache_set c))"
    "cache_ok c'" "c' = c\<lparr>c2_tags := c2_tags c'\<rparr>"
proof -
  define s where "s = unat block mod nat (c2_sets c)"
  define n where "n = nat (c2_assoc c)"
  define ways where "ways = cache_set c s"
  let ?r = "lru_access block ways" and ?c = "c\<lparr>c2_tags := splice_at (s * n) (snd (lru_access block ways)) (c2_tags c)\<rparr>"
  have s: "s < nat (c2_sets c)" using set_of_block_ok(2) [OF assms] by (simp add: s_def)
  have a0: "0 < c2_assoc c" using assms by (rule cache_okE) simp
  have lw: "length ways = n" "ways \<noteq> []"
    using length_cache_set [OF assms s] a0 by (auto simp: n_def ways_def)
  then have lr: "length (snd ?r) = n" by simp
  have "touch_block c block = Inr (fst ?r, ?c)"
    unfolding touch_block_def set_of_block_ok(1) [OF assms] s_def [symmetric] ways_def cache_set_def n_def
    using a0 set_base_ok [OF assms s] by (intro setref_lru) simp_all
  moreover have "cache_set ?c = (cache_set c)(s := snd ?r)"
    using cache_set_splice [OF assms s] lr by (simp add: n_def)
  moreover have "lru_block (nat (c2_sets c)) block (cache_set c) = (fst ?r, (cache_set c)(s := snd ?r))"
    by (simp add: lru_block_def s_def [symmetric] ways_def Let_def case_prod_beta)
  moreover have "cache_ok ?c"
    using assms set_base_ok(2) [OF assms s] lr by (intro cache_ok_upd) (simp_all add: length_splice_at n_def)
  ultimately show thesis using that [of ?c] by simp
qed

lemma unat_last_byte:
  fixes a :: Addr and sz :: UChar
  assumes "0 < sz" and "unat a + unat sz \<le> 2 ^ 64"
  shows "unat (a + ucast sz - 1) = unat a + unat sz - 1"
proof -
  have "0 < unat sz" using assms(1) by (simp add: word_less_nat_alt)
  then have "of_nat (unat a + unat sz - 1) = (of_nat (unat a + unat sz) - 1 :: Addr)"
    by (subst of_nat_diff) simp_all
  also have "\<dots> = a + ucast sz - 1" by simp
  finally have "unat (a + ucast sz - 1) = unat (of_nat (unat a + unat sz - 1) :: Addr)" by simp
  moreover have "unat a + unat sz - 1 < 2 ^ 64" using assms(2) \<open>0 < unat sz\<close> by linarith
  ultimately show ?thesis by (simp add: unat_of_nat)
qed

lemma div_window_cases:
  assumes "0 < (l::nat)" and "0 < s" and "s \<le> l"
  shows "(a + s - 1) div l = a div l \<or> (a + s - 1) div l = a div l + 1"
proof -
  have "a div l \<le> (a + s - 1) div l" using assms by (intro div_le_mono) simp
  moreover have "(a + s - 1) div l \<le> (a + l) div l" using assms by (intro div_le_mono) simp
  ultimately show ?thesis using assms(1) by auto
qed

lemma block_succ:
  assumes "cache_ok c"
  shows "unat (block_of c a + 1) = unat (block_of c a) + 1"
proof -
  from assms obtain j where j: "4 \<le> j" "c2_line_size_bits c = int j" by (rule cache_okE)
  have "unat (block_of c a) = unat a div 2 ^ j" using j by (simp add: block_of_def unat_drop_bit)
  also have "\<dots> \<le> unat a div 2" using power_increasing [of 1 j "2::nat"] j(1) by (intro div_le_mono2) simp_all
  finally have "unat (block_of c a) \<le> unat a div 2" .
  moreover have "unat a < 2 ^ 64" using unsigned_less [of a] by simp
  ultimately have "unat (block_of c a) + 1 < 2 ^ 64" by simp
  then show ?thesis by (simp add: unat_word_ariths(1))
qed

text \<open>A reference that is not longer than a line touches one block or two adjacent ones, so the
  panic branch is not reached.\<close>

lemma ref_two_blocks:
  assumes "cache_ok c" and "ref_fits c (a, sz)"
  shows "block_of c (a + ucast sz - 1) = block_of c a \<or>
    block_of c (a + ucast sz - 1) = block_of c a + 1"
proof -
  from assms(1) obtain j where j: "4 \<le> j" "c2_line_size_bits c = int j" "c2_line_size c = 2 ^ j"
    by (rule cache_okE)
  have f: "0 < sz" "unat a + unat sz \<le> 2 ^ 64" and "int (unat sz) \<le> int (2 ^ j)"
    using assms(2) j(3) by (simp_all add: ref_fits_def)
  then have s: "0 < unat sz" "unat sz \<le> 2 ^ j"
    by (simp_all only: of_nat_le_iff) (simp add: word_less_nat_alt)
  have u: "unat (block_of c x) = unat x div 2 ^ j" for x
    using j by (simp add: block_of_def unat_drop_bit)
  show ?thesis
    using div_window_cases [of "2 ^ j" "unat sz" "unat a"] s unat_last_byte [OF f] block_succ [OF assms(1), of a]
    by (auto simp: u word_unat_eq_iff)
qed

lemma ref_refines:
  assumes "cache_ok c" and "ref_fits c (a, sz)"
  defines "r \<equiv> lru_ref (nat (c2_sets c)) (block_of c a) (block_of c (a + ucast sz - 1)) (cache_set c)"
  obtains c' where "cachesim_ref_is_miss c a sz = Inr (fst r, c')" "cache_set c' = snd r"
    "cache_ok c'" "c' = c\<lparr>c2_tags := c2_tags c'\<rparr>"
proof -
  let ?b1 = "block_of c a" and ?b2 = "block_of c (a + ucast sz - 1)"
  obtain c1 where c1: "touch_block c ?b1 = Inr (fst (lru_block (nat (c2_sets c)) ?b1 (cache_set c)), c1)"
    "cache_set c1 = snd (lru_block (nat (c2_sets c)) ?b1 (cache_set c))" "cache_ok c1"
    "c1 = c\<lparr>c2_tags := c2_tags c1\<rparr>"
    using touch_block_refines [OF assms(1)] .
  have sets1: "c2_sets c1 = c2_sets c" "set_of_block c1 = set_of_block c"
    by (subst c1(4), simp add: set_of_block_def fun_eq_iff)+
  obtain c2 where c2: "touch_block c1 ?b2 = Inr (fst (lru_block (nat (c2_sets c)) ?b2 (cache_set c1)), c2)"
    "cache_set c2 = snd (lru_block (nat (c2_sets c)) ?b2 (cache_set c1))" "cache_ok c2"
    "c2 = c1\<lparr>c2_tags := c2_tags c2\<rparr>"
    using touch_block_refines [OF c1(3), of ?b2] unfolding sets1 .
  show thesis
  proof (cases "?b1 = ?b2")
    case True
    show thesis
    proof (rule that [OF _ _ c1(3,4)])
      show "cachesim_ref_is_miss c a sz = Inr (fst r, c1)" "cache_set c1 = snd r"
        using True c1(1,2)
        by (simp_all add: cachesim_ref_is_miss_def touch_block_def r_def lru_ref_def Let_def case_prod_beta)
    qed
  next
    case False
    then have "?b2 = ?b1 + 1" using ref_two_blocks [OF assms(1,2)] by auto
    then have "cachesim_ref_is_miss c a sz = Inr (fst r, c2)" "cache_set c2 = snd r"
      using False c1(1,2) c2(1,2)
      by (auto simp: cachesim_ref_is_miss_def touch_block_def r_def lru_ref_def Let_def case_prod_beta sets1)
    moreover have "c2 = c\<lparr>c2_tags := c2_tags c2\<rparr>"
      using c1(4) c2(4) by (metis cache_t2.update_convs(9) cache_t2.surjective)
    ultimately show thesis using that c2(3) by blast
  qed
qed

lemma tags_upd_same:
  assumes "c' = c\<lparr>c2_tags := c2_tags c'\<rparr>"
  shows "c2_sets c' = c2_sets c" "c2_assoc c' = c2_assoc c" "c2_line_size_bits c' = c2_line_size_bits c"
    "block_of c' = block_of c" "set_of_block c' = set_of_block c" "ref_fits c' = ref_fits c"
    "blocks_of_ref c' = blocks_of_ref c"
  by (subst assms, simp add: block_of_def set_of_block_def ref_fits_def blocks_of_ref_def fun_eq_iff)+

lemma tags_upd_trans:
  assumes "c1 = c\<lparr>c2_tags := c2_tags c1\<rparr>" and "c2 = c1\<lparr>c2_tags := c2_tags c2\<rparr>"
  shows "c2 = c\<lparr>c2_tags := c2_tags c2\<rparr>"
  using assms by (metis cache_t2.update_convs(9) cache_t2.surjective)

lemma blocks_of_ref_simp [simp]:
  "blocks_of_ref c (a, sz) = (block_of c a, block_of c (a + ucast sz - 1))"
  by (simp add: blocks_of_ref_def)

lemma run_refines:
  assumes "cache_ok c" and "list_all (ref_fits c) refs"
  shows "\<exists>c'. run_refs c refs = Inr (fst (lru_run (nat (c2_sets c)) (map (blocks_of_ref c) refs) (cache_set c)), c')
    \<and> cache_set c' = snd (lru_run (nat (c2_sets c)) (map (blocks_of_ref c) refs) (cache_set c))
    \<and> cache_ok c' \<and> c' = c\<lparr>c2_tags := c2_tags c'\<rparr>"
  using assms
proof (induction refs arbitrary: c)
  case (Cons ref refs)
  obtain a sz where ref: "ref = (a, sz)" by (cases ref)
  let ?r = "lru_ref (nat (c2_sets c)) (block_of c a) (block_of c (a + ucast sz - 1)) (cache_set c)"
  obtain c1 where c1: "cachesim_ref_is_miss c a sz = Inr (fst ?r, c1)" "cache_set c1 = snd ?r"
    "cache_ok c1" "c1 = c\<lparr>c2_tags := c2_tags c1\<rparr>"
    using ref_refines [of c a sz] Cons.prems ref by auto
  note same = tags_upd_same [OF c1(4)]
  let ?s = "lru_run (nat (c2_sets c)) (map (blocks_of_ref c) refs) (cache_set c1)"
  obtain c2 where c2: "run_refs c1 refs = Inr (fst ?s, c2)" "cache_set c2 = snd ?s" "cache_ok c2"
    "c2 = c1\<lparr>c2_tags := c2_tags c2\<rparr>"
    using Cons.IH [OF c1(3)] Cons.prems(2) unfolding same by auto
  show ?case
    using c1 c2 tags_upd_trans [OF c1(4) c2(4)]
    by (intro exI [of _ c2]) (simp add: ref Let_def case_prod_beta)
qed simp

section \<open>Initialisation\<close>

lemma initcache_valid:
  assumes "Int_fields config" and "valid_cache config"
  obtains c where "cachesim_initcache config = Inr c" "cache_ok c" "set (c2_tags c) = {0}"
    "c2_assoc c = cassoc config" "c2_line_size c = cline_size config"
    "c2_sets c * cassoc config * cline_size config = csize config"
    "2 ^ nat (c2_line_size_bits c) = cline_size config" "c2_sets_min_1 c = c2_sets c - 1"
proof -
  obtain j k where j: "4 \<le> j" "cline_size config = 2 ^ j" and a: "0 < cassoc config"
    and s: "csize config = 2 ^ k * cassoc config * cline_size config"
    using assms(2) by (auto simp: valid_cache_def)
  let ?a = "cassoc config" and ?l = "cline_size config" and ?s = "csize config"
  have s31: "?s < 2147483648" using assms(1) by (simp add: Int_fields_def in_Int_def)
  have l0: "0 < ?l" using j by simp
  have q: "?s sdiv ?l = 2 ^ k * ?a" "(2 ^ k * ?a) sdiv ?a = 2 ^ k"
    using s l0 a by (simp_all add: sdiv_pos)
  have k0: "(1::int) \<le> 2 ^ k" by simp
  have ka: "0 < 2 ^ k * ?a" using a by simp
  have "1 \<le> 2 ^ k * ?a" using ka by linarith
  then have "2 ^ k * 1 \<le> 2 ^ k * ?a" "2 ^ k * ?a * 1 \<le> 2 ^ k * ?a * ?l" "1 * ?l \<le> 2 ^ k * ?a * ?l"
    using a l0 by (auto intro!: mult_left_mono mult_right_mono)
  then have b: "2 ^ k * ?a < 2147483648" "(2::int) ^ k < 2147483648" "?l < 2147483648"
    using s s31 by linarith+
  then have "(2::int) ^ k < 2 ^ 31" "(2::int) ^ j < 2 ^ 31" using j by simp_all
  then have jk: "k < 31" "j < 31" using pow2_less_31 by blast+
  then have lg: "VG_log2 (2 ^ k) = int k" "VG_log2 (word_of_int ?l) = int j"
    by (simp_all add: VG_log2_eq_iff j(2))
  have r: "in_Int (2 ^ k * ?a)" "in_Int (2 ^ k)" "in_Int (2 ^ k - 1)"
    using b ka by (intro in_IntI; simp)+
  then have d: "div_Int ?s ?l = Inr (2 ^ k * ?a)" "div_Int (2 ^ k * ?a) ?a = Inr (2 ^ k)"
    "add_Int (2 ^ k) (- 1) = Inr (2 ^ k - 1)" "mul_Int (2 ^ k) ?a = Inr (2 ^ k * ?a)"
    using a l0 q by (simp_all add: div_Int_def add_Int_def mul_Int_def)
  let ?c = "\<lparr>c2_size = ?s, c2_assoc = ?a, c2_line_size = ?l, c2_sets = 2 ^ k,
     c2_sets_min_1 = 2 ^ k - 1, c2_line_size_bits = int j, c2_tag_shift = int j + int k,
     c2_desc_line = desc_line_of config, c2_tags = replicate (nat (2 ^ k * ?a)) 0\<rparr>"
  have "cachesim_initcache config = Inr ?c"
    using lg d by (simp add: cachesim_initcache_def Let_def)
  moreover have "cache_ok ?c"
    unfolding cache_ok_def using j a b s s31 by (intro exI [of _ j] exI [of _ k]) simp
  ultimately show thesis
    using j ka s by (intro that [of ?c]) simp_all
qed

section \<open>The LRU rule: inclusion and reuse distance\<close>

lemma take_remove1_in: "x \<in> set (take n xs) \<Longrightarrow> take (n - 1) (remove1 x xs) = remove1 x (take n xs)"
proof (induction xs arbitrary: n)
  case (Cons y ys)
  show ?case
  proof (cases "y = x")
    case True
    then show ?thesis using Cons.prems by (cases n) auto
  next
    case False
    then obtain m where "n = Suc (Suc m)" "x \<in> set (take (Suc m) ys)"
      using Cons.prems by (cases n; cases "n - 1") auto
    then show ?thesis using Cons.IH [of "Suc m"] False by simp
  qed
qed simp

lemma take_remove1_notin:
  "x \<notin> set (take n xs) \<Longrightarrow> n \<le> length xs \<Longrightarrow> take (n - 1) (remove1 x xs) = butlast (take n xs)"
proof (induction xs arbitrary: n)
  case (Cons y ys)
  show ?case
  proof (cases n)
    case (Suc m)
    then show ?thesis
      using Cons.IH [of m] Cons.prems by (cases m) auto
  qed simp
qed simp

text \<open>The first \<open>n\<close> ways of a larger set behave as a set of \<open>n\<close> ways.\<close>

lemma lru_access_take:
  assumes "0 < n" and "n \<le> length ways"
  shows "snd (lru_access tag (take n ways)) = take n (snd (lru_access tag ways))"
    "fst (lru_access tag ways) \<Longrightarrow> fst (lru_access tag (take n ways))"
proof -
  obtain m where m: "n = Suc m" using assms(1) by (cases n) auto
  have "take m (butlast ways) = butlast (take n ways)"
    using assms m by (simp add: butlast_conv_take min_def)
  then show "snd (lru_access tag (take n ways)) = take n (snd (lru_access tag ways))"
    using take_remove1_in [of tag n ways] take_remove1_notin [OF _ assms(2), of tag] m
    by (auto simp: lru_access_def dest: in_set_takeD)
  show "fst (lru_access tag ways) \<Longrightarrow> fst (lru_access tag (take n ways))"
    by (auto simp: lru_access_def dest: in_set_takeD split: if_splits)
qed

text \<open>How the ways move around a tag that is not referenced.\<close>

lemma lru_access_other:
  assumes "ways = pre @ tag # post" and "distinct pre" and "tag \<notin> set pre" and "b \<noteq> tag"
  defines "ways' \<equiv> snd (lru_access b ways)"
  shows "(\<exists>pre' post'. ways' = pre' @ tag # post' \<and> distinct pre' \<and> set pre' = insert b (set pre)) \<or>
    (tag \<notin> set ways' \<and> post = [] \<and> b \<notin> set pre)"
proof -
  consider (front) "b \<in> set pre" | (far) "b \<notin> set pre" "b \<in> set post"
    | (miss) "b \<notin> set pre" "b \<notin> set post" by blast
  then show ?thesis
  proof cases
    case front
    then have "ways' = (b # remove1 b pre) @ tag # post"
      using assms by (simp add: lru_access_def remove1_append)
    then show ?thesis
      using front assms(2)
      by - (rule disjI1, rule exI [of _ "b # remove1 b pre"], rule exI [of _ post], auto)
  next
    case far
    then have "ways' = (b # pre) @ tag # remove1 b post"
      using assms by (simp add: lru_access_def remove1_append)
    then show ?thesis
      using far assms(2)
      by - (rule disjI1, rule exI [of _ "b # pre"], rule exI [of _ "remove1 b post"], auto)
  next
    case miss
    then have w: "ways' = b # butlast (pre @ tag # post)" using assms by (simp add: lru_access_def)
    show ?thesis
    proof (cases "post = []")
      case True
      then show ?thesis using w miss assms(3,4) by simp
    next
      case False
      then have "ways' = (b # pre) @ tag # butlast post" using w by (simp add: butlast_append)
      then show ?thesis
        using miss assms(2)
        by - (rule disjI1, rule exI [of _ "b # pre"], rule exI [of _ "butlast post"], auto)
    qed
  qed
qed

lemma lru_fold_simps [simp]:
  "lru_fold w [] = w" "lru_fold w (bs @ [b]) = snd (lru_access b (lru_fold w bs))"
  "lru_fold w (b # bs) = lru_fold (snd (lru_access b w)) bs"
  by (simp_all add: lru_fold_def)

lemma length_lru_fold: "w \<noteq> [] \<Longrightarrow> length (lru_fold w bs) = length w"
  by (induction bs rule: rev_induct) (simp_all, metis length_greater_0_conv length_lru_access)

lemma lru_fold_position:
  assumes "w0 = tag # rest" and "tag \<notin> set bs"
  shows "(\<exists>pre post. lru_fold w0 bs = pre @ tag # post \<and> distinct pre \<and> set pre = set bs) \<or>
    (tag \<notin> set (lru_fold w0 bs) \<and> length w0 \<le> card (set bs))"
  using assms(2)
proof (induction bs rule: rev_induct)
  case Nil
  then show ?case using assms(1) by simp
next
  case (snoc b bs)
  let ?w = "lru_fold w0 bs"
  have len: "length ?w = length w0" using assms(1) by (simp add: length_lru_fold)
  have b: "b \<noteq> tag" "tag \<notin> set bs" using snoc.prems by auto
  from snoc.IH [OF b(2)] show ?case
  proof
    assume "\<exists>pre post. ?w = pre @ tag # post \<and> distinct pre \<and> set pre = set bs"
    then obtain pre post where w: "?w = pre @ tag # post" "distinct pre" "set pre = set bs" by blast
    with lru_access_other [OF w(1,2) _ b(1)] b(2) len show ?case
      by (auto simp: card_insert_if distinct_card [symmetric])
  next
    assume out: "tag \<notin> set ?w \<and> length w0 \<le> card (set bs)"
    then have "tag \<notin> set (snd (lru_access b ?w))"
      using b(1) by (auto simp: lru_access_def dest: in_set_butlastD set_remove1_subset [THEN subsetD])
    moreover have "card (set bs) \<le> card (set (bs @ [b]))" by (intro card_mono) auto
    ultimately show ?case using out by auto
  qed
qed

lemma lru_reuse:
  assumes "ways \<noteq> []" and "tag \<notin> set bs"
  shows "fst (lru_access tag (lru_fold (snd (lru_access tag ways)) bs)) \<longleftrightarrow> length ways \<le> card (set bs)"
proof -
  obtain rest where r: "snd (lru_access tag ways) = tag # rest"
    by (cases "tag \<in> set ways") (simp_all add: lru_access_def)
  have len: "length (tag # rest) = length ways" using assms(1) r by (metis length_lru_access)
  have "length (lru_fold (tag # rest) bs) = length ways" using len by (simp add: length_lru_fold)
  with lru_fold_position [OF refl assms(2), of rest] len show ?thesis
    unfolding r by (auto simp: lru_access_def dest!: distinct_card)
qed

section \<open>Whole caches\<close>

lemma lru_block_include:
  assumes "0 < n" and "\<And>s. f s = take n (g s)" and "\<And>s. s < sets \<Longrightarrow> n \<le> length (g s)" and "0 < sets"
  shows "snd (lru_block sets b f) = (\<lambda>s. take n (snd (lru_block sets b g) s))"
    "fst (lru_block sets b g) \<Longrightarrow> fst (lru_block sets b f)"
proof -
  let ?s = "unat b mod sets"
  have "n \<le> length (g ?s)" using assms(3,4) by simp
  note t = lru_access_take [OF assms(1) this]
  have f: "lru_block sets b f = (fst (lru_access b (take n (g ?s))), f(?s := snd (lru_access b (take n (g ?s)))))"
    "lru_block sets b g = (fst (lru_access b (g ?s)), g(?s := snd (lru_access b (g ?s))))"
    by (simp_all add: lru_block_def assms(2) Let_def case_prod_beta)
  show "snd (lru_block sets b f) = (\<lambda>s. take n (snd (lru_block sets b g) s))"
    unfolding f using t(1) assms(2) by (simp add: fun_eq_iff)
  show "fst (lru_block sets b g) \<Longrightarrow> fst (lru_block sets b f)"
    unfolding f using t(2) by simp
qed

lemma length_lru_block:
  assumes "\<And>s. s < sets \<Longrightarrow> length (g s) = m" and "0 < m" and "0 < sets" and "s < sets"
  shows "length (snd (lru_block sets b g) s) = m"
proof -
  have "length (snd (lru_access b (g (unat b mod sets)))) = m"
    using assms(1) [of "unat b mod sets"] assms(2,3) by (subst length_lru_access) auto
  then show ?thesis using assms by (simp add: lru_block_def Let_def case_prod_beta)
qed

lemma length_lru_ref:
  assumes "\<And>s. s < sets \<Longrightarrow> length (g s) = m" and "0 < m" and "0 < sets" and "s < sets"
  shows "length (snd (lru_ref sets b1 b2 g) s) = m"
  using length_lru_block [OF assms(1-3)] length_lru_block [OF length_lru_block [OF assms(1-3)] assms(2,3)] assms(4)
  by (simp add: lru_ref_def Let_def case_prod_beta)

lemma lru_ref_include:
  assumes "0 < n" and "n \<le> m" and "\<And>s. f s = take n (g s)" and "\<And>s. s < sets \<Longrightarrow> length (g s) = m"
    and "0 < sets"
  shows "snd (lru_ref sets b1 b2 f) = (\<lambda>s. take n (snd (lru_ref sets b1 b2 g) s))"
    "fst (lru_ref sets b1 b2 g) \<Longrightarrow> fst (lru_ref sets b1 b2 f)"
proof -
  have l: "length (snd (lru_block sets b1 g) s) = m" if "s < sets" for s
    using length_lru_block [of sets g m s b1] that assms by simp
  note i1 = lru_block_include [of n f g sets b1]
  note i2 = lru_block_include [of n "snd (lru_block sets b1 f)" "snd (lru_block sets b1 g)" sets b2]
  have s1: "snd (lru_block sets b1 f) = (\<lambda>s. take n (snd (lru_block sets b1 g) s))"
    using i1(1) assms by simp
  show "snd (lru_ref sets b1 b2 f) = (\<lambda>s. take n (snd (lru_ref sets b1 b2 g) s))"
    using s1 i2(1) l assms(1,2,5) by (simp add: lru_ref_def Let_def case_prod_beta)
  show "fst (lru_ref sets b1 b2 g) \<Longrightarrow> fst (lru_ref sets b1 b2 f)"
    using i1(2) i2(2) s1 l assms by (auto simp: lru_ref_def Let_def case_prod_beta split: if_splits)
qed

lemma lru_run_include:
  assumes "0 < n" and "n \<le> m" and "0 < sets"
    and "\<And>s. f s = take n (g s)" and "\<And>s. s < sets \<Longrightarrow> length (g s) = m"
  shows "list_all2 (\<lambda>x y. y \<longrightarrow> x) (fst (lru_run sets bs f)) (fst (lru_run sets bs g))"
  using assms(4,5)
proof (induction bs arbitrary: f g)
  case (Cons b bs)
  obtain b1 b2 where b: "b = (b1, b2)" by (cases b)
  note i = lru_ref_include [of n m f g sets b1 b2, OF assms(1,2) Cons.prems assms(3)]
  have "list_all2 (\<lambda>x y. y \<longrightarrow> x) (fst (lru_run sets bs (snd (lru_ref sets b1 b2 f))))
      (fst (lru_run sets bs (snd (lru_ref sets b1 b2 g))))"
    using i(1) Cons.prems assms(1,2,3) by (intro Cons.IH) (simp_all add: length_lru_ref)
  then show ?case using i(2) by (simp add: b Let_def case_prod_beta)
qed simp

lemma run_blocks_refines:
  assumes "cache_ok c"
  shows "\<exists>ms c'. run_blocks c bs = Inr (ms, c') \<and> cache_ok c' \<and> c' = c\<lparr>c2_tags := c2_tags c'\<rparr> \<and>
    (\<forall>s. cache_set c' s = lru_fold (cache_set c s) (filter (\<lambda>b. unat b mod nat (c2_sets c) = s) bs))"
  using assms
proof (induction bs arbitrary: c)
  case Nil
  then show ?case by simp
next
  case (Cons b bs)
  let ?r = "lru_block (nat (c2_sets c)) b (cache_set c)"
  obtain c1 where c1: "touch_block c b = Inr (fst ?r, c1)" "cache_set c1 = snd ?r" "cache_ok c1"
    "c1 = c\<lparr>c2_tags := c2_tags c1\<rparr>"
    using touch_block_refines [OF Cons.prems] .
  note same = tags_upd_same [OF c1(4)]
  obtain ms c2 where c2: "run_blocks c1 bs = Inr (ms, c2)" "cache_ok c2" "c2 = c1\<lparr>c2_tags := c2_tags c2\<rparr>"
    "\<And>s. cache_set c2 s = lru_fold (cache_set c1 s) (filter (\<lambda>b. unat b mod nat (c2_sets c) = s) bs)"
    using Cons.IH [OF c1(3)] unfolding same by blast
  have "cache_set c1 s = (if unat b mod nat (c2_sets c) = s then snd (lru_access b (cache_set c s)) else cache_set c s)" for s
    unfolding c1(2) by (simp add: lru_block_def Let_def case_prod_beta)
  then have "\<forall>s. cache_set c2 s = lru_fold (cache_set c s) (filter (\<lambda>b. unat b mod nat (c2_sets c) = s) (b # bs))"
    using c2(4) by simp
  then show ?case
    using c1(1) c2(1,2) tags_upd_trans [OF c1(4) c2(3)] by auto
qed

section \<open>Properties\<close>

lemma same_set_adjacent:
  assumes "unat (b + 1 :: UWord) = unat b + 1" and "unat (b + 1) mod 2 ^ k = unat b mod 2 ^ k"
  shows "k = 0"
proof (rule ccontr)
  assume "k \<noteq> 0"
  then have "2 dvd (2 ^ k :: nat)" by simp
  then have "unat (b + 1) mod 2 = (unat (b + 1) mod 2 ^ k) mod 2" "unat b mod 2 = (unat b mod 2 ^ k) mod 2"
    by (simp_all add: mod_mod_cancel)
  then have "(unat b + 1) mod 2 = unat b mod 2" unfolding assms(2) unfolding assms(1) by simp
  then show False by presburger
qed

lemma mem_lru_access [simp]: "b \<in> set (snd (lru_access b ways))"
  by (simp add: lru_access_def)

lemma mem_lru_access_hit: "b \<in> set ways \<Longrightarrow> x \<in> set ways \<Longrightarrow> x \<in> set (snd (lru_access b ways))"
  by (cases "x = b") (simp_all add: lru_access_def)

lemma hd_lru_access: "b \<noteq> x \<Longrightarrow> rest \<noteq> [] \<Longrightarrow> x \<in> set (snd (lru_access b (x # rest)))"
  by (auto simp: lru_access_def)

lemma snd_lru_access_Cons: "\<exists>rest. snd (lru_access b ways) = b # rest"
  by (simp add: lru_access_def)

lemma fst_lru_access [simp]: "fst (lru_access b ways) \<longleftrightarrow> b \<notin> set ways"
  by (simp add: lru_access_def)

lemma lru_block_simps:
  "fst (lru_block sets b f) \<longleftrightarrow> b \<notin> set (f (unat b mod sets))"
  "snd (lru_block sets b f) = f(unat b mod sets := snd (lru_access b (f (unat b mod sets))))"
  by (simp_all add: lru_block_def Let_def case_prod_beta)

text \<open>Two adjacent blocks both stay in a cache of two lines or more, and not in a smaller one.\<close>

lemma lru_ref_again:
  assumes "0 < m" and "s1 = unat b1 mod sets" and "s2 = unat b2 mod sets"
    and "length (f s1) = m" and "b1 \<noteq> b2" and "s1 = s2 \<longleftrightarrow> sets = 1"
  shows "fst (lru_ref sets b1 b2 (snd (lru_ref sets b1 b2 f))) \<longleftrightarrow> sets = 1 \<and> m = 1"
proof -
  let ?f1 = "snd (lru_block sets b1 f)" let ?f2 = "snd (lru_block sets b2 ?f1)"
  have r: "snd (lru_ref sets b1 b2 f) = ?f2"
    "fst (lru_ref sets b1 b2 ?f2) \<longleftrightarrow> b1 \<notin> set (?f2 s1) \<or> b2 \<notin> set (snd (lru_block sets b1 ?f2) s2)"
    using assms(2,3,5) by (simp_all add: lru_ref_def Let_def case_prod_beta lru_block_simps)
  obtain rest where w1: "snd (lru_access b1 (f s1)) = b1 # rest" using snd_lru_access_Cons by metis
  have lr: "length rest = m - 1"
    using w1 assms(1,4) by (metis length_lru_access length_Cons diff_Suc_1 length_greater_0_conv)
  show ?thesis
  proof (cases "s1 = s2")
    case False
    then have "sets \<noteq> 1" and "b1 \<in> set (?f2 s1)" "b2 \<in> set (snd (lru_block sets b1 ?f2) s2)"
      using assms(2,3,6) by (auto simp: lru_block_simps)
    then show ?thesis unfolding r by simp
  next
    case True
    have f2: "?f2 s1 = snd (lru_access b2 (b1 # rest))"
      using True assms(2,3) w1 by (simp add: lru_block_simps)
    show ?thesis
    proof (cases "rest = []")
      case True
      then have "b1 \<notin> set (?f2 s1)" unfolding f2 using assms(5) by (simp add: lru_access_def)
      then show ?thesis unfolding r using True lr \<open>s1 = s2\<close> assms(1,6) by simp
    next
      case False
      then have "b1 \<in> set (?f2 s1)" unfolding f2 using assms(5) by (intro hd_lru_access) auto
      moreover have "b2 \<in> set (?f2 s1)" unfolding f2 by simp
      moreover have "snd (lru_block sets b1 h) s2 = snd (lru_access b1 (h s1))" for h
        using \<open>s1 = s2\<close> assms(2) by (simp add: lru_block_simps)
      ultimately have "b2 \<in> set (snd (lru_block sets b1 ?f2) s2)"
        by (simp only: mem_lru_access_hit)
      moreover have "m \<noteq> 1" using False lr by auto
      ultimately show ?thesis unfolding r using \<open>b1 \<in> set (?f2 s1)\<close> by simp
    qed
  qed
qed

lemma ref_total:
  assumes "cache_ok c" and "ref_fits c (a, sz)"
  obtains m c' where "cachesim_ref_is_miss c a sz = Inr (m, c')" "cache_ok c'"
    "c' = c\<lparr>c2_tags := c2_tags c'\<rparr>"
  using ref_refines [OF assms] by metis

lemma doref_total:
  assumes "sim_ok st" and "ref_fits (sim_LL st) (a, sz)"
  shows "ref_fits (sim_I1 st) (a, sz) \<Longrightarrow>
      \<exists>st' m1' mL'. cachesim_I1_doref_Gen a sz st m1 mL = Inr (st', m1', mL') \<and> sim_ok st' \<and>
        counts_ok m1 mL m1' mL'"
    "ref_fits (sim_D1 st) (a, sz) \<Longrightarrow>
      \<exists>st' m1' mL'. cachesim_D1_doref a sz st m1 mL = Inr (st', m1', mL') \<and> sim_ok st' \<and>
        counts_ok m1 mL m1' mL'"
proof -
  have ok: "cache_ok (sim_I1 st)" "cache_ok (sim_D1 st)" "cache_ok (sim_LL st)"
    using assms(1) by (simp_all add: sim_ok_def)
  obtain mL' ll where ll: "cachesim_ref_is_miss (sim_LL st) a sz = Inr (mL', ll)" "cache_ok ll"
    using ref_total [OF ok(3) assms(2)] by metis
  show "\<exists>st' m1' mL'. cachesim_I1_doref_Gen a sz st m1 mL = Inr (st', m1', mL') \<and> sim_ok st' \<and>
      counts_ok m1 mL m1' mL'" if fits: "ref_fits (sim_I1 st) (a, sz)"
  proof -
    obtain m c where "cachesim_ref_is_miss (sim_I1 st) a sz = Inr (m, c)" "cache_ok c"
      using ref_total [OF ok(1) fits] by metis
    then show ?thesis
      using ll ok by (cases m; cases mL') (simp_all add: cachesim_I1_doref_Gen_def sim_ok_def counts_ok_def)
  qed
  show "\<exists>st' m1' mL'. cachesim_D1_doref a sz st m1 mL = Inr (st', m1', mL') \<and> sim_ok st' \<and>
      counts_ok m1 mL m1' mL'" if fits: "ref_fits (sim_D1 st) (a, sz)"
  proof -
    obtain m c where "cachesim_ref_is_miss (sim_D1 st) a sz = Inr (m, c)" "cache_ok c"
      using ref_total [OF ok(2) fits] by metis
    then show ?thesis
      using ll ok by (cases m; cases mL') (simp_all add: cachesim_D1_doref_def sim_ok_def counts_ok_def)
  qed
qed

lemma initcache_set:
  assumes "cache_ok c" and "set (c2_tags c) = {0}" and "s < nat (c2_sets c)"
  shows "cache_set c s = replicate (nat (c2_assoc c)) 0"
proof -
  have "set (cache_set c s) \<subseteq> {0}"
    using assms(2) by (auto simp: cache_set_def window_def dest!: in_set_takeD in_set_dropD)
  then show ?thesis
    using length_cache_set [OF assms(1,3)] by (intro replicate_eqI) auto
qed

text \<open>
  C4: the array shuffling of the simulator is the least recently used replacement policy: a
  reference that fits in a line never panics and never leaves the tag array, its result is the
  miss of the LRU rule on the sets of the one or two blocks it touches, the resulting array holds
  the sets of the LRU rule, and the cache stays well formed.
\<close>

theorem cachesim_ref_refines_lru:
  assumes "cache_ok c" and "ref_fits c (a, sz)"
  defines "r \<equiv> lru_ref (nat (c2_sets c)) (block_of c a) (block_of c (a + ucast sz - 1)) (cache_set c)"
  shows "\<exists>c'. cachesim_ref_is_miss c a sz = Inr (fst r, c') \<and> cache_set c' = snd r \<and> cache_ok c'"
  using ref_refines [OF assms(1,2)] unfolding r_def by metis

theorem cachesim_ref_refines_lru_witness:
  "\<exists>c c'. cachesim_initcache (mk_cache 64 1 64) = Inr c \<and> cachesim_ref_is_miss c 256 8 = Inr (True, c') \<and>
     cache_set c' 0 = [4]"
proof -
  obtain c where c: "cachesim_initcache (mk_cache 64 1 64) = Inr c" "cache_ok c" "set (c2_tags c) = {0}"
    "c2_assoc c = 1" "c2_line_size c = 64" "c2_sets c = 1" "2 ^ nat (c2_line_size_bits c) = (64::int)"
    using initcache_valid [OF one_line_cache] by (auto simp: mk_cache_def)
  have "nat (c2_line_size_bits c) = 6"
    using c(7) power_inject_exp [of "2::int" "nat (c2_line_size_bits c)" 6] by simp
  then have b: "block_of c 256 = 4" "block_of c (256 + ucast (8 :: UChar) - 1) = 4"
    by (simp_all add: block_of_def drop_bit_eq_div)
  have f: "ref_fits c (256, 8)" using c(5) by (simp add: ref_fits_def)
  have "cache_set c 0 = [0]" using initcache_set [OF c(2,3), of 0] c(4,6) by simp
  then show ?thesis
    using cachesim_ref_refines_lru [OF c(2) f] c(1,6) b
    by (auto simp: lru_ref_def lru_block_def lru_access_def Let_def)
qed

text \<open>
  C19: inclusion. Of two caches with the same line size and the same number of sets, started
  empty and given the same references, the one with the larger associativity misses only where
  the smaller one misses too; both runs go through.
\<close>

theorem cachesim_inclusion:
  assumes "Int_fields C" and "valid_cache C" and "Int_fields D" and "valid_cache D"
    and "cline_size C = cline_size D" and "cassoc C \<le> cassoc D"
    and "csize C * cassoc D = csize D * cassoc C"
    and "cachesim_initcache C = Inr c" and "cachesim_initcache D = Inr d"
    and "list_all (ref_fits c) refs"
  shows "\<exists>ms c' ns d'. run_refs c refs = Inr (ms, c') \<and> run_refs d refs = Inr (ns, d') \<and>
    list_all2 (\<lambda>m n. n \<longrightarrow> m) ms ns"
proof -
  have c: "cache_ok c" "set (c2_tags c) = {0}" "c2_assoc c = cassoc C" "c2_line_size c = cline_size C"
    "c2_sets c * cassoc C * cline_size C = csize C" "2 ^ nat (c2_line_size_bits c) = cline_size C"
    using initcache_valid [OF assms(1,2)] assms(8) by auto
  have d: "cache_ok d" "set (c2_tags d) = {0}" "c2_assoc d = cassoc D" "c2_line_size d = cline_size D"
    "c2_sets d * cassoc D * cline_size D = csize D" "2 ^ nat (c2_line_size_bits d) = cline_size D"
    using initcache_valid [OF assms(3,4)] assms(9) by auto
  have pos: "0 < cassoc C" "0 < cassoc D" "0 < cline_size C"
    using valid_cache_bounds [OF assms(2)] valid_cache_bounds [OF assms(4)] by simp_all
  have "c2_sets c * cassoc C * cline_size D * cassoc D = c2_sets d * cassoc D * cline_size D * cassoc C"
    using assms(7) unfolding c(5) [symmetric] d(5) [symmetric] assms(5) .
  then have sets: "c2_sets c = c2_sets d" using pos assms(5) by (simp add: mult_ac)
  have "(2::int) ^ nat (c2_line_size_bits c) = 2 ^ nat (c2_line_size_bits d)" using c(6) d(6) assms(5) by simp
  then have bits: "nat (c2_line_size_bits c) = nat (c2_line_size_bits d)" by simp
  have same: "blocks_of_ref d = blocks_of_ref c" "ref_fits d = ref_fits c"
    using bits c(4) d(4) assms(5) by (simp_all add: blocks_of_ref_def block_of_def ref_fits_def)
  have s0: "0 < nat (c2_sets c)" using c(1) by (rule cache_okE) simp
  have inc: "cache_set c s = take (nat (cassoc C)) (cache_set d s)" for s
  proof (cases "s < nat (c2_sets c)")
    case True
    then show ?thesis using initcache_set c d sets assms(6) by (simp add: min_def)
  next
    case False
    then show ?thesis using cache_set_outside c(1) d(1) sets by simp
  qed
  have "list_all2 (\<lambda>m n. n \<longrightarrow> m)
      (fst (lru_run (nat (c2_sets c)) (map (blocks_of_ref c) refs) (cache_set c)))
      (fst (lru_run (nat (c2_sets c)) (map (blocks_of_ref c) refs) (cache_set d)))"
    using pos assms(6) s0 inc length_cache_set [OF d(1)] d(3) sets
    by (intro lru_run_include [where n = "nat (cassoc C)" and m = "nat (cassoc D)"]) simp_all
  with run_refines [OF c(1) assms(10)] run_refines [OF d(1), of refs] assms(10) show ?thesis
    unfolding same sets by auto
qed

lemma two_way_cache: "Int_fields (mk_cache 128 2 64)" "valid_cache (mk_cache 128 2 64)"
proof -
  show "Int_fields (mk_cache 128 2 64)"
    by (rule Int_fieldsI) (simp_all add: mk_cache_def)
  have "valid_cache (mk_cache (2 ^ 0 * 2 * 2 ^ 6) 2 (2 ^ 6))"
    unfolding valid_cache_def mk_cache_def by (intro exI [of _ 6] exI [of _ 0]) simp
  then show "valid_cache (mk_cache 128 2 64)" by simp
qed

theorem cachesim_inclusion_witness:
  "\<exists>c d ms c' ns d'. cachesim_initcache (mk_cache 64 1 64) = Inr c \<and>
     cachesim_initcache (mk_cache 128 2 64) = Inr d \<and>
     run_refs c [(60, 8), (60, 8)] = Inr (ms, c') \<and> run_refs d [(60, 8), (60, 8)] = Inr (ns, d') \<and>
     list_all2 (\<lambda>m n. n \<longrightarrow> m) ms ns"
proof -
  obtain c where c: "cachesim_initcache (mk_cache 64 1 64) = Inr c" "c2_line_size c = 64"
    using initcache_valid [OF one_line_cache] by (auto simp: mk_cache_def)
  obtain d where d: "cachesim_initcache (mk_cache 128 2 64) = Inr d"
    using initcache_valid [OF two_way_cache] by auto
  have "list_all (ref_fits c) [(60, 8), (60, 8)]" using c(2) by (simp add: ref_fits_def)
  from cachesim_inclusion [OF one_line_cache two_way_cache _ _ _ c(1) d this] show ?thesis
    using c(1) d by (auto simp: mk_cache_def)
qed

text \<open>
  C20: reuse distance. After a reference to a block and then references to other blocks, the
  block is missing exactly when at least as many different blocks of its set were referenced in
  between as the cache has ways.
\<close>

theorem cachesim_reuse_distance:
  assumes "cache_ok c" and "b \<notin> set bs"
  shows "\<exists>ms c' c''. run_blocks c (b # bs) = Inr (ms, c') \<and>
    touch_block c' b =
      Inr (nat (c2_assoc c) \<le> card {x \<in> set bs. set_of_block c x = set_of_block c b}, c'')"
proof -
  let ?n = "nat (c2_sets c)" and ?s = "unat b mod nat (c2_sets c)"
  let ?bs = "filter (\<lambda>x. unat x mod ?n = ?s) bs"
  obtain ms c' where run: "run_blocks c (b # bs) = Inr (ms, c')" "cache_ok c'"
    "c' = c\<lparr>c2_tags := c2_tags c'\<rparr>"
    "cache_set c' ?s = lru_fold (snd (lru_access b (cache_set c ?s))) ?bs"
    using run_blocks_refines [OF assms(1), of "b # bs"] by auto
  note same = tags_upd_same [OF run(3)]
  obtain c'' where t: "touch_block c' b = Inr (fst (lru_block ?n b (cache_set c')), c'')"
    using touch_block_refines [OF run(2), of b] unfolding same by metis
  have s: "?s < ?n" using set_of_block_ok(2) [OF assms(1)] .
  have "0 < c2_assoc c" using assms(1) by (rule cache_okE) simp
  then have w: "length (cache_set c ?s) = nat (c2_assoc c)" "cache_set c ?s \<noteq> []"
    using length_cache_set [OF assms(1) s] by auto
  have "fst (lru_block ?n b (cache_set c')) \<longleftrightarrow> nat (c2_assoc c) \<le> card (set ?bs)"
    using lru_reuse [OF w(2), of b ?bs] assms(2) w(1) run(4) by (simp add: lru_block_simps)
  moreover have "set ?bs = {x \<in> set bs. set_of_block c x = set_of_block c b}"
    using set_of_block_inj [OF assms(1)] by auto
  ultimately show ?thesis using run(1) t by auto
qed

theorem cachesim_reuse_distance_witness:
  "\<exists>c ms c' c''. cachesim_initcache (mk_cache 128 2 64) = Inr c \<and>
     run_blocks c [7, 8, 8] = Inr (ms, c') \<and> touch_block c' 7 = Inr (False, c'')"
proof -
  obtain c where c: "cachesim_initcache (mk_cache 128 2 64) = Inr c" "cache_ok c" "c2_assoc c = 2"
    using initcache_valid [OF two_way_cache] by (auto simp: mk_cache_def)
  have "card {x \<in> set [8, 8]. set_of_block c x = set_of_block c 7} \<le> card {8 :: UWord}"
    by (intro card_mono) auto
  then have "\<not> nat (c2_assoc c) \<le> card {x \<in> set [8, 8]. set_of_block c x = set_of_block c 7}"
    using c(3) by simp
  with cachesim_reuse_distance [OF c(2), of 7 "[8, 8]"] show ?thesis using c(1) by auto
qed

text \<open>
  repeating a reference hits if it lies within one line or the cache has at least two
  lines. In a cache of a single line, which this version accepts, a reference that straddles two
  lines misses every time.
\<close>

theorem cachesim_ref_again:
  assumes "cache_ok c" and "ref_fits c (a, sz)" and "cachesim_ref_is_miss c a sz = Inr (m, c')"
  shows "\<exists>c''. cachesim_ref_is_miss c' a sz =
    Inr (block_of c a \<noteq> block_of c (a + ucast sz - 1) \<and> c2_sets c = 1 \<and> c2_assoc c = 1, c'')"
proof -
  let ?b1 = "block_of c a" and ?b2 = "block_of c (a + ucast sz - 1)" and ?n = "nat (c2_sets c)"
  have c': "cache_set c' = snd (lru_ref ?n ?b1 ?b2 (cache_set c))" "cache_ok c'"
    "c' = c\<lparr>c2_tags := c2_tags c'\<rparr>"
    using ref_refines [OF assms(1,2)] assms(3) by auto
  note same = tags_upd_same [OF c'(3)]
  obtain c'' where again: "cachesim_ref_is_miss c' a sz = Inr (fst (lru_ref ?n ?b1 ?b2 (cache_set c')), c'')"
    using ref_refines [OF c'(2), of a sz] assms(2) unfolding same by metis
  from assms(1) obtain k n where k: "?n = 2 ^ k" "c2_assoc c = int n" "0 < n" by (rule cache_okE)
  have s1: "unat ?b1 mod ?n < ?n" using k by simp
  show ?thesis
  proof (cases "?b1 = ?b2")
    case True
    then show ?thesis
      using again by (simp add: c'(1) lru_ref_def Let_def case_prod_beta lru_block_simps)
  next
    case False
    then have b2: "?b2 = ?b1 + 1" using ref_two_blocks [OF assms(1,2)] by auto
    have "unat ?b1 mod ?n = unat ?b2 mod ?n \<longleftrightarrow> ?n = 1"
      unfolding k(1) b2
      using same_set_adjacent [OF block_succ [OF assms(1), of a], of k] by (cases k) auto
    from lru_ref_again [OF k(3) refl refl _ False this, of "cache_set c"]
    show ?thesis
      using again length_cache_set [OF assms(1) s1] k(2) False by (simp add: c'(1) nat_eq_iff)
  qed
qed

theorem cachesim_ref_again_witness:
  "\<exists>c m c' c''. cachesim_initcache (mk_cache 64 1 64) = Inr c \<and> cachesim_ref_is_miss c 60 8 = Inr (m, c') \<and>
     cachesim_ref_is_miss c' 60 8 = Inr (True, c'')"
proof -
  obtain c where c: "cachesim_initcache (mk_cache 64 1 64) = Inr c" "cache_ok c" "c2_assoc c = 1"
    "c2_line_size c = 64" "c2_sets c = 1" "2 ^ nat (c2_line_size_bits c) = (64::int)"
    using initcache_valid [OF one_line_cache] by (auto simp: mk_cache_def)
  have "nat (c2_line_size_bits c) = 6"
    using c(6) power_inject_exp [of "2::int" "nat (c2_line_size_bits c)" 6] by simp
  then have b: "block_of c 60 \<noteq> block_of c (60 + ucast (8 :: UChar) - 1)"
    by (simp add: block_of_def drop_bit_eq_div)
  have f: "ref_fits c (60, 8)" using c(4) by (simp add: ref_fits_def)
  obtain m c' where m: "cachesim_ref_is_miss c 60 8 = Inr (m, c')" using ref_total [OF c(2) f] by metis
  show ?thesis using cachesim_ref_again [OF c(2) f m] m c(1,3,5) b by auto
qed

text \<open>
  C29: the special case chosen at instrumentation time is safe: whenever \<open>cachesim_is_IrNoX\<close>
  holds, the shortcut \<open>cachesim_I1_doref_NoX\<close> does what the general routine does, on every state
  and for every counter value, faults included.
\<close>

theorem cachesim_NoX_eq_Gen:
  assumes "cachesim_is_IrNoX st a sz"
  shows "cachesim_I1_doref_NoX a sz st m1 mL = cachesim_I1_doref_Gen a sz st m1 mL"
proof -
  have e: "c2_line_size_bits (sim_I1 st) = c2_line_size_bits (sim_LL st)"
    "block_of (sim_I1 st) a = block_of (sim_I1 st) (a + ucast sz - 1)"
    using assms by (simp_all add: cachesim_is_IrNoX_def Let_def split: if_splits)
  then have "block_of (sim_LL st) = block_of (sim_I1 st)" by (simp add: block_of_def fun_eq_iff)
  then have "cachesim_ref_is_miss (sim_I1 st) a sz = touch_block (sim_I1 st) (block_of (sim_I1 st) a)"
    "cachesim_ref_is_miss (sim_LL st) a sz = touch_block (sim_LL st) (block_of (sim_I1 st) a)"
    using e(2) by (simp_all add: cachesim_ref_is_miss_def touch_block_def Let_def)
  then show ?thesis
    by (cases "touch_block (sim_I1 st) (block_of (sim_I1 st) a)")
      (auto simp: cachesim_I1_doref_NoX_def cachesim_I1_doref_Gen_def touch_block_def Let_def)
qed

theorem cachesim_NoX_eq_Gen_witness:
  "\<exists>c st. cachesim_initcache (mk_cache 64 1 64) = Inr c \<and> st = \<lparr>sim_I1 = c, sim_D1 = c, sim_LL = c\<rparr> \<and>
     cachesim_is_IrNoX st 256 4 \<and>
     cachesim_I1_doref_NoX 256 4 st 0 0 = cachesim_I1_doref_Gen 256 4 st 0 0"
proof -
  obtain c where c: "cachesim_initcache (mk_cache 64 1 64) = Inr c"
    "2 ^ nat (c2_line_size_bits c) = (64::int)"
    using initcache_valid [OF one_line_cache] by (auto simp: mk_cache_def)
  have "nat (c2_line_size_bits c) = 6"
    using c(2) power_inject_exp [of "2::int" "nat (c2_line_size_bits c)" 6] by simp
  then have "cachesim_is_IrNoX \<lparr>sim_I1 = c, sim_D1 = c, sim_LL = c\<rparr> 256 4"
    by (simp add: cachesim_is_IrNoX_def block_of_def drop_bit_eq_div)
  with cachesim_NoX_eq_Gen [OF this, of 0 0] show ?thesis using c(1) by blast
qed

text \<open>
  on a cache that was just initialised the first reference to a block is a miss, except for
  block 0, the value the tags are initialised with: it hits although it was never loaded.
\<close>

theorem cachesim_cold_reference:
  assumes "Int_fields config" and "valid_cache config" and "cachesim_initcache config = Inr c"
  shows "\<exists>c'. touch_block c b = Inr (b \<noteq> 0, c')"
proof -
  have c: "cache_ok c" "set (c2_tags c) = {0}"
    using initcache_valid [OF assms(1,2)] assms(3) by auto
  have a: "0 < c2_assoc c" using c(1) by (rule cache_okE) simp
  have s: "unat b mod nat (c2_sets c) < nat (c2_sets c)" using set_of_block_ok(2) [OF c(1)] .
  obtain c' where "touch_block c b = Inr (fst (lru_block (nat (c2_sets c)) b (cache_set c)), c')"
    using touch_block_refines [OF c(1)] by metis
  then show ?thesis
    using initcache_set [OF c s] a by (auto simp: lru_block_simps)
qed

theorem cachesim_cold_reference_witness:
  "\<exists>c c'. cachesim_initcache (mk_cache 64 1 64) = Inr c \<and> touch_block c 0 = Inr (False, c')"
proof -
  obtain c where c: "cachesim_initcache (mk_cache 64 1 64) = Inr c"
    using initcache_valid [OF one_line_cache] by auto
  show ?thesis using cachesim_cold_reference [OF one_line_cache c, of 0] c by auto
qed

end
