(* ===== verification/BranchPred.thy ===== *)
theory BranchPred
  imports CacheArch
begin

text \<open>
  The branch predictors of \<open>valgrind/cachegrind/cg_branchpred.c\<close>: an array of two bit saturating
  counters indexed by seven bits of global history and seven bits of the branch address, and a
  table of the last targets of indirect branches. The assertions of the source are branches of
  the model. The properties are that no assertion fails, what a prediction is, and that both
  predictors learn a branch that behaves in one way.
\<close>

section \<open>State and operations\<close>

fun N_IADDR_LO_ZERO_BITS :: "VGA_arch \<Rightarrow> nat" where
  "N_IADDR_LO_ZERO_BITS VGA_ppc32 = 2"
| "N_IADDR_LO_ZERO_BITS VGA_ppc64be = 2"
| "N_IADDR_LO_ZERO_BITS VGA_ppc64le = 2"
| "N_IADDR_LO_ZERO_BITS VGA_mips32 = 2"
| "N_IADDR_LO_ZERO_BITS VGA_mips64 = 2"
| "N_IADDR_LO_ZERO_BITS VGA_nanomips = 2"
| "N_IADDR_LO_ZERO_BITS VGA_arm64 = 2"
| "N_IADDR_LO_ZERO_BITS VGA_x86 = 0"
| "N_IADDR_LO_ZERO_BITS VGA_amd64 = 0"
| "N_IADDR_LO_ZERO_BITS VGA_s390x = 1"
| "N_IADDR_LO_ZERO_BITS VGA_arm = 1"

definition N_HIST_BITS :: nat where "N_HIST_BITS = 7"

definition N_IADD_BITS :: nat where "N_IADD_BITS = 7"

definition N_BITS :: nat where "N_BITS = N_HIST_BITS + N_IADD_BITS"

definition N_COUNTERS :: nat where "N_COUNTERS = 2 ^ N_BITS"

definition N_BTAC_BITS :: nat where "N_BTAC_BITS = 9"

definition N_BTAC :: nat where "N_BTAC = 2 ^ N_BTAC_BITS"

record branchpred =
  shift_register :: UWord
  counters :: "UChar list"
  btac :: "Addr list"

definition branchpred_init :: branchpred where
  "branchpred_init =
     \<lparr>shift_register = 0, counters = replicate N_COUNTERS 0, btac = replicate N_BTAC 0\<rparr>"

definition cond_index :: "VGA_arch \<Rightarrow> Addr \<Rightarrow> UWord \<Rightarrow> UWord cres" where
  "cond_index arch instr_addr sr =
     (let hist_mask = push_bit N_HIST_BITS 1 - 1;
          iadd_mask = push_bit N_IADD_BITS 1 - 1;
          hist_bits = sr AND hist_mask;
          iadd_bits = drop_bit (N_IADDR_LO_ZERO_BITS arch) instr_addr AND iadd_mask
      in cassert (hist_bits \<le> hist_mask) (
         cassert (iadd_bits \<le> iadd_mask) (
         let indx = push_bit N_IADD_BITS hist_bits OR iadd_bits in
         cassert (unat indx < N_COUNTERS) (Inr indx))))"

definition counter_update :: "bool \<Rightarrow> UChar \<Rightarrow> UChar" where
  "counter_update actually_taken n =
     (if actually_taken then (if n < 3 then n + 1 else n) else (if n > 0 then n - 1 else n))"

definition do_cond_branch_predict ::
  "VGA_arch \<Rightarrow> Addr \<Rightarrow> int \<Rightarrow> branchpred \<Rightarrow> (ULong \<times> branchpred) cres" where
  "do_cond_branch_predict arch instr_addr takenW st =
     cbind (cond_index arch instr_addr (shift_register st)) (\<lambda>indx.
     cassert (takenW \<le> 1) (
     if length (counters st) \<le> unat indx then Inl Out_of_bounds else
     let predicted_taken = 2 \<le> counters st ! unat indx;
         actually_taken = 0 < takenW;
         mispredict = (actually_taken \<and> \<not> predicted_taken) \<or> (\<not> actually_taken \<and> predicted_taken);
         sr = push_bit 1 (shift_register st) OR (if actually_taken then 1 else 0);
         n = counter_update actually_taken (counters st ! unat indx)
     in cassert (n \<le> 3)
          (Inr (if mispredict then 1 else 0,
                st\<lparr>shift_register := sr, counters := (counters st)[unat indx := n]\<rparr>))))"

definition btac_index :: "VGA_arch \<Rightarrow> Addr \<Rightarrow> UWord" where
  "btac_index arch instr_addr =
     drop_bit (N_IADDR_LO_ZERO_BITS arch) instr_addr AND (push_bit N_BTAC_BITS 1 - 1)"

definition do_ind_branch_predict ::
  "VGA_arch \<Rightarrow> Addr \<Rightarrow> Addr \<Rightarrow> branchpred \<Rightarrow> (ULong \<times> branchpred) cres" where
  "do_ind_branch_predict arch instr_addr actual st =
     (let indx = btac_index arch instr_addr in
      cassert (unat indx < N_BTAC) (
      if length (btac st) \<le> unat indx then Inl Out_of_bounds else
      let mispredict = btac st ! unat indx \<noteq> actual in
      Inr (if mispredict then 1 else 0, st\<lparr>btac := (btac st)[unat indx := actual]\<rparr>)))"

section \<open>Invariant\<close>

definition bp_ok :: "branchpred \<Rightarrow> bool" where
  "bp_ok st \<longleftrightarrow> length (counters st) = N_COUNTERS \<and> list_all (\<lambda>n. n \<le> 3) (counters st) \<and>
     length (btac st) = N_BTAC"

text \<open>The same branch executed again and again.\<close>

fun cond_repeat :: "VGA_arch \<Rightarrow> Addr \<Rightarrow> int \<Rightarrow> nat \<Rightarrow> branchpred \<Rightarrow> branchpred cres" where
  "cond_repeat arch a takenW 0 st = Inr st"
| "cond_repeat arch a takenW (Suc n) st =
     cbind (cond_repeat arch a takenW n st) (\<lambda>st.
     cbind (do_cond_branch_predict arch a takenW st) (\<lambda>(_, st). Inr st))"

definition hist_index :: "VGA_arch \<Rightarrow> Addr \<Rightarrow> UWord \<Rightarrow> nat" where
  "hist_index arch a sr =
     unat (push_bit 7 (sr AND 127) OR (drop_bit (N_IADDR_LO_ZERO_BITS arch) a AND 127))"

text \<open>Repeating an outcome fills the history with it and drives the counter of the branch.\<close>

definition settled :: "VGA_arch \<Rightarrow> Addr \<Rightarrow> bool \<Rightarrow> nat \<Rightarrow> branchpred \<Rightarrow> bool" where
  "settled arch a t n st \<longleftrightarrow> bp_ok st \<and> (\<forall>k < min n 7. bit (shift_register st) k = t) \<and>
     (8 \<le> n \<longrightarrow> (let c = unat (counters st ! hist_index arch a (if t then 127 else 0)) in
        if t then min 2 (n - 7) \<le> c else c \<le> 3 - min 2 (n - 7)))"

lemmas bp_sizes = N_HIST_BITS_def N_IADD_BITS_def N_BITS_def N_COUNTERS_def N_BTAC_BITS_def N_BTAC_def

lemma bp_ok_init: "bp_ok branchpred_init"
  by (simp add: bp_ok_def branchpred_init_def list_all_iff)

lemma and_127: "(w :: 64 word) AND 127 = take_bit 7 w"
  by (simp add: take_bit_eq_mask mask_eq_exp_minus_1)

lemma and_511: "(w :: 64 word) AND 511 = take_bit 9 w"
  by (simp add: take_bit_eq_mask mask_eq_exp_minus_1)

lemma hist_index_lt: "hist_index arch a sr < 16384"
proof -
  let ?w = "push_bit 7 (take_bit 7 sr) OR take_bit 7 (drop_bit (N_IADDR_LO_ZERO_BITS arch) a)"
  have "?w = take_bit 14 ?w"
    by (rule bit_word_eqI) (auto simp: bit_simps)
  then have "unat ?w = unat (take_bit 14 ?w)" by (rule arg_cong)
  also have "\<dots> = take_bit 14 (unat ?w)" by (rule unsigned_take_bit_eq)
  finally have "unat ?w < 2 ^ 14" using take_bit_nat_less_exp [of 14 "unat ?w"] by simp
  then show ?thesis by (simp add: hist_index_def and_127)
qed

lemma cond_index_ok: "cond_index arch a sr = Inr (word_of_nat (hist_index arch a sr))"
  using hist_index_lt [of arch a sr]
  by (simp add: cond_index_def bp_sizes Let_def hist_index_def word_and_le1 push_bit_eq_mult)

lemma counter_update_le: "n \<le> 3 \<Longrightarrow> counter_update t n \<le> 3"
  by (auto simp: counter_update_def word_le_nat_alt word_less_nat_alt unat_word_ariths
      unat_sub_if' split: if_splits)

lemma unat_counter_update:
  assumes "n \<le> 3"
  shows "unat (counter_update t n) = (if t then min 3 (unat n + 1) else unat n - 1)"
proof -
  have "unat n \<le> 3" using assms by (simp add: word_le_nat_alt)
  then show ?thesis
    by (auto simp: counter_update_def word_less_nat_alt unat_word_ariths unat_sub_if')
qed

lemma bit_history:
  assumes "k < 64"
  shows "bit (push_bit 1 (sr :: UWord) OR (if t then 1 else 0)) k = (case k of 0 \<Rightarrow> t | Suc k' \<Rightarrow> bit sr k')"
  unfolding bit_or_iff bit_push_bit_iff using assms by (cases k; cases t) (simp_all add: bit_1_iff)

text \<open>One execution of a conditional branch, with the array index as a natural number.\<close>

lemma do_cond_ok:
  fixes arch :: VGA_arch and a :: Addr
  assumes "bp_ok st" and "t \<le> 1"
  defines "i \<equiv> hist_index arch a (shift_register st)"
  shows "do_cond_branch_predict arch a t st =
      Inr (if (2 \<le> counters st ! i) \<noteq> (0 < t) then 1 else 0,
           st\<lparr>shift_register := push_bit 1 (shift_register st) OR (if 0 < t then 1 else 0),
              counters := (counters st)[i := counter_update (0 < t) (counters st ! i)]\<rparr>)"
    "i < length (counters st)" "counters st ! i \<le> 3"
proof -
  have lt: "i < 16384" using hist_index_lt by (simp add: i_def)
  have len: "length (counters st) = 16384" using assms(1) by (simp add: bp_ok_def bp_sizes)
  show il: "i < length (counters st)" using lt len by simp
  then show le: "counters st ! i \<le> 3" using assms(1) by (simp add: bp_ok_def list_all_length)
  have u: "unat (word_of_nat i :: UWord) = i" using lt by (simp add: unat_of_nat)
  show "do_cond_branch_predict arch a t st =
      Inr (if (2 \<le> counters st ! i) \<noteq> (0 < t) then 1 else 0,
           st\<lparr>shift_register := push_bit 1 (shift_register st) OR (if 0 < t then 1 else 0),
              counters := (counters st)[i := counter_update (0 < t) (counters st ! i)]\<rparr>)"
    using assms(2) il counter_update_le [OF le, of "0 < t"]
    unfolding do_cond_branch_predict_def cond_index_ok i_def [symmetric]
    by (simp add: u Let_def)
qed

lemma bp_ok_cond:
  assumes "bp_ok st" and "i < length (counters st)"
  shows "bp_ok (st\<lparr>shift_register := sr, counters := (counters st)[i := counter_update t (counters st ! i)]\<rparr>)"
  using assms counter_update_le [of "counters st ! i" t]
  by (auto simp: bp_ok_def list_all_length nth_list_update)

lemma do_ind_ok:
  fixes arch :: VGA_arch and a :: Addr
  assumes "bp_ok st"
  defines "i \<equiv> unat (btac_index arch a)"
  shows "do_ind_branch_predict arch a target st =
      Inr (if btac st ! i \<noteq> target then 1 else 0, st\<lparr>btac := (btac st)[i := target]\<rparr>)"
    "i < length (btac st)"
proof -
  have "i = unat (take_bit 9 (drop_bit (N_IADDR_LO_ZERO_BITS arch) a))"
    by (simp add: i_def btac_index_def bp_sizes push_bit_eq_mult and_511)
  also have "\<dots> = take_bit 9 (unat (drop_bit (N_IADDR_LO_ZERO_BITS arch) a))"
    by (rule unsigned_take_bit_eq)
  finally have lt: "i < 2 ^ 9" using take_bit_nat_less_exp [of 9] by simp
  have len: "length (btac st) = 512" using assms(1) by (simp add: bp_ok_def bp_sizes)
  show "i < length (btac st)" using lt len by simp
  then show "do_ind_branch_predict arch a target st =
      Inr (if btac st ! i \<noteq> target then 1 else 0, st\<lparr>btac := (btac st)[i := target]\<rparr>)"
    using lt by (simp add: do_ind_branch_predict_def i_def bp_sizes Let_def)
qed

lemma history_bits:
  assumes "\<forall>k < 7. bit (sr :: UWord) k = t"
  shows "hist_index arch a sr = hist_index arch a (if t then 127 else 0)"
proof -
  have m: "(127 :: UWord) = mask 7" by (simp add: mask_eq_exp_minus_1)
  have "take_bit 7 sr = take_bit 7 (if t then 127 else 0)"
    unfolding m using assms by (intro bit_word_eqI) (auto simp: bit_simps)
  then show ?thesis by (simp add: hist_index_def and_127)
qed

lemma settled_step:
  assumes "settled arch a (0 < t) n st" and "t \<le> 1"
  shows "\<exists>m st'. do_cond_branch_predict arch a t st = Inr (m, st') \<and> settled arch a (0 < t) (Suc n) st' \<and>
    (9 \<le> n \<longrightarrow> m = 0)"
proof -
  let ?i = "hist_index arch a (shift_register st)" and ?j = "hist_index arch a (if 0 < t then 127 else 0)"
  let ?st' = "st\<lparr>shift_register := push_bit 1 (shift_register st) OR (if 0 < t then 1 else 0),
              counters := (counters st)[?i := counter_update (0 < t) (counters st ! ?i)]\<rparr>"
  have ok: "bp_ok st" and h: "\<And>k. k < n \<Longrightarrow> k < 7 \<Longrightarrow> bit (shift_register st) k = (0 < t)"
    using assms(1) by (auto simp: settled_def)
  note d = do_cond_ok [OF ok assms(2), of arch a]
  have h': "\<forall>k < min (Suc n) 7. bit (shift_register ?st') k = (0 < t)"
  proof (intro allI impI)
    fix k
    assume k: "k < min (Suc n) 7"
    have "bit (shift_register ?st') k =
        bit (push_bit 1 (shift_register st) OR (if 0 < t then 1 else 0)) k" by simp
    also have "\<dots> = (case k of 0 \<Rightarrow> 0 < t | Suc k' \<Rightarrow> bit (shift_register st) k')"
      using k by (intro bit_history) simp
    also have "\<dots> = (0 < t)" using k h by (simp split: nat.split)
    finally show "bit (shift_register ?st') k = (0 < t)" .
  qed
  have ij: "?i = ?j" if "7 \<le> n"
    using that h by (intro history_bits) simp
  have c: "counters ?st' ! ?j = counter_update (0 < t) (counters st ! ?j)" if "7 \<le> n"
    using ij [OF that] d(2) by simp
  have c3: "counters st ! ?j \<le> 3" if "7 \<le> n" using ij [OF that] d(3) by simp
  have old: "8 \<le> n \<Longrightarrow> (if 0 < t then min 2 (n - 7) \<le> unat (counters st ! ?j)
      else unat (counters st ! ?j) \<le> 3 - min 2 (n - 7))"
    using assms(1) unfolding settled_def Let_def by blast
  have new: "if 0 < t then min 2 (n - 6) \<le> unat (counters ?st' ! ?j)
      else unat (counters ?st' ! ?j) \<le> 3 - min 2 (n - 6)" if "7 \<le> n"
  proof -
    have "unat (counters st ! ?j) \<le> 3" using c3 [OF that] by (simp add: word_le_nat_alt)
    then show ?thesis
      unfolding c [OF that] using unat_counter_update [OF c3 [OF that], of "0 < t"] old that
      by (cases "n = 7") (auto split: if_splits)
  qed
  have "settled arch a (0 < t) (Suc n) ?st'"
    unfolding settled_def Let_def
  proof (intro conjI impI)
    show "bp_ok ?st'" by (rule bp_ok_cond [OF ok d(2)])
    assume "8 \<le> Suc n"
    then have n: "7 \<le> n" "Suc n - 7 = n - 6" by simp_all
    show "if 0 < t then min 2 (Suc n - 7) \<le> unat (counters ?st' ! ?j)
        else unat (counters ?st' ! ?j) \<le> 3 - min 2 (Suc n - 7)"
      unfolding n(2) by (rule new [OF n(1)])
  qed (rule h')
  moreover have "2 \<le> counters st ! ?i \<longleftrightarrow> 0 < t" if "9 \<le> n"
    using assms(1) ij that by (auto simp: settled_def Let_def word_le_nat_alt split: if_splits)
  ultimately show ?thesis using d(1) by auto
qed

section \<open>Properties\<close>

text \<open>
  C27: on a well formed predictor a conditional branch with outcome 0 or 1 fails no assertion
  and leaves no array; it is counted as mispredicted exactly when the saturating counter chosen by
  history and address disagrees with the outcome, and the predictor stays well formed.
\<close>

theorem do_cond_branch_predict_ok:
  assumes "bp_ok st" and "takenW \<le> 1"
  shows "\<exists>st'. do_cond_branch_predict arch a takenW st =
      Inr (if (2 \<le> counters st ! hist_index arch a (shift_register st)) = (0 < takenW) then 0 else 1, st')
    \<and> bp_ok st'"
  using do_cond_ok [OF assms, of arch a] bp_ok_cond [OF assms(1)] by auto

theorem do_cond_branch_predict_ok_witness:
  "bp_ok branchpred_init \<and> (\<exists>st'. do_cond_branch_predict VGA_amd64 4096 1 branchpred_init = Inr (1, st') \<and> bp_ok st')"
proof -
  have "counters branchpred_init ! hist_index VGA_amd64 4096 (shift_register branchpred_init) = 0"
    using hist_index_lt [of VGA_amd64 4096] by (simp add: branchpred_init_def bp_sizes)
  then show ?thesis
    using do_cond_branch_predict_ok [OF bp_ok_init, of 1 VGA_amd64 4096] bp_ok_init by auto
qed

lemma settled_repeat:
  assumes "bp_ok st" and "t \<le> 1"
  shows "\<exists>st'. cond_repeat arch a t n st = Inr st' \<and> settled arch a (0 < t) n st'"
proof (induction n)
  case 0
  then show ?case using assms(1) by (simp add: settled_def)
next
  case (Suc n)
  then obtain st' where st': "cond_repeat arch a t n st = Inr st'" "settled arch a (0 < t) n st'" by blast
  from settled_step [OF st'(2) assms(2)] show ?case using st'(1) by auto
qed

text \<open>
  C28: the conditional predictor learns: whatever it holds, after a branch went the same way nine
  times in a row (seven to fill the history, two for its counter) it is predicted right.
\<close>

theorem cond_predictor_learns:
  assumes "bp_ok st" and "takenW \<le> 1" and "9 \<le> n"
  shows "\<exists>st' st''. cond_repeat arch a takenW n st = Inr st' \<and>
    do_cond_branch_predict arch a takenW st' = Inr (0, st'')"
proof -
  obtain st' where st': "cond_repeat arch a takenW n st = Inr st'" "settled arch a (0 < takenW) n st'"
    using settled_repeat [OF assms(1,2)] by blast
  show ?thesis using settled_step [OF st'(2) assms(2)] st'(1) assms(3) by auto
qed

theorem cond_predictor_learns_witness:
  "\<exists>st' st''. cond_repeat VGA_amd64 4096 1 9 branchpred_init = Inr st' \<and>
    do_cond_branch_predict VGA_amd64 4096 1 st' = Inr (0, st'')"
  using cond_predictor_learns [OF bp_ok_init, of 1 9 VGA_amd64 4096] by simp

text \<open>
  the indirect predictor fails no assertion; a branch is predicted right exactly when the
  last branch with the same table index went to the same target, so a branch repeated to one
  target is mispredicted at most once.
\<close>

theorem ind_predictor_last_target:
  assumes "bp_ok st"
  shows "\<exists>m st'. do_ind_branch_predict arch a target st = Inr (m, st') \<and> bp_ok st' \<and>
    (\<forall>a' target'. btac_index arch a' = btac_index arch a \<longrightarrow>
       (\<exists>st''. do_ind_branch_predict arch a' target' st' = Inr (if target' = target then 0 else 1, st'')))"
proof -
  let ?i = "unat (btac_index arch a)"
  let ?st' = "st\<lparr>btac := (btac st)[?i := target]\<rparr>"
  note i = do_ind_ok [OF assms, of arch a]
  have ok: "bp_ok ?st'" using assms by (simp add: bp_ok_def)
  show ?thesis
  proof (intro exI conjI allI impI)
    show "do_ind_branch_predict arch a target st = Inr (if btac st ! ?i \<noteq> target then 1 else 0, ?st')"
      by (rule i(1))
    fix a' target'
    assume "btac_index arch a' = btac_index arch a"
    then show "do_ind_branch_predict arch a' target' ?st' =
        Inr (if target' = target then 0 else 1, ?st'\<lparr>btac := (btac ?st')[?i := target']\<rparr>)"
      using do_ind_ok(1) [OF ok, of arch a' target'] i(2) by simp
  qed (rule ok)
qed

theorem ind_predictor_last_target_witness:
  "\<exists>m st' st''. do_ind_branch_predict VGA_amd64 4096 8192 branchpred_init = Inr (m, st') \<and>
     do_ind_branch_predict VGA_amd64 4096 8192 st' = Inr (0, st'')"
proof -
  obtain m st' where "do_ind_branch_predict VGA_amd64 4096 8192 branchpred_init = Inr (m, st')"
    "\<exists>st''. do_ind_branch_predict VGA_amd64 4096 8192 st' = Inr (if (8192 :: Addr) = 8192 then 0 else 1, st'')"
    using ind_predictor_last_target [OF bp_ok_init, of VGA_amd64 4096 8192] by blast
  then show ?thesis by auto
qed

end
