(* ===== verification/OSet.thy ===== *)
theory OSet
  imports Prelude
begin

text \<open>
  The ordered set of \<open>valgrind/coregrind/m_oset.c\<close>, an AVL tree with balance factors, in which
  the cache profiler keeps its counters and strings. A node is a value of \<open>avltree\<close>; the
  in-place rotations of the source are functions on it, and reading through a null pointer is
  \<open>Inl Null_deref\<close>. The comparison function and the key of an element are parameters, as they
  are in the source; the locale \<open>oset_order\<close> states what the source expects of them, and the
  lemmas proved in it say that insertion, lookup, removal and the iterators implement a sorted
  list without duplicates.

  Memory allocation and the magic numbers of the nodes are not modelled.
\<close>

section \<open>Trees\<close>

datatype 'e avltree = NULL | AvlNode "'e avltree" 'e int "'e avltree"

definition STACK_MAX :: nat where "STACK_MAX = 32"

fun avl_swl :: "'e avltree \<Rightarrow> 'e avltree cres" where
  "avl_swl (AvlNode al a ab (AvlNode bl b bb br)) = Inr (AvlNode (AvlNode al a ab bl) b bb br)"
| "avl_swl _ = Inl Null_deref"

fun avl_swr :: "'e avltree \<Rightarrow> 'e avltree cres" where
  "avl_swr (AvlNode (AvlNode bl b bb br) a ab ar) = Inr (AvlNode bl b bb (AvlNode br a ab ar))"
| "avl_swr _ = Inl Null_deref"

fun set_balance :: "int \<Rightarrow> 'e avltree \<Rightarrow> 'e avltree cres" where
  "set_balance x (AvlNode l e b r) = Inr (AvlNode l e x r)"
| "set_balance x NULL = Inl Null_deref"

fun get_balance :: "'e avltree \<Rightarrow> int cres" where
  "get_balance (AvlNode l e b r) = Inr b"
| "get_balance NULL = Inl Null_deref"

text \<open>Assignment to the balances of the root and of its two children.\<close>

fun set_balances :: "int option \<Rightarrow> int \<Rightarrow> int option \<Rightarrow> 'e avltree \<Rightarrow> 'e avltree cres" where
  "set_balances lb rootb rb (AvlNode l e b r) =
     cbind (case lb of None \<Rightarrow> Inr l | Some x \<Rightarrow> set_balance x l) (\<lambda>l.
     cbind (case rb of None \<Rightarrow> Inr r | Some x \<Rightarrow> set_balance x r) (\<lambda>r.
     Inr (AvlNode l e rootb r)))"
| "set_balances lb rootb rb NULL = Inl Null_deref"

fun avl_nasty :: "'e avltree \<Rightarrow> 'e avltree cres" where
  "avl_nasty (AvlNode l e b r) =
     (if b = - 1 then set_balances (Some 0) 0 (Some 1) (AvlNode l e b r)
      else if b = 1 then set_balances (Some (- 1)) 0 (Some 0) (AvlNode l e b r)
      else if b = 0 then set_balances (Some 0) 0 (Some 0) (AvlNode l e b r)
      else set_balances None 0 None (AvlNode l e b r))"
| "avl_nasty NULL = Inl Null_deref"

section \<open>Insertion\<close>

text \<open>The code that follows a recursive insertion that has grown the left or the right subtree.\<close>

definition insert_grown_left :: "'e avltree \<Rightarrow> 'e \<Rightarrow> int \<Rightarrow> 'e avltree \<Rightarrow> ('e avltree \<times> bool) cres" where
  "insert_grown_left l e b r =
     (if b = 1 then Inr (AvlNode l e (b - 1) r, False)
      else if b = 0 then Inr (AvlNode l e (b - 1) r, True)
      else cbind (get_balance l) (\<lambda>lb.
        if lb < 0 then
          cbind (avl_swr (AvlNode l e (b - 1) r)) (\<lambda>t.
          cbind (set_balances None 0 (Some 0) t) (\<lambda>t. Inr (t, False)))
        else
          cbind (avl_swl l) (\<lambda>l.
          cbind (avl_swr (AvlNode l e (b - 1) r)) (\<lambda>t.
          cbind (avl_nasty t) (\<lambda>t. Inr (t, False))))))"

definition insert_grown_right :: "'e avltree \<Rightarrow> 'e \<Rightarrow> int \<Rightarrow> 'e avltree \<Rightarrow> ('e avltree \<times> bool) cres" where
  "insert_grown_right l e b r =
     (if b = - 1 then Inr (AvlNode l e (b + 1) r, False)
      else if b = 0 then Inr (AvlNode l e (b + 1) r, True)
      else cbind (get_balance r) (\<lambda>rb.
        if rb > 0 then
          cbind (avl_swl (AvlNode l e (b + 1) r)) (\<lambda>t.
          cbind (set_balances (Some 0) 0 None t) (\<lambda>t. Inr (t, False)))
        else
          cbind (avl_swr r) (\<lambda>r.
          cbind (avl_swl (AvlNode l e (b + 1) r)) (\<lambda>t.
          cbind (avl_nasty t) (\<lambda>t. Inr (t, False))))))"

text \<open>
  When the recursive call reports growth, the source keeps the pointer to the subtree it had: the
  root of a subtree that has grown is the node it was before (lemma \<open>insert_ok\<close>).
\<close>

fun avl_insert :: "('k \<Rightarrow> 'e \<Rightarrow> int) \<Rightarrow> ('e \<Rightarrow> 'k) \<Rightarrow> 'e \<Rightarrow> 'e avltree \<Rightarrow> ('e avltree \<times> bool) cres" where
  "avl_insert cmp key n NULL = Inl Null_deref"
| "avl_insert cmp key n (AvlNode l e b r) =
     (let cmpres = cmp (key n) e in
      if cmpres < 0 then
        (if l \<noteq> NULL then
           cbind (avl_insert cmp key n l) (\<lambda>(l, grown).
             if grown then insert_grown_left l e b r
             else Inr (AvlNode l e b r, False))
         else Inr (AvlNode (AvlNode NULL n 0 NULL) e (b - 1) r, b = 0))
      else if cmpres > 0 then
        (if r \<noteq> NULL then
           cbind (avl_insert cmp key n r) (\<lambda>(r, grown).
             if grown then insert_grown_right l e b r
             else Inr (AvlNode l e b r, False))
         else Inr (AvlNode l e (b + 1) (AvlNode NULL n 0 NULL), b = 0))
      else Inl Assert_fail)"

section \<open>Lookup\<close>

fun avl_lookup :: "('k \<Rightarrow> 'e \<Rightarrow> int) \<Rightarrow> 'k \<Rightarrow> 'e avltree \<Rightarrow> 'e option" where
  "avl_lookup cmp k NULL = None"
| "avl_lookup cmp k (AvlNode l e b r) =
     (let cmpres = cmp k e in
      if cmpres < 0 then avl_lookup cmp k l
      else if cmpres > 0 then avl_lookup cmp k r
      else Some e)"

section \<open>Removal\<close>

text \<open>The code that follows a removal which has made the left or the right subtree shorter.\<close>

definition remove_shrunk_left :: "'e avltree \<Rightarrow> 'e \<Rightarrow> int \<Rightarrow> 'e avltree \<Rightarrow> ('e avltree \<times> bool) cres" where
  "remove_shrunk_left l e b r =
     (if b = - 1 then Inr (AvlNode l e (b + 1) r, True)
      else if b = 0 then Inr (AvlNode l e (b + 1) r, False)
      else cbind (get_balance r) (\<lambda>rb.
        if rb = 0 then
          cbind (avl_swl (AvlNode l e (b + 1) r)) (\<lambda>t.
          cbind (set_balances (Some 1) (- 1) None t) (\<lambda>t. Inr (t, False)))
        else if rb = 1 then
          cbind (avl_swl (AvlNode l e (b + 1) r)) (\<lambda>t.
          cbind (set_balances (Some 0) 0 None t) (\<lambda>t. Inr (t, True)))
        else
          cbind (avl_swr r) (\<lambda>r.
          cbind (avl_swl (AvlNode l e (b + 1) r)) (\<lambda>t.
          cbind (avl_nasty t) (\<lambda>t. Inr (t, True))))))"

definition remove_shrunk_right :: "'e avltree \<Rightarrow> 'e \<Rightarrow> int \<Rightarrow> 'e avltree \<Rightarrow> ('e avltree \<times> bool) cres" where
  "remove_shrunk_right l e b r =
     (if b = 1 then Inr (AvlNode l e (b - 1) r, True)
      else if b = 0 then Inr (AvlNode l e (b - 1) r, False)
      else cbind (get_balance l) (\<lambda>lb.
        if lb = 0 then
          cbind (avl_swr (AvlNode l e (b - 1) r)) (\<lambda>t.
          cbind (set_balances None 1 (Some (- 1)) t) (\<lambda>t. Inr (t, False)))
        else if lb = - 1 then
          cbind (avl_swr (AvlNode l e (b - 1) r)) (\<lambda>t.
          cbind (set_balances None 0 (Some 0) t) (\<lambda>t. Inr (t, True)))
        else
          cbind (avl_swl l) (\<lambda>l.
          cbind (avl_swr (AvlNode l e (b - 1) r)) (\<lambda>t.
          cbind (avl_nasty t) (\<lambda>t. Inr (t, True))))))"

text \<open>The loops \<open>while (n->right) n = n->right\<close> and \<open>while (n->left) n = n->left\<close>.\<close>

fun rightmost :: "'e avltree \<Rightarrow> 'e cres" where
  "rightmost NULL = Inl Null_deref"
| "rightmost (AvlNode l e b r) = (if r \<noteq> NULL then rightmost r else Inr e)"

fun leftmost :: "'e avltree \<Rightarrow> 'e cres" where
  "leftmost NULL = Inl Null_deref"
| "leftmost (AvlNode l e b r) = (if l \<noteq> NULL then leftmost l else Inr e)"

text \<open>The last part of \<open>avl_removeroot\<close>: the node \<open>n\<close> takes the place of the root.\<close>

fun replace_root :: "'e \<Rightarrow> 'e avltree \<times> bool \<Rightarrow> ('e avltree \<times> bool) cres" where
  "replace_root n (AvlNode l e b r, ch) = Inr (AvlNode l n b r, if b = 0 then ch else False)"
| "replace_root n (NULL, ch) = Inl Null_deref"

text \<open>
  \<open>avl_removeroot\<close> calls \<open>avl_remove\<close> on the same tree. Its third branch asserts that the node
  is the root, which the inner node is not; the call is written out here, so that the recursion
  is on subtrees.
\<close>

function (sequential) avl_remove ::
    "('k \<Rightarrow> 'e \<Rightarrow> int) \<Rightarrow> ('e \<Rightarrow> 'k) \<Rightarrow> 'e \<Rightarrow> 'e avltree \<Rightarrow> ('e avltree \<times> bool) cres"
  and avl_removeroot ::
    "('k \<Rightarrow> 'e \<Rightarrow> int) \<Rightarrow> ('e \<Rightarrow> 'k) \<Rightarrow> 'e avltree \<Rightarrow> ('e avltree \<times> bool) cres" where
  "avl_remove cmp key n NULL = Inl Null_deref"
| "avl_remove cmp key n (AvlNode l e b r) =
     (let cmpres = cmp (key n) e in
      if cmpres < 0 then
        cassert (l \<noteq> NULL) (
        cbind (avl_remove cmp key n l) (\<lambda>(l, ch).
          if ch then remove_shrunk_left l e b r else Inr (AvlNode l e b r, False)))
      else if cmpres > 0 then
        cassert (r \<noteq> NULL) (
        cbind (avl_remove cmp key n r) (\<lambda>(r, ch).
          if ch then remove_shrunk_right l e b r else Inr (AvlNode l e b r, False)))
      else cassert (n = e) (avl_removeroot cmp key (AvlNode l e b r)))"
| "avl_removeroot cmp key NULL = Inl Null_deref"
| "avl_removeroot cmp key (AvlNode l e b r) =
     (if l = NULL then Inr (r, True)
      else if r = NULL then Inr (l, True)
      else
        cbind (if b < 0 then rightmost l else leftmost r) (\<lambda>n.
        cbind
          (let cmpres = cmp (key n) e in
           if cmpres < 0 then
             cassert (l \<noteq> NULL) (
             cbind (avl_remove cmp key n l) (\<lambda>(l, ch).
               if ch then remove_shrunk_left l e b r else Inr (AvlNode l e b r, False)))
           else if cmpres > 0 then
             cassert (r \<noteq> NULL) (
             cbind (avl_remove cmp key n r) (\<lambda>(r, ch).
               if ch then remove_shrunk_right l e b r else Inr (AvlNode l e b r, False)))
           else Inl Assert_fail)
          (replace_root n)))"
  by pat_completeness auto
termination
  by (relation "measure (\<lambda>x. case x of Inl (_, _, _, t) \<Rightarrow> 2 * size t + 1 | Inr (_, _, t) \<Rightarrow> 2 * size t)") auto

section \<open>The set and its iterator\<close>

text \<open>The iterator stack: a node and the number of the visit that comes next, the top first.\<close>

type_synonym 'e iter_stack = "('e avltree \<times> int) list"

record 'e OSet =
  nElems :: UInt
  root :: "'e avltree"
  iter :: "'e iter_stack"

definition stackPush :: "'e avltree \<Rightarrow> int \<Rightarrow> 'e iter_stack \<Rightarrow> 'e iter_stack cres" where
  "stackPush n i stack =
     cassert (length stack < STACK_MAX) (cassert (1 \<le> i \<and> i \<le> 3) (Inr ((n, i) # stack)))"

definition stackPop :: "'e iter_stack \<Rightarrow> (('e avltree \<times> int) option \<times> 'e iter_stack) cres" where
  "stackPop stack =
     cassert (length stack \<le> STACK_MAX)
       (case stack of
          [] \<Rightarrow> Inr (None, [])
        | (n, i) # stack \<Rightarrow> cassert (1 \<le> i \<and> i \<le> 3) (Inr (Some (n, i), stack)))"

definition OSetGen_Create :: "'e OSet" where
  "OSetGen_Create = \<lparr>nElems = 0, root = NULL, iter = []\<rparr>"

definition OSetGen_EmptyClone :: "'e OSet \<Rightarrow> 'e OSet" where
  "OSetGen_EmptyClone os = \<lparr>nElems = 0, root = NULL, iter = []\<rparr>"

definition OSetGen_Insert :: "('k \<Rightarrow> 'e \<Rightarrow> int) \<Rightarrow> ('e \<Rightarrow> 'k) \<Rightarrow> 'e OSet \<Rightarrow> 'e \<Rightarrow> 'e OSet cres" where
  "OSetGen_Insert cmp key t e =
     cbind (if root t = NULL then Inr (AvlNode NULL e 0 NULL)
            else cbind (avl_insert cmp key e (root t)) (\<lambda>(n, _). Inr n)) (\<lambda>n.
     Inr (t\<lparr>root := n, nElems := nElems t + 1, iter := []\<rparr>))"

definition OSetGen_Lookup :: "('k \<Rightarrow> 'e \<Rightarrow> int) \<Rightarrow> 'e OSet \<Rightarrow> 'k \<Rightarrow> 'e option" where
  "OSetGen_Lookup cmp t k = (if root t = NULL then None else avl_lookup cmp k (root t))"

definition OSetGen_LookupWithCmp :: "'e OSet \<Rightarrow> 'k \<Rightarrow> ('k \<Rightarrow> 'e \<Rightarrow> int) \<Rightarrow> 'e option" where
  "OSetGen_LookupWithCmp t k cmp = OSetGen_Lookup cmp t k"

definition OSetGen_Contains :: "('k \<Rightarrow> 'e \<Rightarrow> int) \<Rightarrow> 'e OSet \<Rightarrow> 'k \<Rightarrow> bool" where
  "OSetGen_Contains cmp t k \<longleftrightarrow> OSetGen_Lookup cmp t k \<noteq> None"

definition OSetGen_Remove ::
  "('k \<Rightarrow> 'e \<Rightarrow> int) \<Rightarrow> ('e \<Rightarrow> 'k) \<Rightarrow> 'e OSet \<Rightarrow> 'k \<Rightarrow> ('e option \<times> 'e OSet) cres" where
  "OSetGen_Remove cmp key t k =
     (if root t = NULL then Inr (None, t)
      else case avl_lookup cmp k (root t) of
        None \<Rightarrow> Inr (None, t)
      | Some n \<Rightarrow> cbind (avl_remove cmp key n (root t)) (\<lambda>(n', _).
          Inr (Some n, t\<lparr>root := n', nElems := nElems t - 1, iter := []\<rparr>)))"

definition OSetGen_Size :: "'e OSet \<Rightarrow> UInt" where
  "OSetGen_Size t = nElems t"

definition OSetGen_ResetIter :: "'e OSet \<Rightarrow> 'e OSet cres" where
  "OSetGen_ResetIter t =
     (if root t \<noteq> NULL then cbind (stackPush (root t) 1 []) (\<lambda>stack. Inr (t\<lparr>iter := stack\<rparr>))
      else Inr (t\<lparr>iter := []\<rparr>))"

text \<open>The label \<open>case_1\<close>: push the nodes of the left spine.\<close>

fun push_left_spine :: "'e avltree \<Rightarrow> 'e iter_stack \<Rightarrow> 'e iter_stack cres" where
  "push_left_spine NULL stack = Inr stack"
| "push_left_spine (AvlNode l e b r) stack = cbind (stackPush (AvlNode l e b r) 2 stack) (push_left_spine l)"

text \<open>The work left on a stack, which the loop of \<open>OSetGen_Next\<close> decreases.\<close>

fun nodes :: "'e avltree \<Rightarrow> nat" where
  "nodes NULL = 0"
| "nodes (AvlNode l e b r) = Suc (nodes l + nodes r)"

fun right_nodes :: "'e avltree \<Rightarrow> nat" where
  "right_nodes NULL = 0"
| "right_nodes (AvlNode l e b r) = nodes r"

definition visit_weight :: "'e avltree \<times> int \<Rightarrow> nat" where
  "visit_weight = (\<lambda>(n, i). if i = 1 then 3 * nodes n + 1 else if i = 2 then 3 * right_nodes n + 2
     else 3 * right_nodes n + 1)"

lemma push_left_spine_weight:
  "push_left_spine t stack = Inr stack' \<Longrightarrow>
   sum_list (map visit_weight stack') \<le> 3 * nodes t + sum_list (map visit_weight stack)"
proof (induction t stack arbitrary: stack' rule: push_left_spine.induct)
  case (2 l e b r stack)
  let ?stack = "(AvlNode l e b r, 2) # stack"
  have "push_left_spine l ?stack = Inr stack'"
    using "2.prems" by (auto simp: cbind_eq_Inr stackPush_def cassert_eq_Inr)
  then have "sum_list (map visit_weight stack') \<le> 3 * nodes l + sum_list (map visit_weight ?stack)"
    using "2.IH" by blast
  then show ?case by (simp add: visit_weight_def)
qed simp

lemma stackPop_Some:
  "stackPop stack = Inr (Some (n, i), stack') \<Longrightarrow> stack = (n, i) # stack' \<and> 1 \<le> i \<and> i \<le> 3"
  by (auto simp: stackPop_def cassert_eq_Inr split: list.splits)

lemma iter_next_decreases:
  assumes "stackPop stack = Inr (Some (AvlNode l e b r, i), rest)" and "push_left_spine t rest = Inr stack'"
    and "i = 1 \<and> t = AvlNode l e b r \<or> i \<noteq> 1 \<and> i \<noteq> 2 \<and> t = r"
  shows "sum_list (map visit_weight stack') < sum_list (map visit_weight stack)"
  using stackPop_Some [OF assms(1)] push_left_spine_weight [OF assms(2)] assms(3)
  by (auto simp: visit_weight_def)

function (sequential) iter_next :: "'e iter_stack \<Rightarrow> ('e option \<times> 'e iter_stack) cres" where
  "iter_next stack =
     (case stackPop stack of
        Inl err \<Rightarrow> Inl err
      | Inr (None, stack) \<Rightarrow> Inr (None, stack)
      | Inr (Some (NULL, i), stack) \<Rightarrow> Inl Null_deref
      | Inr (Some (AvlNode l e b r, i), stack) \<Rightarrow>
          (if i = 1 then
             (case push_left_spine (AvlNode l e b r) stack of
                Inl err \<Rightarrow> Inl err | Inr stack \<Rightarrow> iter_next stack)
           else if i = 2 then
             cbind (stackPush (AvlNode l e b r) 3 stack) (\<lambda>stack. Inr (Some e, stack))
           else
             (case push_left_spine r stack of
                Inl err \<Rightarrow> Inl err | Inr stack \<Rightarrow> iter_next stack)))"
  by pat_completeness auto
termination
proof (relation "measure (\<lambda>stack. sum_list (map visit_weight stack))", goal_cases)
  case (2 stack q x rest x2 n i l e b r stack')
  then have "stackPop stack = Inr (Some (AvlNode l e b r, i), rest)" by (simp only:)
  then show ?case unfolding in_measure by (rule iter_next_decreases [OF _ 2(7)]) (simp add: 2(6))
next
  case (3 stack q x rest x2 n i l e b r stack')
  then have "stackPop stack = Inr (Some (AvlNode l e b r, i), rest)" by (simp only:)
  then show ?case unfolding in_measure by (rule iter_next_decreases [OF _ 3(8)]) (simp add: 3(6,7))
qed simp

declare iter_next.simps [simp del]

definition OSetGen_Next :: "'e OSet \<Rightarrow> ('e option \<times> 'e OSet) cres" where
  "OSetGen_Next t = cbind (iter_next (iter t)) (\<lambda>(e, stack). Inr (e, t\<lparr>iter := stack\<rparr>))"

text \<open>
  The post-order loop of \<open>OSetGen_Destroy\<close>; \<open>freed\<close> is the nodes released so far. Its second
  argument in the wrapper is the number of users left of the pool allocator, if there is one.
\<close>

definition free_weight :: "'e avltree \<times> int \<Rightarrow> nat" where
  "free_weight = (\<lambda>(n, i). if i = 1 then 3 * nodes n else if i = 2 then 3 * right_nodes n + 2 else 1)"

definition push_child :: "'e avltree \<Rightarrow> 'e iter_stack \<Rightarrow> 'e iter_stack cres" where
  "push_child n stack = (if n \<noteq> NULL then stackPush n 1 stack else Inr stack)"

lemma push_child_weight:
  "push_child n stack = Inr stack' \<Longrightarrow>
   sum_list (map free_weight stack') = 3 * nodes n + sum_list (map free_weight stack)"
  by (cases n) (auto simp: push_child_def stackPush_def cassert_eq_Inr free_weight_def)

function (sequential) destroy_loop :: "'e iter_stack \<Rightarrow> 'e list \<Rightarrow> 'e list cres" where
  "destroy_loop stack freed =
     (case stackPop stack of
        Inl err \<Rightarrow> Inl err
      | Inr (None, stack) \<Rightarrow> Inr freed
      | Inr (Some (NULL, i), stack) \<Rightarrow> Inl Null_deref
      | Inr (Some (AvlNode l e b r, i), stack) \<Rightarrow>
          (if i = 1 then
             (case cbind (stackPush (AvlNode l e b r) 2 stack) (push_child l) of
                Inl err \<Rightarrow> Inl err | Inr stack \<Rightarrow> destroy_loop stack freed)
           else if i = 2 then
             (case cbind (stackPush (AvlNode l e b r) 3 stack) (push_child r) of
                Inl err \<Rightarrow> Inl err | Inr stack \<Rightarrow> destroy_loop stack freed)
           else destroy_loop stack (freed @ [e])))"
  by pat_completeness auto

lemma destroy_decreases:
  assumes "stackPop stack = Inr (Some (AvlNode l e b r, i), rest)"
    and "i = 1 \<and> cbind (stackPush (AvlNode l e b r) 2 rest) (push_child l) = Inr stack' \<or>
      i = 2 \<and> cbind (stackPush (AvlNode l e b r) 3 rest) (push_child r) = Inr stack' \<or>
      i \<noteq> 1 \<and> i \<noteq> 2 \<and> stack' = rest"
  shows "sum_list (map free_weight stack') < sum_list (map free_weight stack)"
  using stackPop_Some [OF assms(1)] assms(2)
  by (auto simp: cbind_eq_Inr stackPush_def cassert_eq_Inr free_weight_def dest!: push_child_weight)

termination destroy_loop
proof (relation "measure (\<lambda>(stack, _). sum_list (map free_weight stack))", goal_cases)
  case (2 stack freed q x rest x2 n i l e b r stack')
  then have "stackPop stack = Inr (Some (AvlNode l e b r, i), rest)" by (simp only:)
  then show ?case unfolding in_measure prod.case
    by (rule destroy_decreases) (simp add: 2(6) 2(7) [simplified])
next
  case (3 stack freed q x rest x2 n i l e b r stack')
  then have "stackPop stack = Inr (Some (AvlNode l e b r, i), rest)" by (simp only:)
  then show ?case unfolding in_measure prod.case
    by (rule destroy_decreases) (simp add: 3(6,7) 3(8) [simplified])
next
  case (4 stack freed q x rest x2 n i l e b r)
  then have "stackPop stack = Inr (Some (AvlNode l e b r, i), rest)" by (simp only:)
  then show ?case unfolding in_measure prod.case
    by (rule destroy_decreases) (simp add: 4(6,7))
qed simp

declare destroy_loop.simps [simp del]

definition OSetGen_Destroy :: "'e OSet \<Rightarrow> UWord option \<Rightarrow> 'e list cres" where
  "OSetGen_Destroy t pool_users =
     (if (case pool_users of None \<Rightarrow> True | Some users \<Rightarrow> 0 < users) then
        cbind (push_child (root t) []) (\<lambda>stack.
        cbind (destroy_loop stack []) (\<lambda>freed.
        cassert (of_nat (length freed) = (ucast (nElems t) :: UWord)) (Inr freed)))
      else Inr [])"

text \<open>The descent of \<open>OSetGen_ResetIterAt\<close>.\<close>

fun iter_at :: "('k \<Rightarrow> 'e \<Rightarrow> int) \<Rightarrow> 'k \<Rightarrow> 'e avltree \<Rightarrow> 'e iter_stack \<Rightarrow> 'e iter_stack cres" where
  "iter_at cmp k NULL stack = Inr stack"
| "iter_at cmp k (AvlNode l e b r) stack =
     (let cmpres = cmp k e in
      if cmpres = 0 then stackPush (AvlNode l e b r) 2 stack
      else if cmpres < 0 then cbind (stackPush (AvlNode l e b r) 2 stack) (iter_at cmp k l)
      else iter_at cmp k r stack)"

definition OSetGen_ResetIterAt :: "('k \<Rightarrow> 'e \<Rightarrow> int) \<Rightarrow> 'e OSet \<Rightarrow> 'k \<Rightarrow> 'e OSet cres" where
  "OSetGen_ResetIterAt cmp oset k =
     cbind (iter_at cmp k (root oset) []) (\<lambda>stack. Inr (oset\<lparr>iter := stack\<rparr>))"

text \<open>Element sets of machine words: no comparison function, the element is the key.\<close>

definition fast_cmp :: "UWord \<Rightarrow> UWord \<Rightarrow> int" where
  "fast_cmp w1 w2 = (if w1 > w2 then 1 else if w1 < w2 then - 1 else 0)"

definition OSetWord_Insert :: "UWord OSet \<Rightarrow> UWord \<Rightarrow> UWord OSet cres" where
  "OSetWord_Insert t val = OSetGen_Insert fast_cmp id t val"

definition OSetWord_Contains :: "UWord OSet \<Rightarrow> UWord \<Rightarrow> bool" where
  "OSetWord_Contains t val \<longleftrightarrow> OSetGen_Lookup fast_cmp t val \<noteq> None"

definition OSetWord_Remove :: "UWord OSet \<Rightarrow> UWord \<Rightarrow> (bool \<times> UWord OSet) cres" where
  "OSetWord_Remove t val = cbind (OSetGen_Remove fast_cmp id t val) (\<lambda>(n, t). Inr (n \<noteq> None, t))"

definition OSetWord_Next :: "UWord OSet \<Rightarrow> (UWord option \<times> UWord OSet) cres" where
  "OSetWord_Next t = OSetGen_Next t"

section \<open>Invariant\<close>

fun height :: "'e avltree \<Rightarrow> int" where
  "height NULL = 0"
| "height (AvlNode l e b r) = 1 + max (height l) (height r)"

fun avl_ok :: "'e avltree \<Rightarrow> bool" where
  "avl_ok NULL = True"
| "avl_ok (AvlNode l e b r) \<longleftrightarrow>
     avl_ok l \<and> avl_ok r \<and> b = height r - height l \<and> - 1 \<le> b \<and> b \<le> 1"

fun inorder :: "'e avltree \<Rightarrow> 'e list" where
  "inorder NULL = []"
| "inorder (AvlNode l e b r) = inorder l @ e # inorder r"

fun root_elem :: "'e avltree \<Rightarrow> 'e option" where
  "root_elem NULL = None"
| "root_elem (AvlNode l e b r) = Some e"

fun root_balance :: "'e avltree \<Rightarrow> int" where
  "root_balance NULL = 0"
| "root_balance (AvlNode l e b r) = b"

text \<open>The specification: a list of elements with strictly ascending keys.\<close>

definition ordered :: "('k \<Rightarrow> 'e \<Rightarrow> int) \<Rightarrow> ('e \<Rightarrow> 'k) \<Rightarrow> 'e list \<Rightarrow> bool" where
  "ordered cmp key = sorted_wrt (\<lambda>a b. cmp (key a) b < 0)"

fun ins_list :: "('k \<Rightarrow> 'e \<Rightarrow> int) \<Rightarrow> ('e \<Rightarrow> 'k) \<Rightarrow> 'e \<Rightarrow> 'e list \<Rightarrow> 'e list" where
  "ins_list cmp key n [] = [n]"
| "ins_list cmp key n (x # xs) = (if cmp (key n) x < 0 then n # x # xs else x # ins_list cmp key n xs)"

definition elements :: "'e OSet \<Rightarrow> 'e list" where
  "elements t = inorder (root t)"

definition oset_ok :: "('k \<Rightarrow> 'e \<Rightarrow> int) \<Rightarrow> ('e \<Rightarrow> 'k) \<Rightarrow> 'e OSet \<Rightarrow> bool" where
  "oset_ok cmp key t \<longleftrightarrow> avl_ok (root t) \<and> ordered cmp key (elements t) \<and>
     nElems t = of_nat (length (elements t))"

text \<open>The elements that a stack of the iterator still has to produce.\<close>

fun visit_elems :: "'e avltree \<times> int \<Rightarrow> 'e list" where
  "visit_elems (NULL, i) = []"
| "visit_elems (AvlNode l e b r, i) =
     (if i = 1 then inorder l @ e # inorder r else if i = 2 then e # inorder r else inorder r)"

definition pending :: "'e iter_stack \<Rightarrow> 'e list" where
  "pending stack = concat (map visit_elems stack)"

fun postorder :: "'e avltree \<Rightarrow> 'e list" where
  "postorder NULL = []"
| "postorder (AvlNode l e b r) = postorder l @ postorder r @ [e]"

text \<open>The nodes that a stack of the destructor still has to free.\<close>

fun to_free :: "'e iter_stack \<Rightarrow> 'e list" where
  "to_free [] = []"
| "to_free ((NULL, i) # stack) = to_free stack"
| "to_free ((AvlNode l e b r, i) # stack) =
     (if i = 1 then postorder l @ postorder r @ [e] else if i = 2 then postorder r @ [e] else [e]) @ to_free stack"

text \<open>A stack whose further growth stays within \<open>STACK_MAX\<close>.\<close>

fun stack_ok :: "'e iter_stack \<Rightarrow> bool" where
  "stack_ok [] = True"
| "stack_ok ((n, i) # below) \<longleftrightarrow>
     n \<noteq> NULL \<and> 1 \<le> i \<and> i \<le> 3 \<and> int (length below) + height n \<le> 32 \<and> stack_ok below"

text \<open>The loop of a client: \<open>while ((e = VG_(OSetGen_Next)(t)))\<close>, for at most \<open>n\<close> calls.\<close>

fun drain :: "nat \<Rightarrow> 'e OSet \<Rightarrow> 'e list cres" where
  "drain 0 t = Inr []"
| "drain (Suc n) t = cbind (OSetGen_Next t) (\<lambda>(e, t).
     case e of None \<Rightarrow> Inr [] | Some x \<Rightarrow> cbind (drain n t) (\<lambda>xs. Inr (x # xs)))"

text \<open>The fewest nodes of a balanced tree of a given height, and a tree that has them.\<close>

fun min_nodes :: "nat \<Rightarrow> nat" where
  "min_nodes 0 = 0"
| "min_nodes (Suc 0) = 1"
| "min_nodes (Suc (Suc h)) = 1 + min_nodes (Suc h) + min_nodes h"

fun min_nodes_iter :: "nat \<Rightarrow> int \<Rightarrow> int \<Rightarrow> int" where
  "min_nodes_iter 0 a b = a"
| "min_nodes_iter (Suc n) a b = min_nodes_iter n b (1 + b + a)"

fun thin_tree :: "nat \<Rightarrow> nat \<Rightarrow> nat avltree" where
  "thin_tree 0 k = NULL"
| "thin_tree (Suc 0) k = AvlNode NULL k 0 NULL"
| "thin_tree (Suc (Suc h)) k =
     AvlNode (thin_tree (Suc h) k) (k + min_nodes (Suc h)) (- 1) (thin_tree h (k + min_nodes (Suc h) + 1))"

definition nat_cmp :: "nat \<Rightarrow> nat \<Rightarrow> int" where
  "nat_cmp a b = int a - int b"

text \<open>What an insertion into a subtree guarantees: the second component tells whether it has grown.\<close>

definition inserted ::
  "('k \<Rightarrow> 'e \<Rightarrow> int) \<Rightarrow> ('e \<Rightarrow> 'k) \<Rightarrow> 'e \<Rightarrow> 'e avltree \<Rightarrow> ('e avltree \<times> bool) cres \<Rightarrow> bool" where
  "inserted cmp key n t m \<longleftrightarrow> (\<exists>t' g. m = Inr (t', g) \<and> avl_ok t' \<and> height t' = height t + of_bool g \<and>
     inorder t' = ins_list cmp key n (inorder t) \<and> (g \<longrightarrow> root_elem t' = root_elem t \<and> root_balance t' \<noteq> 0))"

text \<open>What a removal from a subtree guarantees: the second component tells whether it has shrunk.\<close>

definition removed :: "'e list \<Rightarrow> int \<Rightarrow> ('e avltree \<times> bool) cres \<Rightarrow> bool" where
  "removed xs h m \<longleftrightarrow> (\<exists>t' ch. m = Inr (t', ch) \<and> avl_ok t' \<and> height t' = h - of_bool ch \<and> inorder t' = xs)"

section \<open>Balance\<close>

lemma ex_false [simp]: "\<exists>b. \<not> b"
  by (rule exI [of _ False]) simp

lemma height_nonneg [simp]: "0 \<le> height t"
  by (induction t) auto

lemma height_pos_iff: "0 < height t \<longleftrightarrow> t \<noteq> NULL"
  by (cases t) (auto simp: max_def le_less_trans intro: add_pos_nonneg)

lemma height_0_iff [simp]: "height t = 0 \<longleftrightarrow> t = NULL"
  using height_pos_iff [of t] height_nonneg [of t] by linarith

lemma NULL_if_height: "height t \<le> 0 \<Longrightarrow> t = NULL"
  using height_pos_iff [of t] by linarith

lemma higher_not_NULL: "height t = height u + k \<Longrightarrow> 0 < k \<Longrightarrow> t \<noteq> NULL"
  using height_nonneg [of u] height_pos_iff [of t] by linarith

lemma insert_grown_left_ok:
  assumes "avl_ok l" and "avl_ok r" and "b = height r - (height l - 1)" and "- 1 \<le> b" and "b \<le> 1"
    and "root_balance l \<noteq> 0"
  shows "\<exists>t g. insert_grown_left l e b r = Inr (t, g) \<and> avl_ok t \<and>
    height t = 1 + max (height l - 1) (height r) + of_bool g \<and>
    inorder t = inorder l @ e # inorder r \<and> (g \<longrightarrow> root_elem t = Some e \<and> root_balance t \<noteq> 0)"
proof -
  obtain ll le lb lr where l: "l = AvlNode ll le lb lr" using assms(6) by (cases l) auto
  have bal: "lb = height lr - height ll" "lb = - 1 \<or> lb = 1" "avl_ok ll" "avl_ok lr"
    using assms(1,6) l by auto
  have hl: "height l = 1 + max (height ll) (height lr)" by (simp add: l)
  consider "b = 1 \<or> b = 0" | "b = - 1" "lb = - 1" | "b = - 1" "lb = 1"
    using assms(3-5) bal(2) by linarith
  then show ?thesis
  proof cases
    case 1
    then show ?thesis
      using assms by (auto simp: insert_grown_left_def max_def)
  next
    case 2
    then have "height ll = height r + 1" "height lr = height r" using assms(3) hl bal(1) by auto
    then show ?thesis
      using 2 assms(2) bal hl by (auto simp: insert_grown_left_def l)
  next
    case 3
    then have h: "height lr = height r + 1" "height ll = height r" using assms(3) hl bal(1) by auto
    then have "lr \<noteq> NULL" by (auto dest: higher_not_NULL)
    then obtain ml me mb mr where lr: "lr = AvlNode ml me mb mr" by (cases lr) auto
    have m: "avl_ok ml" "avl_ok mr" "mb = height mr - height ml" "max (height ml) (height mr) = height r"
      and "mb = - 1 \<or> mb = 0 \<or> mb = 1"
      using bal(4) h(1) by (auto simp: lr)
    then consider "mb = - 1" "height ml = height r" "height mr = height r - 1"
      | "mb = 0" "height ml = height r" "height mr = height r"
      | "mb = 1" "height ml = height r - 1" "height mr = height r" by linarith
    then show ?thesis
      by cases (use 3 assms(2) bal(3) h hl m(1,2) in \<open>auto simp: insert_grown_left_def l lr\<close>)
  qed
qed

lemma insert_grown_right_ok:
  assumes "avl_ok l" and "avl_ok r" and "b = (height r - 1) - height l" and "- 1 \<le> b" and "b \<le> 1"
    and "root_balance r \<noteq> 0"
  shows "\<exists>t g. insert_grown_right l e b r = Inr (t, g) \<and> avl_ok t \<and>
    height t = 1 + max (height l) (height r - 1) + of_bool g \<and>
    inorder t = inorder l @ e # inorder r \<and> (g \<longrightarrow> root_elem t = Some e \<and> root_balance t \<noteq> 0)"
proof -
  obtain rl re rb rr where r: "r = AvlNode rl re rb rr" using assms(6) by (cases r) auto
  have bal: "rb = height rr - height rl" "rb = - 1 \<or> rb = 1" "avl_ok rl" "avl_ok rr"
    using assms(2,6) r by auto
  have hr: "height r = 1 + max (height rl) (height rr)" by (simp add: r)
  consider "b = - 1 \<or> b = 0" | "b = 1" "rb = 1" | "b = 1" "rb = - 1"
    using assms(3-5) bal(2) by linarith
  then show ?thesis
  proof cases
    case 1
    then show ?thesis
      using assms by (auto simp: insert_grown_right_def max_def)
  next
    case 2
    then have "height rr = height l + 1" "height rl = height l" using assms(3) hr bal(1) by auto
    then show ?thesis
      using 2 assms(1) bal hr by (auto simp: insert_grown_right_def r)
  next
    case 3
    then have h: "height rl = height l + 1" "height rr = height l" using assms(3) hr bal(1) by auto
    then have "rl \<noteq> NULL" by (auto dest: higher_not_NULL)
    then obtain ml me mb mr where rl: "rl = AvlNode ml me mb mr" by (cases rl) auto
    have m: "avl_ok ml" "avl_ok mr" "mb = height mr - height ml" "max (height ml) (height mr) = height l"
      and "mb = - 1 \<or> mb = 0 \<or> mb = 1"
      using bal(3) h(1) by (auto simp: rl)
    then consider "mb = - 1" "height ml = height l" "height mr = height l - 1"
      | "mb = 0" "height ml = height l" "height mr = height l"
      | "mb = 1" "height ml = height l - 1" "height mr = height l" by linarith
    then show ?thesis
      by cases (use 3 assms(1) bal(4) h hr m(1,2) in \<open>auto simp: insert_grown_right_def r rl\<close>)
  qed
qed

lemma remove_shrunk_left_ok:
  assumes "avl_ok l" and "avl_ok r" and "b = height r - (height l + 1)" and "- 1 \<le> b" and "b \<le> 1"
  shows "\<exists>t ch. remove_shrunk_left l e b r = Inr (t, ch) \<and> avl_ok t \<and>
    height t = 1 + max (height l + 1) (height r) - of_bool ch \<and>
    inorder t = inorder l @ e # inorder r \<and> (b \<noteq> 1 \<longrightarrow> root_elem t = Some e \<and> root_balance t = b + 1 \<and> ch = (b = - 1))"
proof -
  consider "b = - 1 \<or> b = 0" | "b = 1" using assms(4,5) by linarith
  then show ?thesis
  proof cases
    case 1
    then show ?thesis
      using assms by (auto simp: remove_shrunk_left_def max_def)
  next
    case 2
    then have hr: "height r = height l + 2" using assms(3) by simp
    then have "r \<noteq> NULL" by (auto dest: higher_not_NULL)
    then obtain rl re rb rr where r: "r = AvlNode rl re rb rr" by (cases r) auto
    have bal: "rb = height rr - height rl" "avl_ok rl" "avl_ok rr" "max (height rl) (height rr) = height l + 1"
      and "rb = - 1 \<or> rb = 0 \<or> rb = 1"
      using assms(2) hr by (auto simp: r)
    then consider "rb = 0" "height rl = height l + 1" "height rr = height l + 1"
      | "rb = 1" "height rl = height l" "height rr = height l + 1"
      | "rb = - 1" "height rl = height l + 1" "height rr = height l" by linarith
    then show ?thesis
    proof cases
      case 3
      then have "rl \<noteq> NULL" by (auto dest: higher_not_NULL)
      then obtain ml me mb mr where rl: "rl = AvlNode ml me mb mr" by (cases rl) auto
      have m: "avl_ok ml" "avl_ok mr" "mb = height mr - height ml" "max (height ml) (height mr) = height l"
        and "mb = - 1 \<or> mb = 0 \<or> mb = 1"
        using bal(2) 3(2) by (auto simp: rl)
      then consider "mb = - 1" "height ml = height l" "height mr = height l - 1"
        | "mb = 0" "height ml = height l" "height mr = height l"
        | "mb = 1" "height ml = height l - 1" "height mr = height l" by linarith
      then show ?thesis
        by cases (use 2 3 assms(1) bal(3) m(1,2) in \<open>auto simp: remove_shrunk_left_def r rl\<close>)
    qed (use 2 assms(1) bal(2,3) in \<open>auto simp: remove_shrunk_left_def r\<close>)
  qed
qed

lemma remove_shrunk_right_ok:
  assumes "avl_ok l" and "avl_ok r" and "b = (height r + 1) - height l" and "- 1 \<le> b" and "b \<le> 1"
  shows "\<exists>t ch. remove_shrunk_right l e b r = Inr (t, ch) \<and> avl_ok t \<and>
    height t = 1 + max (height l) (height r + 1) - of_bool ch \<and>
    inorder t = inorder l @ e # inorder r \<and> (b \<noteq> - 1 \<longrightarrow> root_elem t = Some e \<and> root_balance t = b - 1 \<and> ch = (b = 1))"
proof -
  consider "b = 1 \<or> b = 0" | "b = - 1" using assms(4,5) by linarith
  then show ?thesis
  proof cases
    case 1
    then show ?thesis
      using assms by (auto simp: remove_shrunk_right_def max_def)
  next
    case 2
    then have hl: "height l = height r + 2" using assms(3) by simp
    then have "l \<noteq> NULL" by (auto dest: higher_not_NULL)
    then obtain ll le lb lr where l: "l = AvlNode ll le lb lr" by (cases l) auto
    have bal: "lb = height lr - height ll" "avl_ok ll" "avl_ok lr" "max (height ll) (height lr) = height r + 1"
      and "lb = - 1 \<or> lb = 0 \<or> lb = 1"
      using assms(1) hl by (auto simp: l)
    then consider "lb = 0" "height ll = height r + 1" "height lr = height r + 1"
      | "lb = - 1" "height ll = height r + 1" "height lr = height r"
      | "lb = 1" "height ll = height r" "height lr = height r + 1" by linarith
    then show ?thesis
    proof cases
      case 3
      then have "lr \<noteq> NULL" by (auto dest: higher_not_NULL)
      then obtain ml me mb mr where lr: "lr = AvlNode ml me mb mr" by (cases lr) auto
      have m: "avl_ok ml" "avl_ok mr" "mb = height mr - height ml" "max (height ml) (height mr) = height r"
        and "mb = - 1 \<or> mb = 0 \<or> mb = 1"
        using bal(3) 3(3) by (auto simp: lr)
      then consider "mb = - 1" "height ml = height r" "height mr = height r - 1"
        | "mb = 0" "height ml = height r" "height mr = height r"
        | "mb = 1" "height ml = height r - 1" "height mr = height r" by linarith
      then show ?thesis
        by cases (use 2 3 assms(2) bal(2) m(1,2) in \<open>auto simp: remove_shrunk_right_def l lr\<close>)
    qed (use 2 assms(2) bal(2,3) in \<open>auto simp: remove_shrunk_right_def l\<close>)
  qed
qed

lemma inorder_Nil [simp]: "inorder t = [] \<longleftrightarrow> t = NULL"
  by (cases t) auto

lemma rightmost_last: "t \<noteq> NULL \<Longrightarrow> rightmost t = Inr (last (inorder t))"
  by (induction t rule: rightmost.induct) auto

lemma leftmost_hd: "t \<noteq> NULL \<Longrightarrow> leftmost t = Inr (hd (inorder t))"
  by (induction t rule: leftmost.induct) (auto simp: hd_append)

lemma remove1_last: "xs \<noteq> [] \<Longrightarrow> distinct xs \<Longrightarrow> remove1 (last xs) xs = butlast xs"
  by (induction xs) auto

section \<open>What the set expects of the comparison function\<close>

locale oset_order =
  fixes cmp :: "'k \<Rightarrow> 'e \<Rightarrow> int" and key :: "'e \<Rightarrow> 'k"
  assumes cmp_eq: "cmp k e = 0 \<longleftrightarrow> k = key e"
    and cmp_swap: "cmp (key a) b < 0 \<longleftrightarrow> 0 < cmp (key b) a"
    and cmp_trans: "cmp k a < 0 \<Longrightarrow> cmp (key a) b < 0 \<Longrightarrow> cmp k b < 0"
begin

lemma cmp_key_neq: "cmp (key a) b < 0 \<Longrightarrow> key a \<noteq> key b"
  using cmp_eq [of "key b" b] by auto

lemma ordered_append:
  "ordered cmp key (xs @ a # ys) \<longleftrightarrow> ordered cmp key xs \<and> ordered cmp key ys \<and>
     (\<forall>x \<in> set xs. cmp (key x) a < 0) \<and> (\<forall>y \<in> set ys. cmp (key a) y < 0)"
  unfolding ordered_def sorted_wrt_append sorted_wrt.simps by (auto intro: cmp_trans)

lemma ordered_key_inj: "ordered cmp key xs \<Longrightarrow> inj_on key (set xs)"
proof (induction xs)
  case (Cons a xs)
  have "key a \<notin> key ` set xs"
    using Cons.prems cmp_key_neq [of a] by (auto simp: ordered_def)
  then show ?case using Cons by (auto simp: ordered_def)
qed simp

lemma ordered_distinct: "ordered cmp key xs \<Longrightarrow> distinct xs"
  by (induction xs) (auto simp: ordered_def dest: cmp_key_neq)

lemma ins_list_left:
  "ordered cmp key (xs @ a # ys) \<Longrightarrow> cmp (key n) a < 0 \<Longrightarrow>
   ins_list cmp key n (xs @ a # ys) = ins_list cmp key n xs @ a # ys"
  by (induction xs) (auto simp: ordered_def)

lemma ins_list_right:
  assumes "\<forall>x \<in> set xs. cmp (key x) a < 0" and "0 < cmp (key n) a"
  shows "ins_list cmp key n (xs @ a # ys) = xs @ a # ins_list cmp key n ys"
  using assms(1)
proof (induction xs)
  case Nil
  then show ?case using assms(2) by simp
next
  case (Cons x xs)
  have "cmp (key a) n < 0" using assms(2) cmp_swap by blast
  then have "cmp (key x) n < 0" using cmp_trans [of "key x" a n] Cons.prems by simp
  then have "\<not> cmp (key n) x < 0" using cmp_swap by force
  then show ?case using Cons by simp
qed

lemma ins_list_set: "set (ins_list cmp key n xs) = insert n (set xs)"
  by (induction xs) auto

lemma ordered_ins_list:
  assumes "ordered cmp key xs" and "key n \<notin> key ` set xs"
  shows "ordered cmp key (ins_list cmp key n xs)"
  using assms
proof (induction xs)
  case (Cons x xs)
  show ?case
  proof (cases "cmp (key n) x < 0")
    case True
    then show ?thesis using Cons.prems cmp_trans by (auto simp: ordered_def)
  next
    case False
    have "cmp (key n) x \<noteq> 0" using Cons.prems(2) cmp_eq by auto
    then have "cmp (key x) n < 0" using False cmp_swap by force
    then show ?thesis using False Cons by (auto simp: ordered_def ins_list_set)
  qed
qed (simp add: ordered_def)

lemma lookup_find:
  assumes "ordered cmp key (inorder t)"
  shows "avl_lookup cmp k t = find (\<lambda>e. key e = k) (inorder t)"
  using assms
proof (induction t)
  case (AvlNode l e b r)
  have o: "ordered cmp key (inorder l)" "ordered cmp key (inorder r)"
    "\<forall>x \<in> set (inorder l). cmp (key x) e < 0" "\<forall>y \<in> set (inorder r). cmp (key e) y < 0"
    using AvlNode.prems by (simp_all add: ordered_append)
  have l: "find (\<lambda>e. key e = k) (inorder l) = None" if "0 \<le> cmp k e"
    using o(3) that by (auto simp: find_None_iff)
  have r: "find (\<lambda>e. key e = k) (inorder r) = None" if "cmp k e < 0"
  proof -
    have "k \<noteq> key y" if "y \<in> set (inorder r)" for y
      using o(4) that \<open>cmp k e < 0\<close> cmp_trans [of k e y] cmp_eq [of k y] by auto
    then show ?thesis by (auto simp: find_None_iff)
  qed
  have e: "k = key e \<longleftrightarrow> cmp k e = 0" by (simp add: cmp_eq)
  show ?case
    using AvlNode.IH o(1,2) l r e by (auto simp: find_append Let_def split: option.splits)
qed simp

lemma insert_left:
  assumes "avl_ok (AvlNode l e b r)" and "ordered cmp key (inorder (AvlNode l e b r))" and "cmp (key n) e < 0"
    and "l \<noteq> NULL \<Longrightarrow> inserted cmp key n l (avl_insert cmp key n l)"
  shows "inserted cmp key n (AvlNode l e b r) (avl_insert cmp key n (AvlNode l e b r))"
proof -
  have ok: "avl_ok l" "avl_ok r" "b = height r - height l" "- 1 \<le> b" "b \<le> 1"
    using assms(1) by auto
  have inl: "ins_list cmp key n (inorder (AvlNode l e b r)) = ins_list cmp key n (inorder l) @ e # inorder r"
    using ins_list_left [of "inorder l" e "inorder r" n] assms(2,3) by simp
  show ?thesis
  proof (cases "l = NULL")
    case True
    then show ?thesis
      using assms(3) ok inl height_pos_iff [of r] by (auto simp: inserted_def max_def)
  next
    case False
    then obtain l' g where l': "avl_insert cmp key n l = Inr (l', g)" "avl_ok l'" "height l' = height l + of_bool g"
      "inorder l' = ins_list cmp key n (inorder l)" "g \<longrightarrow> root_balance l' \<noteq> 0"
      using assms(4) unfolding inserted_def by blast
    show ?thesis
      using insert_grown_left_ok [of l' r b e] l' ok False assms(3) inl
      unfolding inserted_def by (cases g) auto
  qed
qed

lemma insert_right:
  assumes "avl_ok (AvlNode l e b r)" and "ordered cmp key (inorder (AvlNode l e b r))" and "0 < cmp (key n) e"
    and "r \<noteq> NULL \<Longrightarrow> inserted cmp key n r (avl_insert cmp key n r)"
  shows "inserted cmp key n (AvlNode l e b r) (avl_insert cmp key n (AvlNode l e b r))"
proof -
  have ok: "avl_ok l" "avl_ok r" "b = height r - height l" "- 1 \<le> b" "b \<le> 1"
    using assms(1) by auto
  have inr: "ins_list cmp key n (inorder (AvlNode l e b r)) = inorder l @ e # ins_list cmp key n (inorder r)"
    using ins_list_right [of "inorder l" e n "inorder r"] assms(2,3) by (simp add: ordered_append)
  show ?thesis
  proof (cases "r = NULL")
    case True
    then show ?thesis
      using assms(3) ok inr height_pos_iff [of l] by (auto simp: inserted_def max_def)
  next
    case False
    then obtain r' g where r': "avl_insert cmp key n r = Inr (r', g)" "avl_ok r'" "height r' = height r + of_bool g"
      "inorder r' = ins_list cmp key n (inorder r)" "g \<longrightarrow> root_balance r' \<noteq> 0"
      using assms(4) unfolding inserted_def by blast
    show ?thesis
      using insert_grown_right_ok [of l r' b e] r' ok False assms(3) inr
      unfolding inserted_def by (cases g) auto
  qed
qed

lemma insert_ok:
  assumes "avl_ok t" and "t \<noteq> NULL" and "ordered cmp key (inorder t)" and "key n \<notin> key ` set (inorder t)"
  shows "inserted cmp key n t (avl_insert cmp key n t)"
  using assms
proof (induction t)
  case (AvlNode l e b r)
  have o: "ordered cmp key (inorder l)" "ordered cmp key (inorder r)"
    using AvlNode.prems(3) by (simp_all add: ordered_append)
  have k: "key n \<notin> key ` set (inorder l)" "key n \<notin> key ` set (inorder r)" "cmp (key n) e \<noteq> 0"
    using AvlNode.prems(4) cmp_eq [of "key n" e] by auto
  have ih: "l \<noteq> NULL \<Longrightarrow> inserted cmp key n l (avl_insert cmp key n l)"
    "r \<noteq> NULL \<Longrightarrow> inserted cmp key n r (avl_insert cmp key n r)"
    using AvlNode.IH AvlNode.prems(1) o k(1,2) by simp_all
  consider "cmp (key n) e < 0" | "0 < cmp (key n) e" using k(3) by linarith
  then show ?case
    using insert_left [OF AvlNode.prems(1,3) _ ih(1)] insert_right [OF AvlNode.prems(1,3) _ ih(2)] by cases
qed simp

text \<open>A key that is present is a programming error that the set detects.\<close>

lemma insert_duplicate:
  assumes "ordered cmp key (inorder t)" and "key n \<in> key ` set (inorder t)"
  shows "avl_insert cmp key n t = Inl Assert_fail"
  using assms
proof (induction t)
  case (AvlNode l e b r)
  have o: "ordered cmp key (inorder l)" "ordered cmp key (inorder r)"
    "\<forall>x \<in> set (inorder l). cmp (key x) e < 0" "\<forall>y \<in> set (inorder r). cmp (key e) y < 0"
    using AvlNode.prems by (simp_all add: ordered_append)
  from AvlNode.prems(2) consider (here) "key n = key e" | (left) "key n \<in> key ` set (inorder l)"
    | (right) "key n \<in> key ` set (inorder r)" by auto
  then show ?case
  proof cases
    case here
    then have "cmp (key n) e = 0" using cmp_eq by simp
    then show ?thesis by simp
  next
    case left
    then have "cmp (key n) e < 0" "l \<noteq> NULL" using o(3) by auto
    then show ?thesis using AvlNode.IH(1) o(1) left by simp
  next
    case right
    then obtain y where y: "y \<in> set (inorder r)" "key n = key y" by auto
    then have "0 < cmp (key n) e" using o(4) cmp_swap by auto
    moreover have "r \<noteq> NULL" using y by auto
    ultimately show ?thesis using AvlNode.IH(2) o(2) right by simp
  qed
qed simp

lemma removeroot_step:
  assumes "avl_ok (AvlNode l e b r)" and "ordered cmp key (inorder (AvlNode l e b r))"
    and "\<And>n. n \<in> set (inorder l) \<Longrightarrow> removed (remove1 n (inorder l)) (height l) (avl_remove cmp key n l)"
    and "\<And>n. n \<in> set (inorder r) \<Longrightarrow> removed (remove1 n (inorder r)) (height r) (avl_remove cmp key n r)"
  shows "removed (inorder l @ inorder r) (height (AvlNode l e b r)) (avl_removeroot cmp key (AvlNode l e b r))"
proof -
  have ok: "avl_ok l" "avl_ok r" "b = height r - height l" "- 1 \<le> b" "b \<le> 1"
    using assms(1) by auto
  have o: "\<forall>x \<in> set (inorder l). cmp (key x) e < 0" "\<forall>y \<in> set (inorder r). 0 < cmp (key y) e"
    "distinct (inorder l)" "distinct (inorder r)"
    using assms(2) cmp_swap ordered_distinct by (auto simp: ordered_append)
  consider "l = NULL" | "r = NULL" | (left) "l \<noteq> NULL" "r \<noteq> NULL" "b < 0" | (right) "l \<noteq> NULL" "r \<noteq> NULL" "0 \<le> b"
    by linarith
  then show ?thesis
  proof cases
    case left
    let ?n = "last (inorder l)"
    have n: "?n \<in> set (inorder l)" "remove1 ?n (inorder l) = butlast (inorder l)"
      using left(1) o(3) by (auto simp: remove1_last)
    obtain l' ch where l': "avl_remove cmp key ?n l = Inr (l', ch)" "avl_ok l'" "height l' = height l - of_bool ch"
      "inorder l' = butlast (inorder l)"
      using assms(3) [OF n(1)] n(2) unfolding removed_def by auto
    have "b = - 1" using left(3) ok(4) by simp
    then show ?thesis
      using left l' n(1) o(1) ok
      by (cases ch) (auto simp: removed_def rightmost_last remove_shrunk_left_def)
  next
    case right
    let ?n = "hd (inorder r)"
    have n: "?n \<in> set (inorder r)" "remove1 ?n (inorder r) = tl (inorder r)" "?n # tl (inorder r) = inorder r"
      using right(2) by (cases "inorder r"; auto)+
    obtain r' ch where r': "avl_remove cmp key ?n r = Inr (r', ch)" "avl_ok r'" "height r' = height r - of_bool ch"
      "inorder r' = tl (inorder r)"
      using assms(4) [OF n(1)] n(2) unfolding removed_def by auto
    have "cmp (key ?n) e > 0" using o(2) n(1) by blast
    moreover have "b = 0 \<or> b = 1" using right(3) ok(5) by linarith
    ultimately show ?thesis
      using right r' n(3) ok
      by (cases ch) (auto simp: removed_def leftmost_hd remove_shrunk_right_def)
  qed (use ok height_pos_iff [of l] height_pos_iff [of r] in \<open>auto simp: removed_def max_def\<close>)
qed

lemma remove_left:
  assumes "avl_ok (AvlNode l e b r)" and "n \<in> set (inorder l)" and "cmp (key n) e < 0"
    and "removed (remove1 n (inorder l)) (height l) (avl_remove cmp key n l)"
  shows "removed (remove1 n (inorder (AvlNode l e b r))) (height (AvlNode l e b r))
    (avl_remove cmp key n (AvlNode l e b r))"
proof -
  have ok: "avl_ok l" "avl_ok r" "b = height r - height l" "- 1 \<le> b" "b \<le> 1" "l \<noteq> NULL"
    using assms(1,2) by auto
  obtain l' ch where l': "avl_remove cmp key n l = Inr (l', ch)" "avl_ok l'" "height l' = height l - of_bool ch"
    "inorder l' = remove1 n (inorder l)"
    using assms(4) unfolding removed_def by auto
  show ?thesis
  proof (cases ch)
    case True
    then have "b = height r - (height l' + 1)" using ok(3) l'(3) by simp
    from remove_shrunk_left_ok [OF l'(2) ok(2) this ok(4,5), of e]
    obtain t c where "remove_shrunk_left l' e b r = Inr (t, c)" "avl_ok t"
      "height t = 1 + max (height l' + 1) (height r) - of_bool c" "inorder t = inorder l' @ e # inorder r"
      by blast
    then show ?thesis using l' assms(2,3) ok(6) True by (simp add: removed_def remove1_append)
  next
    case False
    then show ?thesis using l' assms(2,3) ok by (simp add: removed_def remove1_append)
  qed
qed

lemma remove_right:
  assumes "avl_ok (AvlNode l e b r)" and "n \<in> set (inorder r)" and "0 < cmp (key n) e"
    and "distinct (inorder (AvlNode l e b r))"
    and "removed (remove1 n (inorder r)) (height r) (avl_remove cmp key n r)"
  shows "removed (remove1 n (inorder (AvlNode l e b r))) (height (AvlNode l e b r))
    (avl_remove cmp key n (AvlNode l e b r))"
proof -
  have ok: "avl_ok l" "avl_ok r" "b = height r - height l" "- 1 \<le> b" "b \<le> 1" "r \<noteq> NULL"
    using assms(1,2) by auto
  obtain r' ch where r': "avl_remove cmp key n r = Inr (r', ch)" "avl_ok r'" "height r' = height r - of_bool ch"
    "inorder r' = remove1 n (inorder r)"
    using assms(5) unfolding removed_def by auto
  have "n \<notin> set (inorder l)" "n \<noteq> e" using assms(2,4) by auto
  then have r1: "remove1 n (inorder (AvlNode l e b r)) = inorder l @ e # inorder r'"
    using r'(4) by (simp add: remove1_append)
  show ?thesis
  proof (cases ch)
    case True
    then have "b = (height r' + 1) - height l" using ok(3) r'(3) by simp
    from remove_shrunk_right_ok [OF ok(1) r'(2) this ok(4,5), of e]
    obtain t d where "remove_shrunk_right l e b r' = Inr (t, d)" "avl_ok t"
      "height t = 1 + max (height l) (height r' + 1) - of_bool d" "inorder t = inorder l @ e # inorder r'"
      by blast
    then show ?thesis using r' assms(3) ok(6) True unfolding r1 by (simp add: removed_def)
  next
    case False
    then show ?thesis using r' assms(3) ok unfolding r1 by (simp add: removed_def)
  qed
qed

lemma remove_ok:
  assumes "avl_ok t" and "ordered cmp key (inorder t)" and "n \<in> set (inorder t)"
  shows "removed (remove1 n (inorder t)) (height t) (avl_remove cmp key n t)"
  using assms
proof (induction t arbitrary: n)
  case (AvlNode l e b r)
  have o: "ordered cmp key (inorder l)" "ordered cmp key (inorder r)"
    "\<forall>x \<in> set (inorder l). cmp (key x) e < 0" "\<forall>y \<in> set (inorder r). 0 < cmp (key y) e"
    using AvlNode.prems(2) cmp_swap by (auto simp: ordered_append)
  have d: "distinct (inorder (AvlNode l e b r))" using AvlNode.prems(2) by (rule ordered_distinct)
  have ok: "avl_ok l" "avl_ok r" using AvlNode.prems(1) by auto
  note ih = AvlNode.IH(1) [OF ok(1) o(1)] AvlNode.IH(2) [OF ok(2) o(2)]
  from AvlNode.prems(3) consider (here) "n = e" | (left) "n \<in> set (inorder l)" | (right) "n \<in> set (inorder r)"
    by auto
  then show ?case
  proof cases
    case here
    then have c: "cmp (key n) e = 0" using cmp_eq by simp
    have "remove1 e (inorder (AvlNode l e b r)) = inorder l @ inorder r"
      using d by (simp add: remove1_append)
    then show ?thesis
      using removeroot_step [OF AvlNode.prems(1,2) ih] here c
      by (simp del: avl_removeroot.simps height.simps inorder.simps)
  next
    case left
    then show ?thesis using remove_left [OF AvlNode.prems(1) left _ ih(1)] o(3) by blast
  next
    case right
    then show ?thesis using remove_right [OF AvlNode.prems(1) right _ d ih(2)] o(4) by blast
  qed
qed simp

lemma lookup_None_iff:
  assumes "oset_ok cmp key t"
  shows "OSetGen_Lookup cmp t k = None \<longleftrightarrow> k \<notin> key ` set (elements t)"
  using assms lookup_find [of "root t" k]
  by (auto simp: OSetGen_Lookup_def oset_ok_def elements_def find_None_iff)

lemma lookup_Some_iff:
  assumes "oset_ok cmp key t"
  shows "OSetGen_Lookup cmp t k = Some e \<longleftrightarrow> e \<in> set (elements t) \<and> key e = k"
proof -
  have o: "ordered cmp key (elements t)" using assms by (simp add: oset_ok_def elements_def)
  have "OSetGen_Lookup cmp t k = find (\<lambda>e. key e = k) (elements t)"
    using lookup_find [of "root t" k] assms by (simp add: OSetGen_Lookup_def oset_ok_def elements_def)
  also have "\<dots> = Some e \<longleftrightarrow> e \<in> set (elements t) \<and> key e = k"
    using ordered_key_inj [OF o] by (intro find_unique) (auto dest: inj_onD)
  finally show ?thesis .
qed

lemma OSet_insert:
  assumes "oset_ok cmp key t" and "key e \<notin> key ` set (elements t)"
  obtains t' where "OSetGen_Insert cmp key t e = Inr t'" "oset_ok cmp key t'"
    "elements t' = ins_list cmp key e (elements t)"
proof -
  have o: "avl_ok (root t)" "ordered cmp key (inorder (root t))" "nElems t = of_nat (length (inorder (root t)))"
    using assms(1) by (simp_all add: oset_ok_def elements_def)
  have len: "length (ins_list cmp key e xs) = Suc (length xs)" for xs by (induction xs) auto
  show thesis
  proof (cases "root t = NULL")
    case True
    then show thesis
      using o by (intro that) (auto simp: OSetGen_Insert_def oset_ok_def elements_def ordered_def)
  next
    case False
    from insert_ok [OF o(1) False o(2)] assms(2)
    obtain n g where n: "avl_insert cmp key e (root t) = Inr (n, g)" "avl_ok n"
      "inorder n = ins_list cmp key e (inorder (root t))"
      unfolding inserted_def elements_def by blast
    show thesis
    proof (rule that)
      show "OSetGen_Insert cmp key t e = Inr (t\<lparr>root := n, nElems := nElems t + 1, iter := []\<rparr>)"
        using False n(1) by (simp add: OSetGen_Insert_def)
    qed (use n o assms(2) ordered_ins_list in \<open>auto simp: oset_ok_def elements_def len\<close>)
  qed
qed

lemma OSet_insert_duplicate:
  assumes "oset_ok cmp key t" and "key e \<in> key ` set (elements t)"
  shows "OSetGen_Insert cmp key t e = Inl Assert_fail"
  using insert_duplicate [of "root t" e] assms
  by (auto simp: OSetGen_Insert_def oset_ok_def elements_def)

lemma OSet_lookup_insert:
  assumes "oset_ok cmp key t" and "OSetGen_Insert cmp key t e = Inr t'"
  shows "OSetGen_Lookup cmp t' k = (if k = key e then Some e else OSetGen_Lookup cmp t k)"
proof -
  have new: "key e \<notin> key ` set (elements t)"
    using OSet_insert_duplicate [OF assms(1), of e] assms(2) by auto
  obtain t'' where t'': "OSetGen_Insert cmp key t e = Inr t''" "oset_ok cmp key t''"
    "elements t'' = ins_list cmp key e (elements t)"
    using OSet_insert [OF assms(1) new] .
  then have t': "oset_ok cmp key t'" "set (elements t') = insert e (set (elements t))"
    using assms(2) ins_list_set by auto
  show ?thesis
  proof (cases "OSetGen_Lookup cmp t' k")
    case None
    then show ?thesis
      using lookup_None_iff [OF t'(1), of k] lookup_None_iff [OF assms(1), of k] t'(2) by auto
  next
    case (Some x)
    then have x: "x = e \<or> x \<in> set (elements t)" "key x = k"
      using lookup_Some_iff [OF t'(1)] t'(2) by auto
    show ?thesis
    proof (cases "x = e")
      case False
      then have "OSetGen_Lookup cmp t k = Some x" "k \<noteq> key e"
        using x new lookup_Some_iff [OF assms(1)] by (auto simp: image_iff)
      then show ?thesis using Some by simp
    qed (use Some x in auto)
  qed
qed

lemma OSet_remove:
  assumes "oset_ok cmp key t"
  obtains t' where "OSetGen_Remove cmp key t k = Inr (OSetGen_Lookup cmp t k, t')" "oset_ok cmp key t'"
    "elements t' = filter (\<lambda>e. key e \<noteq> k) (elements t)"
proof (cases "OSetGen_Lookup cmp t k")
  case None
  then have "\<forall>e \<in> set (elements t). key e \<noteq> k" using lookup_None_iff [OF assms] by auto
  then have "filter (\<lambda>e. key e \<noteq> k) (elements t) = elements t" by (simp add: filter_id_conv)
  then show thesis
    using None assms by (intro that [of t]) (auto simp: OSetGen_Remove_def OSetGen_Lookup_def)
next
  case (Some n)
  then have n: "n \<in> set (elements t)" "key n = k" using lookup_Some_iff [OF assms] by auto
  have o: "avl_ok (root t)" "ordered cmp key (inorder (root t))" "nElems t = of_nat (length (inorder (root t)))"
    using assms by (simp_all add: oset_ok_def elements_def)
  obtain r ch where r: "avl_remove cmp key n (root t) = Inr (r, ch)" "avl_ok r"
    "inorder r = remove1 n (inorder (root t))"
    using remove_ok [OF o(1,2)] n(1) unfolding removed_def elements_def by blast
  have rem: "remove1 n xs = filter (\<lambda>e. key e \<noteq> k) xs" if "ordered cmp key xs" "n \<in> set xs" for xs
    using that ordered_key_inj [OF that(1)] ordered_distinct [OF that(1)] n(2)
    by (auto simp: distinct_remove1_removeAll removeAll_filter_not_eq intro!: filter_cong dest: inj_onD)
  have ord: "ordered cmp key (filter P xs)" if "ordered cmp key xs" for P xs
    using that by (simp add: ordered_def sorted_wrt_filter)
  have "nElems t - 1 = of_nat (length (remove1 n (inorder (root t))))"
    using o(3) n(1) by (simp add: length_remove1 elements_def) (cases "inorder (root t)"; simp)
  then show thesis
    using Some r o n rem [OF o(2)] ord
    by (intro that [of "t\<lparr>root := r, nElems := nElems t - 1, iter := []\<rparr>"])
      (auto simp: OSetGen_Remove_def OSetGen_Lookup_def elements_def oset_ok_def split: if_splits)
qed

end

section \<open>Iteration\<close>

lemma pending_simps [simp]:
  "pending [] = []" "pending (v # stack) = visit_elems v @ pending stack"
  by (simp_all add: pending_def)

lemma push_left_spine_ok:
  assumes "stack_ok stack" and "int (length stack) + height t \<le> 32"
  shows "\<exists>stack'. push_left_spine t stack = Inr stack' \<and> stack_ok stack' \<and> pending stack' = inorder t @ pending stack"
  using assms
proof (induction t stack rule: push_left_spine.induct)
  case (2 l e b r stack)
  let ?stack = "(AvlNode l e b r, 2) # stack"
  have h: "height l < height (AvlNode l e b r)" "0 < height (AvlNode l e b r)"
    using height_pos_iff [of "AvlNode l e b r"] by simp_all
  have "length stack < 32" using "2.prems"(2) h(2) by linarith
  then have push: "stackPush (AvlNode l e b r) 2 stack = Inr ?stack"
    by (simp add: stackPush_def STACK_MAX_def)
  have "stack_ok ?stack" using "2.prems" by simp
  moreover have "int (length ?stack) + height l \<le> 32" using "2.prems"(2) h(1) by simp
  ultimately show ?case using "2.IH" [of ?stack] push by auto
qed simp

text \<open>A call of the iterator produces the next pending element, or reports that there is none.\<close>

lemma iter_next_ok:
  assumes "stack_ok stack"
  shows "case pending stack of
     [] \<Rightarrow> iter_next stack = Inr (None, [])
   | x # xs \<Rightarrow> \<exists>stack'. iter_next stack = Inr (Some x, stack') \<and> stack_ok stack' \<and> pending stack' = xs"
  using assms
proof (induction stack rule: iter_next.induct)
  case (1 stack)
  show ?case
  proof (cases stack)
    case Nil
    then show ?thesis by (simp add: iter_next.simps stackPop_def STACK_MAX_def)
  next
    case (Cons v below)
    obtain n i where v: "v = (n, i)" by (cases v)
    then obtain l e b r where n: "n = AvlNode l e b r" using "1.prems" Cons by (cases n) auto
    have ok: "1 \<le> i" "i \<le> 3" "int (length below) + height n \<le> 32" "stack_ok below"
      using "1.prems" Cons v by auto
    have len: "length below < 32" using ok(3) height_pos_iff [of n] n by auto
    have pop: "stackPop stack = Inr (Some (AvlNode l e b r, i), below)"
      using Cons v n ok len by (simp add: stackPop_def STACK_MAX_def)
    consider "i = 1" | "i = 2" | "i = 3" using ok(1,2) by linarith
    then show ?thesis
    proof cases
      case 1
      obtain stack' where s: "push_left_spine n below = Inr stack'" "stack_ok stack'"
        "pending stack' = inorder n @ pending below"
        using push_left_spine_ok [OF ok(4,3)] by blast
      have "iter_next stack = iter_next stack'"
        using 1 pop s(1) n by (simp add: iter_next.simps [of stack])
      moreover have "pending stack = pending stack'" using 1 s(3) Cons v n by simp
      ultimately show ?thesis
        using "1.IH"(1) [OF pop refl refl refl refl 1 s(1) [unfolded n] s(2)] by (simp only:)
    next
      case 2
      have "iter_next stack = Inr (Some e, (AvlNode l e b r, 3) # below)"
        using 2 pop len by (simp add: iter_next.simps [of stack] stackPush_def STACK_MAX_def)
      then show ?thesis using 2 Cons v n ok by simp
    next
      case 3
      have "int (length below) + height r \<le> 32" using ok(3) n by (simp add: max_def split: if_splits)
      then obtain stack' where s: "push_left_spine r below = Inr stack'" "stack_ok stack'"
        "pending stack' = inorder r @ pending below"
        using push_left_spine_ok [OF ok(4)] by blast
      have "iter_next stack = iter_next stack'"
        using 3 pop s(1) n by (simp add: iter_next.simps [of stack])
      moreover have "pending stack = pending stack'" using 3 s(3) Cons v n by simp
      ultimately show ?thesis
        using "1.IH"(2) [OF pop refl refl refl refl _ _ s(1,2)] 3 by (simp only:)
    qed
  qed
qed

lemma drain_pending:
  assumes "stack_ok (iter t)" and "length (pending (iter t)) < n"
  shows "drain n t = Inr (pending (iter t))"
  using assms
proof (induction n arbitrary: t)
  case (Suc n)
  show ?case
  proof (cases "pending (iter t)")
    case Nil
    then show ?thesis using iter_next_ok [OF Suc.prems(1)] by (simp add: OSetGen_Next_def)
  next
    case (Cons x xs)
    then obtain stack' where s: "iter_next (iter t) = Inr (Some x, stack')" "stack_ok stack'" "pending stack' = xs"
      using iter_next_ok [OF Suc.prems(1)] by auto
    have "drain n (t\<lparr>iter := stack'\<rparr>) = Inr xs"
      using Suc.IH [of "t\<lparr>iter := stack'\<rparr>"] s Suc.prems(2) Cons by simp
    then show ?thesis using s(1) Cons by (simp add: OSetGen_Next_def)
  qed
qed simp

lemma length_inorder: "length (inorder t) = nodes t"
  by (induction t) auto

lemma min_nodes_mono: "min_nodes h \<le> min_nodes (Suc h)"
  by (induction h rule: min_nodes.induct) auto

lemma min_nodes_le:
  assumes "avl_ok t"
  shows "min_nodes (nat (height t)) \<le> nodes t"
  using assms
proof (induction t)
  case (AvlNode l e b r)
  let ?hl = "nat (height l)" and ?hr = "nat (height r)"
  have ih: "min_nodes ?hl \<le> nodes l" "min_nodes ?hr \<le> nodes r" using AvlNode by simp_all
  have b: "height l = height r \<or> height l = height r + 1 \<or> height r = height l + 1"
    using AvlNode.prems by auto
  have node: "min_nodes (Suc h) \<le> Suc (min_nodes h + min_nodes k)" if "h = k \<or> h = Suc k" for h k
    using that min_nodes_mono [of "h - 1"] by (cases h) auto
  have "nat (height (AvlNode l e b r)) = Suc (max ?hl ?hr)"
    by (simp add: nat_add_distrib max_def)
  moreover have "?hl = ?hr \<or> ?hl = Suc ?hr \<or> ?hr = Suc ?hl" using b by (auto simp: nat_add_distrib)
  ultimately show ?case
    using node [of ?hl ?hr] node [of ?hr ?hl] ih by (auto simp: max_def add.commute)
qed simp

lemma min_nodes_iter:
  "min_nodes_iter n (int (min_nodes k)) (int (min_nodes (Suc k))) = int (min_nodes (k + n))"
proof (induction n arbitrary: k)
  case (Suc n)
  then show ?case using Suc [of "Suc k"] by (simp add: add_ac)
qed simp

lemma min_nodes_33: "min_nodes 33 = 9227464"
proof -
  have "min_nodes_iter 33 0 1 = 9227464" by code_simp
  then have "int (min_nodes 33) = int 9227464" using min_nodes_iter [of 33 0] by simp
  then show ?thesis by (simp only: of_nat_eq_iff)
qed

lemma min_nodes_mono_le: "h \<le> k \<Longrightarrow> min_nodes h \<le> min_nodes k"
  using min_nodes_mono by (rule lift_Suc_mono_le)

lemma height_le_32:
  assumes "avl_ok t" and "nodes t < 9227464"
  shows "height t \<le> 32"
proof (rule ccontr)
  assume "\<not> height t \<le> 32"
  then have "33 \<le> nat (height t)" by simp
  then have "min_nodes 33 \<le> nodes t" using min_nodes_mono_le min_nodes_le [OF assms(1)] order_trans by blast
  then show False using assms(2) min_nodes_33 by simp
qed

lemma ResetIter_ok:
  assumes "avl_ok (root t)" and "length (elements t) < 9227464"
  obtains t' where "OSetGen_ResetIter t = Inr t'" "stack_ok (iter t')" "pending (iter t') = elements t"
proof -
  have h: "height (root t) \<le> 32" using height_le_32 [OF assms(1)] assms(2) by (simp add: elements_def length_inorder)
  show thesis
  proof (cases "root t")
    case NULL
    then show thesis by (intro that [of "t\<lparr>iter := []\<rparr>"]) (simp_all add: OSetGen_ResetIter_def elements_def)
  next
    case (AvlNode l e b r)
    then show thesis
      using h by (intro that [of "t\<lparr>iter := [(root t, 1)]\<rparr>"])
        (simp_all add: OSetGen_ResetIter_def elements_def stackPush_def STACK_MAX_def)
  qed
qed

context oset_order
begin

lemma iter_at_ok:
  assumes "ordered cmp key (inorder t)" and "stack_ok stack" and "int (length stack) + height t \<le> 32"
  shows "\<exists>stack'. iter_at cmp k t stack = Inr stack' \<and> stack_ok stack' \<and>
    pending stack' = filter (\<lambda>e. cmp k e \<le> 0) (inorder t) @ pending stack"
  using assms
proof (induction t arbitrary: stack)
  case (AvlNode l e b r)
  have o: "ordered cmp key (inorder l)" "ordered cmp key (inorder r)"
    "\<forall>x \<in> set (inorder l). cmp (key x) e < 0" "\<forall>y \<in> set (inorder r). cmp (key e) y < 0"
    using AvlNode.prems(1) by (simp_all add: ordered_append)
  have h: "height l < height (AvlNode l e b r)" "height r < height (AvlNode l e b r)"
    by simp_all
  have "length stack < 32" using AvlNode.prems(3) height_pos_iff [of "AvlNode l e b r"] by auto
  then have push: "stackPush (AvlNode l e b r) 2 stack = Inr ((AvlNode l e b r, 2) # stack)"
    by (simp add: stackPush_def STACK_MAX_def)
  have small: "cmp k x > 0" if "x \<in> set (inorder l)" "0 \<le> cmp k e" for x
  proof -
    have "\<not> cmp k x < 0" using cmp_trans [of k x e] o(3) that by auto
    moreover have "cmp k x \<noteq> 0" using cmp_eq [of k x] o(3) that by auto
    ultimately show ?thesis by linarith
  qed
  have big: "cmp k y < 0" if "y \<in> set (inorder r)" "cmp k e \<le> 0" for y
    using cmp_trans [of k e y] cmp_eq [of k e] o(4) that by (cases "cmp k e = 0") auto
  have fl: "filter (\<lambda>e. cmp k e \<le> 0) (inorder l) = []" if "0 \<le> cmp k e"
    using small that by (fastforce simp: filter_empty_conv)
  have fr: "filter (\<lambda>e. cmp k e \<le> 0) (inorder r) = inorder r" if "cmp k e \<le> 0"
    using big that by (fastforce simp: filter_id_conv)
  have ok: "stack_ok ((AvlNode l e b r, 2) # stack)" using AvlNode.prems by simp
  consider "cmp k e = 0" | "cmp k e < 0" | "0 < cmp k e" by linarith
  then show ?case
  proof cases
    case 1
    then show ?thesis using push ok fl fr by simp
  next
    case 2
    have "int (length ((AvlNode l e b r, 2 :: int) # stack)) + height l \<le> 32" using h AvlNode.prems(3) by simp
    from AvlNode.IH(1) [OF o(1) ok this] show ?thesis using 2 push fr by auto
  next
    case 3
    have "int (length stack) + height r \<le> 32" using h AvlNode.prems(3) by simp
    from AvlNode.IH(2) [OF o(2) AvlNode.prems(2) this] show ?thesis using 3 fl by auto
  qed
qed simp

end

section \<open>Destruction\<close>

lemma push_child_ok:
  assumes "stack_ok stack" and "int (length stack) + height t \<le> 32"
  shows "\<exists>stack'. push_child t stack = Inr stack' \<and> stack_ok stack' \<and> to_free stack' = postorder t @ to_free stack"
proof (cases t)
  case (AvlNode l e b r)
  then have "length stack < 32" using assms(2) height_pos_iff [of t] by auto
  then show ?thesis using AvlNode assms by (auto simp: push_child_def stackPush_def STACK_MAX_def)
qed (simp add: push_child_def assms(1))

lemma destroy_step_ok:
  assumes "stack_ok ((AvlNode l e b r, i) # below)" and "i = 1 \<and> t = l \<and> j = 2 \<or> i = 2 \<and> t = r \<and> j = 3"
  shows "\<exists>stack'. cbind (stackPush (AvlNode l e b r) j below) (push_child t) = Inr stack' \<and> stack_ok stack' \<and>
    to_free stack' = to_free ((AvlNode l e b r, i) # below)"
proof -
  have ok: "int (length below) + height (AvlNode l e b r) \<le> 32" "stack_ok below" using assms(1) by auto
  have h: "height l < height (AvlNode l e b r)" "height r < height (AvlNode l e b r)" by simp_all
  have "length below < 32" using ok(1) height_pos_iff [of "AvlNode l e b r"] by auto
  then have push: "stackPush (AvlNode l e b r) j below = Inr ((AvlNode l e b r, j) # below)"
    using assms(2) by (auto simp: stackPush_def STACK_MAX_def)
  have "stack_ok ((AvlNode l e b r, j) # below)" using ok assms(2) by auto
  moreover have "int (length ((AvlNode l e b r, j) # below)) + height t \<le> 32" using ok(1) h assms(2) by auto
  ultimately show ?thesis
    using push_child_ok [of "(AvlNode l e b r, j) # below" t] push assms(2) by auto
qed

lemma destroy_loop_ok:
  "stack_ok stack \<Longrightarrow> destroy_loop stack freed = Inr (freed @ to_free stack)"
proof (induction stack freed rule: destroy_loop.induct)
  case (1 stack freed)
  show ?case
  proof (cases stack)
    case Nil
    then show ?thesis by (simp add: destroy_loop.simps stackPop_def STACK_MAX_def)
  next
    case (Cons v below)
    obtain n i where v: "v = (n, i)" by (cases v)
    then obtain l e b r where n: "n = AvlNode l e b r" using "1.prems" Cons by (cases n) auto
    have st: "stack = (AvlNode l e b r, i) # below" using Cons v n by simp
    have ok: "stack_ok ((AvlNode l e b r, i) # below)" "1 \<le> i" "i \<le> 3" using "1.prems" st by auto
    have "length below < 32" using ok(1) height_pos_iff [of n] n by auto
    then have pop: "stackPop stack = Inr (Some (AvlNode l e b r, i), below)"
      using st ok by (simp add: stackPop_def STACK_MAX_def)
    consider "i = 1" | "i = 2" | "i = 3" using ok(2,3) by linarith
    then show ?thesis
    proof cases
      case 1
      then obtain stack' where s: "cbind (stackPush (AvlNode l e b r) 2 below) (push_child l) = Inr stack'"
        "stack_ok stack'" "to_free stack' = to_free stack"
        using destroy_step_ok [OF ok(1)] st by blast
      have "destroy_loop stack freed = destroy_loop stack' freed"
        using 1 pop s(1) by (simp add: destroy_loop.simps [of stack])
      then show ?thesis using "1.IH"(1) [OF pop refl refl refl refl 1 s(1,2)] s(3) by simp
    next
      case 2
      then obtain stack' where s: "cbind (stackPush (AvlNode l e b r) 3 below) (push_child r) = Inr stack'"
        "stack_ok stack'" "to_free stack' = to_free stack"
        using destroy_step_ok [OF ok(1)] st by blast
      have "destroy_loop stack freed = destroy_loop stack' freed"
        using 2 pop s(1) by (simp add: destroy_loop.simps [of stack])
      then show ?thesis using "1.IH"(2) [OF pop refl refl refl refl _ 2 s(1,2)] 2 s(3) by simp
    next
      case 3
      have "destroy_loop stack freed = destroy_loop below (freed @ [e])"
        using 3 pop by (simp add: destroy_loop.simps [of stack])
      then show ?thesis using "1.IH"(3) [OF pop refl refl refl refl] 3 ok(1) st by simp
    qed
  qed
qed

lemma mset_postorder: "length (postorder t) = nodes t" "set (postorder t) = set (inorder t)"
  by (induction t) auto

section \<open>A tree whose iteration overflows the stack\<close>

lemma thin_tree_height: "height (thin_tree h k) = int h"
  by (induction h k rule: thin_tree.induct) auto

lemma thin_tree_inorder: "inorder (thin_tree h k) = [k..<k + min_nodes h]"
proof (induction h k rule: thin_tree.induct)
  case (3 h k)
  let ?m = "k + min_nodes (Suc h)"
  have "[k..<k + min_nodes (Suc (Suc h))] = [k..<?m] @ [?m..<?m + (1 + min_nodes h)]"
    using upt_add_eq_append [of k ?m "1 + min_nodes h"] by (simp add: add_ac)
  also have "[?m..<?m + (1 + min_nodes h)] = ?m # [?m + 1..<?m + 1 + min_nodes h]"
    by (simp add: upt_conv_Cons)
  finally show ?case using 3 by simp
qed simp_all

lemma thin_tree_ok: "avl_ok (thin_tree h k)"
  by (induction h k rule: thin_tree.induct) (auto simp: thin_tree_height)

lemma thin_tree_spine:
  assumes "length stack + h = 33" and "0 < h"
  shows "push_left_spine (thin_tree h k) stack = Inl Assert_fail"
  using assms
proof (induction h k arbitrary: stack rule: thin_tree.induct)
  case (2 k)
  then show ?case by (simp add: stackPush_def STACK_MAX_def)
next
  case (3 h k)
  show ?case
  proof (cases "length stack < 32")
    case True
    then show ?thesis using 3 by (simp add: stackPush_def STACK_MAX_def)
  qed (use 3 in auto)
qed simp

interpretation nat_order: oset_order nat_cmp id
  by unfold_locales (auto simp: nat_cmp_def)

interpretation word_order: oset_order fast_cmp id
  by unfold_locales (auto simp: fast_cmp_def split: if_splits)

section \<open>Properties\<close>

text \<open>
  C5: inserting a new word into a well formed set succeeds, keeps the tree balanced, ordered and
  its element count right, and changes membership for that word only.
\<close>

theorem OSetWord_insert_ok:
  assumes "oset_ok fast_cmp id t" and "\<not> OSetWord_Contains t w"
  shows "\<exists>t'. OSetWord_Insert t w = Inr t' \<and> oset_ok fast_cmp id t' \<and>
    (\<forall>v. OSetWord_Contains t' v \<longleftrightarrow> v = w \<or> OSetWord_Contains t v)"
proof -
  have "id w \<notin> id ` set (elements t)"
    using assms word_order.lookup_None_iff [OF assms(1)] by (simp add: OSetWord_Contains_def)
  then obtain t' where t': "OSetGen_Insert fast_cmp id t w = Inr t'" "oset_ok fast_cmp id t'"
    using word_order.OSet_insert [OF assms(1)] by metis
  then show ?thesis
    using word_order.OSet_lookup_insert [OF assms(1) t'(1)]
    by (auto simp: OSetWord_Insert_def OSetWord_Contains_def)
qed

lemma oset_ok_Create [simp]: "oset_ok cmp key OSetGen_Create"
  by (simp add: oset_ok_def OSetGen_Create_def elements_def ordered_def)

theorem OSetWord_insert_ok_witness:
  "\<exists>t'. OSetWord_Insert OSetGen_Create 7 = Inr t' \<and> OSetWord_Contains t' 7"
proof -
  have "\<not> OSetWord_Contains OSetGen_Create 7"
    by (simp add: OSetWord_Contains_def OSetGen_Lookup_def OSetGen_Create_def)
  from OSetWord_insert_ok [OF oset_ok_Create this] show ?thesis by blast
qed

text \<open>
  C12: removing a word from a well formed set, rebalancing at every level, reports whether it was
  there, keeps the set well formed and removes exactly that word.
\<close>

theorem OSetWord_remove_ok:
  assumes "oset_ok fast_cmp id t"
  shows "\<exists>t'. OSetWord_Remove t w = Inr (OSetWord_Contains t w, t') \<and> oset_ok fast_cmp id t' \<and>
    (\<forall>v. OSetWord_Contains t' v \<longleftrightarrow> v \<noteq> w \<and> OSetWord_Contains t v)"
proof -
  obtain t' where t': "OSetGen_Remove fast_cmp id t w = Inr (OSetGen_Lookup fast_cmp t w, t')"
    "oset_ok fast_cmp id t'" "elements t' = filter (\<lambda>e. id e \<noteq> w) (elements t)"
    using word_order.OSet_remove [OF assms] .
  have "OSetWord_Contains t' v \<longleftrightarrow> v \<noteq> w \<and> OSetWord_Contains t v" for v
    using word_order.lookup_None_iff [OF t'(2), of v] word_order.lookup_None_iff [OF assms, of v] t'(3)
    by (auto simp: OSetWord_Contains_def)
  then show ?thesis using t' by (auto simp: OSetWord_Remove_def OSetWord_Contains_def)
qed

theorem OSetWord_remove_ok_witness:
  "\<exists>t t'. OSetWord_Insert OSetGen_Create 7 = Inr t \<and> OSetWord_Remove t 7 = Inr (True, t') \<and> oset_ok fast_cmp id t' \<and>
     \<not> OSetWord_Contains t' 7"
proof -
  have "id 7 \<notin> id ` set (elements (OSetGen_Create :: UWord OSet))"
    by (simp add: OSetGen_Create_def elements_def)
  then obtain t where t: "OSetGen_Insert fast_cmp id OSetGen_Create 7 = Inr t" "oset_ok fast_cmp id t"
    using word_order.OSet_insert [OF oset_ok_Create] by metis
  then have "OSetWord_Contains t 7"
    using word_order.OSet_lookup_insert [OF oset_ok_Create t(1)] by (simp add: OSetWord_Contains_def)
  then show ?thesis
    using OSetWord_remove_ok [OF t(2), of 7] t(1) by (auto simp: OSetWord_Insert_def)
qed

text \<open>
  An iteration over a set of fewer than 9227464 elements goes through without overflowing
  the iterator stack and produces the elements in ascending order, each once.
\<close>

theorem OSet_iteration:
  assumes "avl_ok (root t)" and "length (elements t) < 9227464" and "length (elements t) < n"
  shows "cbind (OSetGen_ResetIter t) (drain n) = Inr (elements t)"
  using ResetIter_ok [OF assms(1,2)] drain_pending assms(3) by (metis cbind_simps(2))

theorem OSet_iteration_witness:
  "cbind (OSetGen_ResetIter (OSetGen_Create\<lparr>root := thin_tree 2 5\<rparr>)) (drain 3) = Inr [5, 6]"
  using OSet_iteration [of "OSetGen_Create\<lparr>root := thin_tree 2 5\<rparr>" 3]
  by (simp add: elements_def numeral_2_eq_2)

text \<open>
  C40: the bound is tight. There is a balanced, ordered set of 9227464 elements on which the first
  call of the iterator fails its stack assertion, although the source says that \<open>2\<^sup>3\<^sup>2\<close> entries
  can be iterated over.
\<close>

theorem OSet_iteration_limit:
  "\<exists>t. oset_ok nat_cmp id t \<and> length (elements t) = 9227464 \<and>
     cbind (OSetGen_ResetIter t) OSetGen_Next = Inl Assert_fail"
proof -
  let ?t = "\<lparr>nElems = 9227464, root = thin_tree 33 0, iter = []\<rparr>"
  have n: "inorder (thin_tree 33 0) = [0..<9227464]"
    using thin_tree_inorder [of 33 0] by (simp only: min_nodes_33 add_0)
  have "sorted_wrt (\<lambda>a b. nat_cmp (id a) b < 0) [i..<j]" for i j :: nat
    by (rule sorted_wrt_mono_rel [OF _ sorted_wrt_upt]) (simp add: nat_cmp_def)
  then have ok: "oset_ok nat_cmp id ?t" "length (elements ?t) = 9227464"
    unfolding oset_ok_def elements_def ordered_def using thin_tree_ok [of 33 0] n by simp_all
  have "thin_tree 33 0 \<noteq> NULL" using thin_tree_height [of 33 0] height_pos_iff [of "thin_tree 33 0"] by simp
  then obtain l e b r where T: "thin_tree 33 0 = AvlNode l e b r" by (cases "thin_tree 33 0") auto
  have "push_left_spine (AvlNode l e b r) [] = Inl Assert_fail"
    using thin_tree_spine [of "[]" 33 0] by (simp only: T) simp
  then have "iter_next [(AvlNode l e b r, 1)] = Inl Assert_fail"
    by (simp only: iter_next.simps [of "[(AvlNode l e b r, 1)]"]) (simp add: stackPop_def STACK_MAX_def)
  then have "cbind (OSetGen_ResetIter ?t) OSetGen_Next = Inl Assert_fail"
    using T by (simp add: OSetGen_ResetIter_def stackPush_def STACK_MAX_def OSetGen_Next_def)
  with ok show ?thesis by blast
qed

text \<open>
  C25: an iteration that is positioned at a key produces exactly the elements that are not below
  the key, in order.
\<close>

theorem OSet_iteration_at:
  assumes "oset_ok fast_cmp id t" and "length (elements t) < 9227464" and "length (elements t) < n"
  shows "cbind (OSetGen_ResetIterAt fast_cmp t k) (drain n) = Inr (filter (\<lambda>w. k \<le> w) (elements t))"
proof -
  have o: "avl_ok (root t)" "ordered fast_cmp id (inorder (root t))"
    using assms(1) by (simp_all add: oset_ok_def elements_def)
  have "height (root t) \<le> 32" using height_le_32 [OF o(1)] assms(2) by (simp add: elements_def length_inorder)
  then obtain stack where s: "iter_at fast_cmp k (root t) [] = Inr stack" "stack_ok stack"
    "pending stack = filter (\<lambda>e. fast_cmp k e \<le> 0) (inorder (root t))"
    using word_order.iter_at_ok [OF o(2), of "[]" k] by auto
  have f: "fast_cmp k e \<le> 0 \<longleftrightarrow> k \<le> e" for e by (auto simp: fast_cmp_def)
  have "length (pending stack) < n"
    using assms(3) le_less_trans [OF length_filter_le] by (auto simp: s(3) elements_def)
  then have "drain n (t\<lparr>iter := stack\<rparr>) = Inr (pending stack)"
    using drain_pending [of "t\<lparr>iter := stack\<rparr>" n] s(2) by simp
  then show ?thesis using s by (simp add: OSetGen_ResetIterAt_def elements_def f)
qed

theorem OSet_iteration_at_witness:
  "cbind (OSetGen_ResetIterAt fast_cmp \<lparr>nElems = 1, root = AvlNode NULL 5 0 NULL, iter = []\<rparr> 3) (drain 2) = Inr [5]"
  using OSet_iteration_at [of "\<lparr>nElems = 1, root = AvlNode NULL 5 0 NULL, iter = []\<rparr>" 2 3]
  by (simp add: oset_ok_def elements_def ordered_def)

text \<open>
  C26: destroying a set frees every node exactly once, children before their parent, and its
  final count assertion holds; a pool whose last user this is needs no traversal.
\<close>

theorem OSet_destroy_ok:
  assumes "oset_ok cmp key t" and "length (elements t) < 9227464"
  shows "OSetGen_Destroy t None = Inr (postorder (root t)) \<and>
    length (postorder (root t)) = length (elements t) \<and> set (postorder (root t)) = set (elements t) \<and>
    OSetGen_Destroy t (Some 0) = Inr []"
proof -
  have o: "avl_ok (root t)" "nElems t = of_nat (length (elements t))"
    using assms(1) by (simp_all add: oset_ok_def)
  have "height (root t) \<le> 32" using height_le_32 [OF o(1)] assms(2) by (simp add: elements_def length_inorder)
  then obtain stack where s: "push_child (root t) [] = Inr stack" "stack_ok stack" "to_free stack = postorder (root t)"
    using push_child_ok [of "[]" "root t"] by auto
  have len: "length (postorder (root t)) = length (elements t)" "set (postorder (root t)) = set (elements t)"
    by (simp_all add: mset_postorder elements_def length_inorder)
  have "ucast (nElems t) = (of_nat (length (elements t)) :: UWord)"
    using assms(2) by (simp add: word_unat_eq_iff o(2) unat_of_nat unsigned_ucast_eq take_bit_nat_eq_self)
  then show ?thesis
    using s destroy_loop_ok [OF s(2), of "[]"] len by (simp add: OSetGen_Destroy_def)
qed

theorem OSet_destroy_ok_witness:
  "OSetGen_Destroy \<lparr>nElems = 1, root = AvlNode NULL 5 0 NULL, iter = []\<rparr> None = Inr [5 :: UWord]"
  using OSet_destroy_ok [of fast_cmp id "\<lparr>nElems = 1, root = AvlNode NULL 5 0 NULL, iter = []\<rparr>"]
  by (simp add: oset_ok_def elements_def ordered_def)

end
