(* ===== verification/CacheCC.thy ===== *)
theory CacheCC
  imports CacheSim BranchPred OSet
begin

text \<open>
  The tables of \<open>valgrind/cachegrind/cg_main.c\<close> and the helper functions that the instrumented
  code calls: the counters of each source line, the interned strings, the table of translated
  blocks, and the \<open>log_...\<close> functions that run the cache and branch simulators.

  A line counter is a node of the ordered set \<open>CC_table\<close> that instructions point to, and it is
  modified in place. Its address is represented by its source location, which is unique in the
  table; \<open>ccs\<close> is the store from addresses to counters. Debug information is read by code
  outside this component: the functions that look up an address are parameters. Line numbers of
  debug information are below \<open>2\<^sup>3\<^sup>1\<close>, so their difference does not overflow.
\<close>

section \<open>Data\<close>

record CacheCC =
  cc_a :: ULong
  cc_m1 :: ULong
  cc_mL :: ULong

record BranchCC =
  cc_b :: ULong
  cc_mp :: ULong

record CodeLoc =
  loc_file :: string
  loc_fn :: string
  loc_line :: int

record LineCC =
  line_Ir :: CacheCC
  line_Dr :: CacheCC
  line_Dw :: CacheCC
  line_Bc :: BranchCC
  line_Bi :: BranchCC

record InstrInfo =
  instr_addr :: Addr
  instr_len :: UChar
  parent :: CodeLoc

record SB_info =
  SB_addr :: Addr
  n_instrs :: int

record cgstats =
  distinct_instrsGen :: int
  distinct_instrsNoX :: int
  full_debugs :: int
  file_line_debugs :: int
  fn_debugs :: int
  no_debugs :: int

record cg =
  CC_table :: "CodeLoc OSet"
  ccs :: "CodeLoc \<Rightarrow> LineCC"
  instrInfoTable :: "SB_info OSet"
  stringTable :: "string OSet"
  sim :: cachesim
  bp :: branchpred
  stats :: cgstats

record debuginfo =
  get_filename_linenum :: "Addr \<Rightarrow> (string \<times> string \<times> UInt) option"
  get_fnname :: "Addr \<Rightarrow> string option"

section \<open>Comparison functions\<close>

text \<open>
  The difference of two line numbers is taken in integers. The line numbers of debug information have
  20 bits (\<open>MAX_LINENO\<close> in \<open>m_debuginfo\<close>), so the subtraction of the source does not overflow.
\<close>

definition cmp_CodeLoc_LineCC :: "CodeLoc \<Rightarrow> CodeLoc \<Rightarrow> int" where
  "cmp_CodeLoc_LineCC a b =
     (let res = VG_strcmp (loc_file a) (loc_file b) in
      if 0 \<noteq> res then res else
      let res = VG_strcmp (loc_fn a) (loc_fn b) in
      if 0 \<noteq> res then res else
      loc_line a - loc_line b)"

definition stringCmp :: "string \<Rightarrow> string \<Rightarrow> int" where
  "stringCmp key elem = VG_strcmp key elem"

definition cmp_SB :: "Addr \<Rightarrow> SB_info \<Rightarrow> int" where
  "cmp_SB k sb = fast_cmp k (SB_addr sb)"

section \<open>String table and line counters\<close>

definition get_perm_string :: "string \<Rightarrow> cg \<Rightarrow> (string \<times> cg) cres" where
  "get_perm_string s st =
     (case OSetGen_Lookup stringCmp (stringTable st) s of
        Some s' \<Rightarrow> Inr (s', st)
      | None \<Rightarrow> cbind (OSetGen_Insert stringCmp id (stringTable st) s) (\<lambda>t.
          Inr (s, st\<lparr>stringTable := t\<rparr>)))"

definition get_debug_info ::
  "debuginfo \<Rightarrow> Addr \<Rightarrow> cg \<Rightarrow> (string \<times> string \<times> string \<times> UInt) \<times> cg" where
  "get_debug_info di a st =
     (let found_file_line = get_filename_linenum di a;
          found_fn = get_fnname di a;
          (file, dir, line) = (case found_file_line of Some r \<Rightarrow> r | None \<Rightarrow> (''???'', '''', 0));
          fn = (case found_fn of Some f \<Rightarrow> f | None \<Rightarrow> ''???'');
          s = stats st;
          s = (if found_file_line \<noteq> None then
                 (if found_fn \<noteq> None then s\<lparr>full_debugs := full_debugs s + 1\<rparr>
                  else s\<lparr>file_line_debugs := file_line_debugs s + 1\<rparr>)
               else
                 (if found_fn \<noteq> None then s\<lparr>fn_debugs := fn_debugs s + 1\<rparr>
                  else s\<lparr>no_debugs := no_debugs s + 1\<rparr>))
      in ((dir, file, fn, line), st\<lparr>stats := s\<rparr>))"

definition zero_cache :: CacheCC where
  "zero_cache = \<lparr>cc_a = 0, cc_m1 = 0, cc_mL = 0\<rparr>"

definition zero_branch :: BranchCC where
  "zero_branch = \<lparr>cc_b = 0, cc_mp = 0\<rparr>"

definition zero_LineCC :: LineCC where
  "zero_LineCC = \<lparr>line_Ir = zero_cache, line_Dr = zero_cache, line_Dw = zero_cache,
     line_Bc = zero_branch, line_Bi = zero_branch\<rparr>"

definition absfile :: "string \<Rightarrow> string \<Rightarrow> string" where
  "absfile dir file = (if dir \<noteq> [] then dir @ ''/'' @ file else file)"

definition get_lineCC :: "debuginfo \<Rightarrow> Addr \<Rightarrow> cg \<Rightarrow> (CodeLoc \<times> cg) cres" where
  "get_lineCC di origAddr st =
     (let ((dir, file, fn, line), st) = get_debug_info di origAddr st;
          loc = \<lparr>loc_file = absfile dir file, loc_fn = fn, loc_line = sint line\<rparr>
      in case OSetGen_Lookup cmp_CodeLoc_LineCC (CC_table st) loc of
           Some lineCC \<Rightarrow> Inr (lineCC, st)
         | None \<Rightarrow>
             cbind (get_perm_string (loc_file loc) st) (\<lambda>(pfile, st).
             cbind (get_perm_string (loc_fn loc) st) (\<lambda>(pfn, st).
             let lineCC = \<lparr>loc_file = pfile, loc_fn = pfn, loc_line = loc_line loc\<rparr> in
             cbind (OSetGen_Insert cmp_CodeLoc_LineCC id (CC_table st) lineCC) (\<lambda>t.
             Inr (lineCC, st\<lparr>CC_table := t, ccs := (ccs st)(lineCC := zero_LineCC)\<rparr>)))))"

section \<open>Helpers called from the instrumented code\<close>

definition upd_cc :: "CodeLoc \<Rightarrow> (LineCC \<Rightarrow> LineCC) \<Rightarrow> cg \<Rightarrow> cg" where
  "upd_cc p f st = st\<lparr>ccs := (ccs st)(p := f (ccs st p))\<rparr>"

definition count_a :: "CacheCC \<Rightarrow> CacheCC" where
  "count_a c = c\<lparr>cc_a := cc_a c + 1\<rparr>"

definition log_Ir_a :: "InstrInfo \<Rightarrow> cg \<Rightarrow> cg" where
  "log_Ir_a n = upd_cc (parent n) (\<lambda>l. l\<lparr>line_Ir := count_a (line_Ir l)\<rparr>)"

definition log_1Ir :: "InstrInfo \<Rightarrow> cg \<Rightarrow> cg cres" where
  "log_1Ir n st = Inr (log_Ir_a n st)"

definition log_2Ir :: "InstrInfo \<Rightarrow> InstrInfo \<Rightarrow> cg \<Rightarrow> cg cres" where
  "log_2Ir n n2 st = Inr (log_Ir_a n2 (log_Ir_a n st))"

definition log_3Ir :: "InstrInfo \<Rightarrow> InstrInfo \<Rightarrow> InstrInfo \<Rightarrow> cg \<Rightarrow> cg cres" where
  "log_3Ir n n2 n3 st = Inr (log_Ir_a n3 (log_Ir_a n2 (log_Ir_a n st)))"

text \<open>
  A simulator call that counts its misses in the instruction reads, data reads or data writes of
  a line, followed by the increment of the access count.
\<close>

definition ref_Ir ::
  "(cachesim \<Rightarrow> ULong \<Rightarrow> ULong \<Rightarrow> (cachesim \<times> ULong \<times> ULong) cres) \<Rightarrow> InstrInfo \<Rightarrow> cg \<Rightarrow> cg cres" where
  "ref_Ir doref n st =
     (let c = line_Ir (ccs st (parent n)) in
      cbind (doref (sim st) (cc_m1 c) (cc_mL c)) (\<lambda>(s, m1, mL).
      Inr (log_Ir_a n (upd_cc (parent n) (\<lambda>l. l\<lparr>line_Ir := (line_Ir l)\<lparr>cc_m1 := m1, cc_mL := mL\<rparr>\<rparr>)
             (st\<lparr>sim := s\<rparr>)))))"

definition ref_Dr :: "Addr \<Rightarrow> int \<Rightarrow> InstrInfo \<Rightarrow> cg \<Rightarrow> cg cres" where
  "ref_Dr data_addr data_size n st =
     (let c = line_Dr (ccs st (parent n)) in
      cbind (cachesim_D1_doref data_addr (word_of_int data_size) (sim st) (cc_m1 c) (cc_mL c)) (\<lambda>(s, m1, mL).
      Inr (upd_cc (parent n) (\<lambda>l. l\<lparr>line_Dr := count_a ((line_Dr l)\<lparr>cc_m1 := m1, cc_mL := mL\<rparr>)\<rparr>)
             (st\<lparr>sim := s\<rparr>))))"

definition ref_Dw :: "Addr \<Rightarrow> int \<Rightarrow> InstrInfo \<Rightarrow> cg \<Rightarrow> cg cres" where
  "ref_Dw data_addr data_size n st =
     (let c = line_Dw (ccs st (parent n)) in
      cbind (cachesim_D1_doref data_addr (word_of_int data_size) (sim st) (cc_m1 c) (cc_mL c)) (\<lambda>(s, m1, mL).
      Inr (upd_cc (parent n) (\<lambda>l. l\<lparr>line_Dw := count_a ((line_Dw l)\<lparr>cc_m1 := m1, cc_mL := mL\<rparr>)\<rparr>)
             (st\<lparr>sim := s\<rparr>))))"

definition ref_IrNoX :: "InstrInfo \<Rightarrow> cg \<Rightarrow> cg cres" where
  "ref_IrNoX n = ref_Ir (cachesim_I1_doref_NoX (instr_addr n) (instr_len n)) n"

definition log_1IrGen_0D_cache_access :: "InstrInfo \<Rightarrow> cg \<Rightarrow> cg cres" where
  "log_1IrGen_0D_cache_access n = ref_Ir (cachesim_I1_doref_Gen (instr_addr n) (instr_len n)) n"

definition log_1IrNoX_0D_cache_access :: "InstrInfo \<Rightarrow> cg \<Rightarrow> cg cres" where
  "log_1IrNoX_0D_cache_access n st = ref_IrNoX n st"

definition log_2IrNoX_0D_cache_access :: "InstrInfo \<Rightarrow> InstrInfo \<Rightarrow> cg \<Rightarrow> cg cres" where
  "log_2IrNoX_0D_cache_access n n2 st = cbind (ref_IrNoX n st) (ref_IrNoX n2)"

definition log_3IrNoX_0D_cache_access :: "InstrInfo \<Rightarrow> InstrInfo \<Rightarrow> InstrInfo \<Rightarrow> cg \<Rightarrow> cg cres" where
  "log_3IrNoX_0D_cache_access n n2 n3 st =
     cbind (ref_IrNoX n st) (\<lambda>st. cbind (ref_IrNoX n2 st) (ref_IrNoX n3))"

definition log_1IrNoX_1Dr_cache_access :: "InstrInfo \<Rightarrow> Addr \<Rightarrow> int \<Rightarrow> cg \<Rightarrow> cg cres" where
  "log_1IrNoX_1Dr_cache_access n data_addr data_size st =
     cbind (ref_IrNoX n st) (ref_Dr data_addr data_size n)"

definition log_1IrNoX_1Dw_cache_access :: "InstrInfo \<Rightarrow> Addr \<Rightarrow> int \<Rightarrow> cg \<Rightarrow> cg cres" where
  "log_1IrNoX_1Dw_cache_access n data_addr data_size st =
     cbind (ref_IrNoX n st) (ref_Dw data_addr data_size n)"

definition log_0Ir_1Dr_cache_access :: "InstrInfo \<Rightarrow> Addr \<Rightarrow> int \<Rightarrow> cg \<Rightarrow> cg cres" where
  "log_0Ir_1Dr_cache_access n data_addr data_size = ref_Dr data_addr data_size n"

definition log_0Ir_1Dw_cache_access :: "InstrInfo \<Rightarrow> Addr \<Rightarrow> int \<Rightarrow> cg \<Rightarrow> cg cres" where
  "log_0Ir_1Dw_cache_access n data_addr data_size = ref_Dw data_addr data_size n"

definition log_cond_branch :: "VGA_arch \<Rightarrow> InstrInfo \<Rightarrow> int \<Rightarrow> cg \<Rightarrow> cg cres" where
  "log_cond_branch arch n taken st =
     (let st = upd_cc (parent n) (\<lambda>l. l\<lparr>line_Bc := (line_Bc l)\<lparr>cc_b := cc_b (line_Bc l) + 1\<rparr>\<rparr>) st in
      cbind (do_cond_branch_predict arch (instr_addr n) taken (bp st)) (\<lambda>(m, b).
      Inr (upd_cc (parent n) (\<lambda>l. l\<lparr>line_Bc := (line_Bc l)\<lparr>cc_mp := cc_mp (line_Bc l) + (1 AND m)\<rparr>\<rparr>)
             (st\<lparr>bp := b\<rparr>))))"

definition log_ind_branch :: "VGA_arch \<Rightarrow> InstrInfo \<Rightarrow> Addr \<Rightarrow> cg \<Rightarrow> cg cres" where
  "log_ind_branch arch n actual_dst st =
     (let st = upd_cc (parent n) (\<lambda>l. l\<lparr>line_Bi := (line_Bi l)\<lparr>cc_b := cc_b (line_Bi l) + 1\<rparr>\<rparr>) st in
      cbind (do_ind_branch_predict arch (instr_addr n) actual_dst (bp st)) (\<lambda>(m, b).
      Inr (upd_cc (parent n) (\<lambda>l. l\<lparr>line_Bi := (line_Bi l)\<lparr>cc_mp := cc_mp (line_Bi l) + (1 AND m)\<rparr>\<rparr>)
             (st\<lparr>bp := b\<rparr>))))"

section \<open>Invariants\<close>

text \<open>
  The three tables are ordered sets, and the strings of every line counter are interned.
\<close>

definition tables_ok :: "cg \<Rightarrow> bool" where
  "tables_ok st \<longleftrightarrow>
     oset_ok cmp_CodeLoc_LineCC id (CC_table st) \<and> oset_ok stringCmp id (stringTable st) \<and>
     oset_ok cmp_SB SB_addr (instrInfoTable st) \<and>
     (\<forall>l \<in> set (elements (CC_table st)).
        loc_file l \<in> set (elements (stringTable st)) \<and> loc_fn l \<in> set (elements (stringTable st)))"

text \<open>The location that debug information gives for an address.\<close>

definition loc_of :: "debuginfo \<Rightarrow> Addr \<Rightarrow> CodeLoc" where
  "loc_of di a =
     (let (file, dir, line) = (case get_filename_linenum di a of Some r \<Rightarrow> r | None \<Rightarrow> (''???'', '''', 0));
          fn = (case get_fnname di a of Some f \<Rightarrow> f | None \<Rightarrow> ''???'')
      in \<lparr>loc_file = absfile dir file, loc_fn = fn, loc_line = sint line\<rparr>)"

text \<open>Misses do not exceed references, and at most \<open>n\<close> references have been counted.\<close>

definition cache_bounded :: "nat \<Rightarrow> CacheCC \<Rightarrow> bool" where
  "cache_bounded n c \<longleftrightarrow>
     unat (cc_mL c) \<le> unat (cc_m1 c) \<and> unat (cc_m1 c) \<le> unat (cc_a c) \<and> unat (cc_a c) \<le> n"

definition branch_bounded :: "nat \<Rightarrow> BranchCC \<Rightarrow> bool" where
  "branch_bounded n c \<longleftrightarrow> unat (cc_mp c) \<le> unat (cc_b c) \<and> unat (cc_b c) \<le> n"

definition line_bounded :: "nat \<Rightarrow> LineCC \<Rightarrow> bool" where
  "line_bounded n l \<longleftrightarrow> cache_bounded n (line_Ir l) \<and> cache_bounded n (line_Dr l) \<and>
     cache_bounded n (line_Dw l) \<and> branch_bounded n (line_Bc l) \<and> branch_bounded n (line_Bi l)"

definition line_sizes :: "cachesim \<Rightarrow> int \<times> int \<times> int" where
  "line_sizes s = (c2_line_size (sim_I1 s), c2_line_size (sim_D1 s), c2_line_size (sim_LL s))"

definition run_ok :: "nat \<Rightarrow> int \<times> int \<times> int \<Rightarrow> cg \<Rightarrow> bool" where
  "run_ok n ls st \<longleftrightarrow> sim_ok (sim st) \<and> line_sizes (sim st) = ls \<and> bp_ok (bp st) \<and>
     (\<forall>p. line_bounded n (ccs st p))"

text \<open>A reference of \<open>sz\<close> bytes at \<open>a\<close> is within the address space and not longer than a line.\<close>

definition data_fits :: "int \<times> int \<times> int \<Rightarrow> Addr \<Rightarrow> UChar \<Rightarrow> bool" where
  "data_fits ls a sz \<longleftrightarrow> 0 < sz \<and> int (unat sz) \<le> fst (snd ls) \<and> int (unat sz) \<le> snd (snd ls) \<and>
     unat a + unat sz \<le> 2 ^ 64"

definition instr_fits :: "int \<times> int \<times> int \<Rightarrow> InstrInfo \<Rightarrow> bool" where
  "instr_fits ls n \<longleftrightarrow> 0 < instr_len n \<and> int (unat (instr_len n)) \<le> fst ls \<and>
     int (unat (instr_len n)) \<le> snd (snd ls) \<and> unat (instr_addr n) + unat (instr_len n) \<le> 2 ^ 64"

text \<open>The tables and predictors at startup.\<close>

definition empty_cg :: "cachesim \<Rightarrow> cg" where
  "empty_cg s = \<lparr>CC_table = OSetGen_Create, ccs = \<lambda>_. zero_LineCC, instrInfoTable = OSetGen_Create,
     stringTable = OSetGen_Create, sim = s, bp = branchpred_init,
     stats = \<lparr>distinct_instrsGen = 0, distinct_instrsNoX = 0, full_debugs = 0, file_line_debugs = 0,
       fn_debugs = 0, no_debugs = 0\<rparr>\<rparr>"

section \<open>Comparison laws\<close>

lemma VG_strcmp_neg_swap: "VG_strcmp a b < 0 \<longleftrightarrow> 0 < VG_strcmp b a"
  using VG_strcmp_swap [of a b] by simp

interpretation string_order: oset_order stringCmp id
proof unfold_locales
  fix k a b :: string
  show "stringCmp k a = 0 \<longleftrightarrow> k = id a" by (simp add: stringCmp_def)
  show "stringCmp (id a) b < 0 \<longleftrightarrow> 0 < stringCmp (id b) a"
    by (simp add: stringCmp_def VG_strcmp_neg_swap)
  show "stringCmp k a < 0 \<Longrightarrow> stringCmp (id a) b < 0 \<Longrightarrow> stringCmp k b < 0"
    by (simp add: stringCmp_def) (rule VG_strcmp_trans)
qed

lemma cmp_CodeLoc_less:
  "cmp_CodeLoc_LineCC a b < 0 \<longleftrightarrow>
     VG_strcmp (loc_file a) (loc_file b) < 0 \<or>
     loc_file a = loc_file b \<and> (VG_strcmp (loc_fn a) (loc_fn b) < 0 \<or>
       loc_fn a = loc_fn b \<and> loc_line a < loc_line b)"
  by (auto simp: cmp_CodeLoc_LineCC_def Let_def VG_strcmp_refl)

lemma cmp_CodeLoc_swap: "cmp_CodeLoc_LineCC b a = - cmp_CodeLoc_LineCC a b"
  using VG_strcmp_swap [of "loc_file a" "loc_file b"] VG_strcmp_swap [of "loc_fn a" "loc_fn b"]
  by (simp add: cmp_CodeLoc_LineCC_def Let_def)

lemma cmp_CodeLoc_eq: "cmp_CodeLoc_LineCC a b = 0 \<longleftrightarrow> a = b"
  by (cases a; cases b) (simp add: cmp_CodeLoc_LineCC_def Let_def)

lemma cmp_CodeLoc_trans:
  assumes "cmp_CodeLoc_LineCC a b < 0" and "cmp_CodeLoc_LineCC b c < 0"
  shows "cmp_CodeLoc_LineCC a c < 0"
  using assms VG_strcmp_trans [of "loc_file a" "loc_file b" "loc_file c"]
    VG_strcmp_trans [of "loc_fn a" "loc_fn b" "loc_fn c"]
  unfolding cmp_CodeLoc_less by (elim disjE conjE) simp_all

interpretation line_order: oset_order cmp_CodeLoc_LineCC id
proof unfold_locales
  fix k a b :: CodeLoc
  show "cmp_CodeLoc_LineCC k a = 0 \<longleftrightarrow> k = id a" by (simp add: cmp_CodeLoc_eq)
  show "cmp_CodeLoc_LineCC (id a) b < 0 \<longleftrightarrow> 0 < cmp_CodeLoc_LineCC (id b) a"
    using cmp_CodeLoc_swap [of a b] by simp
  show "cmp_CodeLoc_LineCC k a < 0 \<Longrightarrow> cmp_CodeLoc_LineCC (id a) b < 0 \<Longrightarrow> cmp_CodeLoc_LineCC k b < 0"
    using cmp_CodeLoc_trans by simp
qed

interpretation SB_order: oset_order cmp_SB SB_addr
proof unfold_locales
  fix k :: Addr and a b :: SB_info
  show "cmp_SB k a = 0 \<longleftrightarrow> k = SB_addr a"
    using word_order.cmp_eq [of k "SB_addr a"] by (simp add: cmp_SB_def)
  show "cmp_SB (SB_addr a) b < 0 \<longleftrightarrow> 0 < cmp_SB (SB_addr b) a"
    using word_order.cmp_swap [of "SB_addr a" "SB_addr b"] by (simp add: cmp_SB_def)
  show "cmp_SB k a < 0 \<Longrightarrow> cmp_SB (SB_addr a) b < 0 \<Longrightarrow> cmp_SB k b < 0"
    using word_order.cmp_trans [of k "SB_addr a" "SB_addr b"] by (simp add: cmp_SB_def)
qed

section \<open>Tables\<close>

lemma get_perm_string_ok:
  assumes "oset_ok stringCmp id (stringTable st)"
  obtains t where "get_perm_string s st = Inr (s, st\<lparr>stringTable := t\<rparr>)" "oset_ok stringCmp id t"
    "set (elements t) = insert s (set (elements (stringTable st)))"
proof (cases "OSetGen_Lookup stringCmp (stringTable st) s")
  case None
  then have "id s \<notin> id ` set (elements (stringTable st))"
    using string_order.lookup_None_iff [OF assms] by simp
  then obtain t where "OSetGen_Insert stringCmp id (stringTable st) s = Inr t" "oset_ok stringCmp id t"
    "elements t = ins_list stringCmp id s (elements (stringTable st))"
    using string_order.OSet_insert [OF assms, of s] by blast
  then show thesis
    using None string_order.ins_list_set by (intro that [of t]) (simp_all add: get_perm_string_def)
next
  case (Some s')
  then have "s' = s" "s \<in> set (elements (stringTable st))"
    using string_order.lookup_Some_iff [OF assms] by auto
  then show thesis
    using Some assms by (intro that [of "stringTable st"]) (auto simp: get_perm_string_def)
qed

lemma get_debug_info_loc:
  "get_debug_info di a st = ((dir, file, fn, line), st') \<Longrightarrow>
     loc_of di a = \<lparr>loc_file = absfile dir file, loc_fn = fn, loc_line = sint line\<rparr> \<and>
     (\<exists>s. st' = st\<lparr>stats := s\<rparr>)"
  by (auto simp: get_debug_info_def loc_of_def Let_def split: prod.splits option.splits)

lemma get_lineCC_cases:
  assumes "tables_ok st"
  obtains st' where "get_lineCC di a st = Inr (loc_of di a, st')" "tables_ok st'"
    "set (elements (CC_table st')) = insert (loc_of di a) (set (elements (CC_table st)))"
    "ccs st' = (if loc_of di a \<in> set (elements (CC_table st)) then ccs st
                else (ccs st)(loc_of di a := zero_LineCC))"
    "instrInfoTable st' = instrInfoTable st" "sim st' = sim st" "bp st' = bp st"
proof -
  obtain dir fl fn ln st1 where d: "get_debug_info di a st = ((dir, fl, fn, ln), st1)"
    by (metis prod.exhaust)
  then obtain s where loc: "loc_of di a = \<lparr>loc_file = absfile dir fl, loc_fn = fn, loc_line = sint ln\<rparr>"
    and st1: "st1 = st\<lparr>stats := s\<rparr>" using get_debug_info_loc by metis
  have o: "oset_ok cmp_CodeLoc_LineCC id (CC_table st)" "oset_ok stringCmp id (stringTable st)"
    using assms by (simp_all add: tables_ok_def)
  show thesis
  proof (cases "OSetGen_Lookup cmp_CodeLoc_LineCC (CC_table st) (loc_of di a)")
    case (Some l)
    then have l: "l = loc_of di a" "loc_of di a \<in> set (elements (CC_table st))"
      using line_order.lookup_Some_iff [OF o(1)] by auto
    show thesis
      using Some l assms unfolding loc
      by (intro that [of st1]) (auto simp: get_lineCC_def d loc st1 tables_ok_def)
  next
    case None
    then have new: "id (loc_of di a) \<notin> id ` set (elements (CC_table st))"
      using line_order.lookup_None_iff [OF o(1)] by simp
    obtain t1 where t1: "get_perm_string (absfile dir fl) st1 = Inr (absfile dir fl, st1\<lparr>stringTable := t1\<rparr>)"
      "oset_ok stringCmp id t1" "set (elements t1) = insert (absfile dir fl) (set (elements (stringTable st)))"
      using get_perm_string_ok [of st1 "absfile dir fl"] o(2) by (auto simp: st1)
    obtain t2 where t2: "get_perm_string fn (st1\<lparr>stringTable := t1\<rparr>) = Inr (fn, st1\<lparr>stringTable := t2\<rparr>)"
      "oset_ok stringCmp id t2" "set (elements t2) = insert fn (set (elements t1))"
      using get_perm_string_ok [of "st1\<lparr>stringTable := t1\<rparr>" fn] t1(2) by auto
    obtain c where c: "OSetGen_Insert cmp_CodeLoc_LineCC id (CC_table st) (loc_of di a) = Inr c"
      "oset_ok cmp_CodeLoc_LineCC id c"
      "elements c = ins_list cmp_CodeLoc_LineCC id (loc_of di a) (elements (CC_table st))"
      using line_order.OSet_insert [OF o(1) new] by blast
    show thesis
      using None new t1 t2 c assms line_order.ins_list_set
      by (intro that [of "st1\<lparr>stringTable := t2, CC_table := c, ccs := (ccs st)(loc_of di a := zero_LineCC)\<rparr>"])
        (auto simp: get_lineCC_def d loc st1 tables_ok_def Let_def)
  qed
qed

section \<open>Counters\<close>

lemma line_size_upd: "c' = c\<lparr>c2_tags := c2_tags c'\<rparr> \<Longrightarrow> c2_line_size c' = c2_line_size c"
  by (metis cache_t2.select_convs(3) cache_t2.surjective cache_t2.update_convs(9))

lemma data_fits_ref:
  assumes "data_fits (line_sizes s) a sz"
  shows "ref_fits (sim_D1 s) (a, sz)" "ref_fits (sim_LL s) (a, sz)"
  using assms by (simp_all add: data_fits_def line_sizes_def ref_fits_def)

lemma instr_fits_ref:
  assumes "instr_fits (line_sizes s) n"
  shows "ref_fits (sim_I1 s) (instr_addr n, instr_len n)" "ref_fits (sim_LL s) (instr_addr n, instr_len n)"
  using assms by (simp_all add: instr_fits_def line_sizes_def ref_fits_def)

lemma D1_step:
  assumes "sim_ok s" and "data_fits (line_sizes s) a sz"
  obtains s' m1' mL' where "cachesim_D1_doref a sz s m1 mL = Inr (s', m1', mL')" "sim_ok s'"
    "line_sizes s' = line_sizes s" "counts_ok m1 mL m1' mL'"
proof -
  have ok: "cache_ok (sim_I1 s)" "cache_ok (sim_D1 s)" "cache_ok (sim_LL s)"
    using assms(1) by (simp_all add: sim_ok_def)
  obtain m c where c: "cachesim_ref_is_miss (sim_D1 s) a sz = Inr (m, c)" "cache_ok c"
    "c2_line_size c = c2_line_size (sim_D1 s)"
    using ref_total [OF ok(2) data_fits_ref(1) [OF assms(2)]] line_size_upd by metis
  obtain mL2 l where l: "cachesim_ref_is_miss (sim_LL s) a sz = Inr (mL2, l)" "cache_ok l"
    "c2_line_size l = c2_line_size (sim_LL s)"
    using ref_total [OF ok(3) data_fits_ref(2) [OF assms(2)]] line_size_upd by metis
  show thesis
    using c l ok
    by (intro that [of "if m then s\<lparr>sim_D1 := c, sim_LL := l\<rparr> else s\<lparr>sim_D1 := c\<rparr>"
        "if m then m1 + 1 else m1" "if m \<and> mL2 then mL + 1 else mL"]) (auto simp: cachesim_D1_doref_def sim_ok_def line_sizes_def counts_ok_def)
qed

lemma I1_Gen_step:
  assumes "sim_ok s" and "instr_fits (line_sizes s) n"
  obtains s' m1' mL' where
    "cachesim_I1_doref_Gen (instr_addr n) (instr_len n) s m1 mL = Inr (s', m1', mL')" "sim_ok s'"
    "line_sizes s' = line_sizes s" "counts_ok m1 mL m1' mL'"
proof -
  have ok: "cache_ok (sim_I1 s)" "cache_ok (sim_D1 s)" "cache_ok (sim_LL s)"
    using assms(1) by (simp_all add: sim_ok_def)
  obtain m c where c: "cachesim_ref_is_miss (sim_I1 s) (instr_addr n) (instr_len n) = Inr (m, c)" "cache_ok c"
    "c2_line_size c = c2_line_size (sim_I1 s)"
    using ref_total [OF ok(1) instr_fits_ref(1) [OF assms(2)]] line_size_upd by metis
  obtain mL2 l where l: "cachesim_ref_is_miss (sim_LL s) (instr_addr n) (instr_len n) = Inr (mL2, l)"
    "cache_ok l" "c2_line_size l = c2_line_size (sim_LL s)"
    using ref_total [OF ok(3) instr_fits_ref(2) [OF assms(2)]] line_size_upd by metis
  show thesis
    using c l ok
    by (intro that [of "if m then s\<lparr>sim_I1 := c, sim_LL := l\<rparr> else s\<lparr>sim_I1 := c\<rparr>"
        "if m then m1 + 1 else m1" "if m \<and> mL2 then mL + 1 else mL"]) (auto simp: cachesim_I1_doref_Gen_def sim_ok_def line_sizes_def counts_ok_def)
qed

lemma I1_NoX_step:
  assumes "sim_ok s"
  obtains s' m1' mL' where "cachesim_I1_doref_NoX a sz s m1 mL = Inr (s', m1', mL')" "sim_ok s'"
    "line_sizes s' = line_sizes s" "counts_ok m1 mL m1' mL'"
proof -
  have ok: "cache_ok (sim_I1 s)" "cache_ok (sim_D1 s)" "cache_ok (sim_LL s)"
    using assms(1) by (simp_all add: sim_ok_def)
  define b where "b = block_of (sim_I1 s) a"
  obtain m c where c: "touch_block (sim_I1 s) b = Inr (m, c)" "cache_ok c"
    "c2_line_size c = c2_line_size (sim_I1 s)"
    using touch_block_refines [OF ok(1)] line_size_upd by metis
  obtain mL2 l where l: "touch_block (sim_LL s) b = Inr (mL2, l)" "cache_ok l"
    "c2_line_size l = c2_line_size (sim_LL s)"
    using touch_block_refines [OF ok(3)] line_size_upd by metis
  show thesis
    using c l ok unfolding touch_block_def
    by (intro that [of "if m then s\<lparr>sim_I1 := c, sim_LL := l\<rparr> else s\<lparr>sim_I1 := c\<rparr>"
        "if m then m1 + 1 else m1" "if m \<and> mL2 then mL + 1 else mL"])
      (auto simp: cachesim_I1_doref_NoX_def sim_ok_def line_sizes_def counts_ok_def b_def [symmetric] Let_def)
qed

lemma unat_incr: "unat (x :: ULong) + 1 < 2 ^ 64 \<Longrightarrow> unat (x + 1) = unat x + 1"
  by (simp add: unat_word_ariths)

lemma cache_bounded_mono: "cache_bounded n c \<Longrightarrow> cache_bounded (Suc n) c"
  by (auto simp: cache_bounded_def)

lemma branch_bounded_mono: "branch_bounded n c \<Longrightarrow> branch_bounded (Suc n) c"
  by (auto simp: branch_bounded_def)

lemma line_bounded_mono: "line_bounded n l \<Longrightarrow> line_bounded (Suc n) l"
  by (auto simp: line_bounded_def intro: cache_bounded_mono branch_bounded_mono)

lemma cache_bounded_count:
  assumes "cache_bounded n c" and "counts_ok (cc_m1 c) (cc_mL c) m1 mL" and "Suc n < 2 ^ 64"
  shows "cache_bounded (Suc n) (count_a (c\<lparr>cc_m1 := m1, cc_mL := mL\<rparr>))"
proof -
  have "unat (cc_a c + 1) = unat (cc_a c) + 1" "unat (cc_m1 c + 1) = unat (cc_m1 c) + 1"
    "unat (cc_mL c + 1) = unat (cc_mL c) + 1"
    using assms(1,3) by (intro unat_incr; simp add: cache_bounded_def)+
  then show ?thesis
    using assms by (auto simp: cache_bounded_def count_a_def counts_ok_def)
qed

lemma branch_bounded_count:
  assumes "branch_bounded n c" and "m \<in> {0, 1}" and "Suc n < 2 ^ 64"
  shows "branch_bounded (Suc n) (c\<lparr>cc_b := cc_b c + 1, cc_mp := cc_mp c + (1 AND m)\<rparr>)"
proof -
  have "unat (cc_b c + 1) = unat (cc_b c) + 1" "unat (cc_mp c + 1) = unat (cc_mp c) + 1"
    using assms(1,3) by (intro unat_incr; simp add: branch_bounded_def)+
  then show ?thesis
    using assms by (auto simp: branch_bounded_def)
qed

lemma run_ok_upd:
  assumes "run_ok n ls st" and "sim_ok s" and "line_sizes s = ls" and "bp_ok b"
    and "line_bounded (Suc n) l"
  shows "run_ok (Suc n) ls (st\<lparr>sim := s, bp := b, ccs := (ccs st)(p := l)\<rparr>)"
  using assms line_bounded_mono by (auto simp: run_ok_def)

lemma upd_cc_simps [simp]:
  "sim (upd_cc p f st) = sim st" "bp (upd_cc p f st) = bp st" "CC_table (upd_cc p f st) = CC_table st"
  "ccs (upd_cc p f st) = (ccs st)(p := f (ccs st p))"
  by (simp_all add: upd_cc_def)

lemma run_ok_cc:
  assumes "run_ok n ls st"
  shows "sim_ok (sim st)" "line_sizes (sim st) = ls" "bp_ok (bp st)"
    "cache_bounded n (line_Ir (ccs st p))" "cache_bounded n (line_Dr (ccs st p))"
    "cache_bounded n (line_Dw (ccs st p))" "branch_bounded n (line_Bc (ccs st p))"
    "branch_bounded n (line_Bi (ccs st p))" "line_bounded n (ccs st p)"
  using assms by (auto simp: run_ok_def line_bounded_def)

lemma run_ok_cong:
  assumes "run_ok n ls st" and "sim_ok (sim st')" and "line_sizes (sim st') = ls" and "bp_ok (bp st')"
    and "ccs st' = (ccs st)(p := l)" and "line_bounded (Suc n) l"
  shows "run_ok (Suc n) ls st'"
  using assms line_bounded_mono by (auto simp: run_ok_def)

lemma log_Ir_a_ok:
  assumes "run_ok n ls st" and "Suc n < 2 ^ 64"
  shows "run_ok (Suc n) ls (log_Ir_a i st)"
proof -
  let ?l = "ccs st (parent i)"
  have "cache_bounded (Suc n) (count_a (line_Ir ?l))"
    using cache_bounded_count [OF run_ok_cc(4) [OF assms(1)], of "parent i" "cc_m1 (line_Ir ?l)" "cc_mL (line_Ir ?l)"] assms(2)
    by (simp add: counts_ok_def)
  then have "line_bounded (Suc n) (?l\<lparr>line_Ir := count_a (line_Ir ?l)\<rparr>)"
    using line_bounded_mono [OF run_ok_cc(9) [OF assms(1)], of "parent i"] by (simp add: line_bounded_def)
  then show ?thesis
    using run_ok_cc [OF assms(1)] by (intro run_ok_cong [OF assms(1)]) (auto simp: log_Ir_a_def)
qed

lemma ref_Ir_ok:
  assumes "run_ok n ls st" and "Suc n < 2 ^ 64"
    and "doref (sim st) (cc_m1 (line_Ir (ccs st (parent i)))) (cc_mL (line_Ir (ccs st (parent i)))) = Inr (s, m1, mL)"
    and "sim_ok s" and "line_sizes s = ls"
    and "counts_ok (cc_m1 (line_Ir (ccs st (parent i)))) (cc_mL (line_Ir (ccs st (parent i)))) m1 mL"
  shows "\<exists>st'. ref_Ir doref i st = Inr st' \<and> run_ok (Suc n) ls st'"
proof -
  let ?l = "ccs st (parent i)"
  have "line_bounded (Suc n) (?l\<lparr>line_Ir := count_a ((line_Ir ?l)\<lparr>cc_m1 := m1, cc_mL := mL\<rparr>)\<rparr>)"
    using line_bounded_mono [OF run_ok_cc(9) [OF assms(1)], of "parent i"]
      cache_bounded_count [OF run_ok_cc(4) [OF assms(1)] assms(6,2)] by (simp add: line_bounded_def)
  then show ?thesis
    using assms run_ok_cc(3) [OF assms(1)]
    by (auto simp: ref_Ir_def log_Ir_a_def intro!: run_ok_cong [where st = st and n = n])
qed

lemma log_1IrGen_ok:
  assumes "run_ok n ls st" and "Suc n < 2 ^ 64" and "instr_fits ls i"
  shows "\<exists>st'. log_1IrGen_0D_cache_access i st = Inr st' \<and> run_ok (Suc n) ls st'"
proof -
  let ?c = "line_Ir (ccs st (parent i))"
  obtain s m1 mL where "cachesim_I1_doref_Gen (instr_addr i) (instr_len i) (sim st) (cc_m1 ?c) (cc_mL ?c) = Inr (s, m1, mL)"
    "sim_ok s" "line_sizes s = ls" "counts_ok (cc_m1 ?c) (cc_mL ?c) m1 mL"
    using I1_Gen_step [of "sim st" i] run_ok_cc(1,2) [OF assms(1)] assms(3) by metis
  then show ?thesis
    unfolding log_1IrGen_0D_cache_access_def by (intro ref_Ir_ok [OF assms(1,2)])
qed

lemma ref_IrNoX_ok:
  assumes "run_ok n ls st" and "Suc n < 2 ^ 64"
  shows "\<exists>st'. ref_IrNoX i st = Inr st' \<and> run_ok (Suc n) ls st'"
proof -
  let ?c = "line_Ir (ccs st (parent i))"
  obtain s m1 mL where "cachesim_I1_doref_NoX (instr_addr i) (instr_len i) (sim st) (cc_m1 ?c) (cc_mL ?c) = Inr (s, m1, mL)"
    "sim_ok s" "line_sizes s = ls" "counts_ok (cc_m1 ?c) (cc_mL ?c) m1 mL"
    using I1_NoX_step [of "sim st"] run_ok_cc(1,2) [OF assms(1)] by metis
  then show ?thesis
    unfolding ref_IrNoX_def by (intro ref_Ir_ok [OF assms(1,2)])
qed

lemma ref_Dr_ok:
  assumes "run_ok n ls st" and "Suc n < 2 ^ 64" and "data_fits ls a (word_of_int sz)"
  shows "\<exists>st'. ref_Dr a sz i st = Inr st' \<and> run_ok (Suc n) ls st'"
proof -
  let ?l = "ccs st (parent i)"
  obtain s m1 mL where s: "cachesim_D1_doref a (word_of_int sz) (sim st) (cc_m1 (line_Dr ?l)) (cc_mL (line_Dr ?l)) = Inr (s, m1, mL)"
    "sim_ok s" "line_sizes s = ls" "counts_ok (cc_m1 (line_Dr ?l)) (cc_mL (line_Dr ?l)) m1 mL"
    using D1_step [of "sim st" a "word_of_int sz"] run_ok_cc(1,2) [OF assms(1)] assms(3) by metis
  have "line_bounded (Suc n) (?l\<lparr>line_Dr := count_a ((line_Dr ?l)\<lparr>cc_m1 := m1, cc_mL := mL\<rparr>)\<rparr>)"
    using line_bounded_mono [OF run_ok_cc(9) [OF assms(1)], of "parent i"]
      cache_bounded_count [OF run_ok_cc(5) [OF assms(1)] s(4) assms(2)] by (simp add: line_bounded_def)
  then show ?thesis
    using s run_ok_cc(3) [OF assms(1)] assms(1)
    by (auto simp: ref_Dr_def intro!: run_ok_cong [where st = st and n = n])
qed

lemma ref_Dw_ok:
  assumes "run_ok n ls st" and "Suc n < 2 ^ 64" and "data_fits ls a (word_of_int sz)"
  shows "\<exists>st'. ref_Dw a sz i st = Inr st' \<and> run_ok (Suc n) ls st'"
proof -
  let ?l = "ccs st (parent i)"
  obtain s m1 mL where s: "cachesim_D1_doref a (word_of_int sz) (sim st) (cc_m1 (line_Dw ?l)) (cc_mL (line_Dw ?l)) = Inr (s, m1, mL)"
    "sim_ok s" "line_sizes s = ls" "counts_ok (cc_m1 (line_Dw ?l)) (cc_mL (line_Dw ?l)) m1 mL"
    using D1_step [of "sim st" a "word_of_int sz"] run_ok_cc(1,2) [OF assms(1)] assms(3) by metis
  have "line_bounded (Suc n) (?l\<lparr>line_Dw := count_a ((line_Dw ?l)\<lparr>cc_m1 := m1, cc_mL := mL\<rparr>)\<rparr>)"
    using line_bounded_mono [OF run_ok_cc(9) [OF assms(1)], of "parent i"]
      cache_bounded_count [OF run_ok_cc(6) [OF assms(1)] s(4) assms(2)] by (simp add: line_bounded_def)
  then show ?thesis
    using s run_ok_cc(3) [OF assms(1)] assms(1)
    by (auto simp: ref_Dw_def intro!: run_ok_cong [where st = st and n = n])
qed

lemma log_cond_ok:
  assumes "run_ok n ls st" and "Suc n < 2 ^ 64" and "t \<le> 1"
  shows "\<exists>st'. log_cond_branch arch i t st = Inr st' \<and> run_ok (Suc n) ls st'"
proof -
  let ?l = "ccs st (parent i)"
  obtain m b where b: "do_cond_branch_predict arch (instr_addr i) t (bp st) = Inr (m, b)" "bp_ok b" "m \<in> {0, 1}"
    using do_cond_ok [OF run_ok_cc(3) [OF assms(1)] assms(3), of arch "instr_addr i"]
      bp_ok_cond [OF run_ok_cc(3) [OF assms(1)]] by auto
  have "line_bounded (Suc n) (?l\<lparr>line_Bc := (line_Bc ?l)\<lparr>cc_b := cc_b (line_Bc ?l) + 1, cc_mp := cc_mp (line_Bc ?l) + (1 AND m)\<rparr>\<rparr>)"
    using line_bounded_mono [OF run_ok_cc(9) [OF assms(1)], of "parent i"]
      branch_bounded_count [OF run_ok_cc(7) [OF assms(1)] b(3) assms(2)] by (simp add: line_bounded_def)
  then show ?thesis
    using b(1,2) run_ok_cc(1,2) [OF assms(1)] assms(1)
    by (auto simp: log_cond_branch_def Let_def intro!: run_ok_cong [where st = st and n = n])
qed

lemma log_ind_ok:
  assumes "run_ok n ls st" and "Suc n < 2 ^ 64"
  shows "\<exists>st'. log_ind_branch arch i dst st = Inr st' \<and> run_ok (Suc n) ls st'"
proof -
  let ?l = "ccs st (parent i)"
  obtain m b where b: "do_ind_branch_predict arch (instr_addr i) dst (bp st) = Inr (m, b)" "bp_ok b" "m \<in> {0, 1}"
    using do_ind_ok(1) [OF run_ok_cc(3) [OF assms(1)], where arch = arch and a = "instr_addr i" and target = dst] run_ok_cc(3) [OF assms(1)]
    by (auto simp: bp_ok_def)
  have "line_bounded (Suc n) (?l\<lparr>line_Bi := (line_Bi ?l)\<lparr>cc_b := cc_b (line_Bi ?l) + 1, cc_mp := cc_mp (line_Bi ?l) + (1 AND m)\<rparr>\<rparr>)"
    using line_bounded_mono [OF run_ok_cc(9) [OF assms(1)], of "parent i"]
      branch_bounded_count [OF run_ok_cc(8) [OF assms(1)] b(3) assms(2)] by (simp add: line_bounded_def)
  then show ?thesis
    using b(1,2) run_ok_cc(1,2) [OF assms(1)] assms(1)
    by (auto simp: log_ind_branch_def Let_def intro!: run_ok_cong [where st = st and n = n])
qed

section \<open>Properties\<close>

text \<open>
  C24: \<open>get_lineCC\<close> always returns the node of the location that debug information gives for the
  address. A known line keeps its counters, a new line starts at zero, no other line changes, and
  the tables stay ordered sets whose strings are interned.
\<close>

theorem get_lineCC_ok:
  assumes "tables_ok st"
  shows "\<exists>st'. get_lineCC di a st = Inr (loc_of di a, st') \<and> tables_ok st' \<and>
    set (elements (CC_table st')) = insert (loc_of di a) (set (elements (CC_table st))) \<and>
    ccs st' = (if loc_of di a \<in> set (elements (CC_table st)) then ccs st
               else (ccs st)(loc_of di a := zero_LineCC)) \<and>
    sim st' = sim st \<and> bp st' = bp st"
  using get_lineCC_cases [OF assms] by metis

lemma empty_cg_tables [simp]: "tables_ok (empty_cg s)"
  by (simp add: tables_ok_def empty_cg_def) (simp add: OSetGen_Create_def elements_def)

theorem get_lineCC_ok_witness:
  "\<forall>s. tables_ok (empty_cg s) \<and>
   (let di = \<lparr>get_filename_linenum = (\<lambda>_. Some (''a.c'', ''/src'', 7)), get_fnname = (\<lambda>_. None)\<rparr>
    in \<exists>st'. get_lineCC di 4096 (empty_cg s) =
         Inr (\<lparr>loc_file = ''/src/a.c'', loc_fn = ''???'', loc_line = 7\<rparr>, st') \<and> tables_ok st')"
  using get_lineCC_ok [OF empty_cg_tables,
      where di = "\<lparr>get_filename_linenum = (\<lambda>_. Some (''a.c'', ''/src'', 7)), get_fnname = (\<lambda>_. None)\<rparr>" and a = 4096]
  by (auto simp: Let_def loc_of_def absfile_def)

text \<open>
  The size of a data reference is passed to the simulator as a byte. With lines of 256 bytes an
  access of 256 bytes, the largest that instrumentation lets through, is seen as an empty access;
  at the start of a line it is taken to begin in one block and end in the block before, and the
  simulator panics.
\<close>

theorem log_256_bytes_panics:
  assumes "c2_line_size_bits (sim_D1 (sim st)) = 8" and "256 \<le> a" and "256 dvd unat a"
  shows "log_0Ir_1Dr_cache_access n a 256 st = Inl (Tool_panic ''item straddles more than two cache sets'') \<and>
    log_0Ir_1Dw_cache_access n a 256 st = Inl (Tool_panic ''item straddles more than two cache sets'')"
proof -
  let ?c = "sim_D1 (sim st)"
  obtain q where q: "unat a = 256 * q" using assms(3) by (auto elim: dvdE)
  have ge: "256 \<le> unat a" using assms(2) by (simp add: word_le_nat_alt)
  then have q1: "0 < q" using q by simp
  have "unat a < 2 ^ 64" using unsigned_less [of a] by simp
  then have q2: "q < 2 ^ 56" using q by simp
  have b1: "unat (block_of ?c a) = q" using assms(1) q by (simp add: block_of_def unat_drop_bit)
  have "unat (a - 1) = 256 * q - 1" using ge q by (simp add: unat_sub_if_size word_le_nat_alt)
  then have b2: "unat (block_of ?c (a - 1)) = q - 1" using assms(1) q1 by (simp add: block_of_def unat_drop_bit)
  have "unat (block_of ?c a + 1) = q + 1" using b1 q2 by (simp add: unat_word_ariths)
  then have "block_of ?c a \<noteq> block_of ?c (a - 1)" "block_of ?c a + 1 \<noteq> block_of ?c (a - 1)"
    using b1 b2 q1 by (metis diff_less less_irrefl zero_less_one)
      (metis \<open>unat (block_of ?c a + 1) = q + 1\<close> b2 add_diff_cancel_right' diff_le_self not_add_less1 not_less_eq_eq plus_1_eq_Suc add.commute le_refl)
  then have "cachesim_ref_is_miss ?c a (word_of_int 256) = Inl (Tool_panic ''item straddles more than two cache sets'')"
    by (simp add: cachesim_ref_is_miss_def)
  then show "log_0Ir_1Dr_cache_access n a 256 st = Inl (Tool_panic ''item straddles more than two cache sets'') \<and>
    log_0Ir_1Dw_cache_access n a 256 st = Inl (Tool_panic ''item straddles more than two cache sets'')"
    by (simp_all add: log_0Ir_1Dr_cache_access_def log_0Ir_1Dw_cache_access_def ref_Dr_def ref_Dw_def
        cachesim_D1_doref_def Let_def)
qed

theorem log_256_bytes_panics_witness:
  "\<exists>c. cachesim_initcache (mk_cache 512 2 256) = Inr c \<and>
     log_0Ir_1Dr_cache_access \<lparr>instr_addr = 64, instr_len = 4,
         parent = \<lparr>loc_file = ''a.c'', loc_fn = ''f'', loc_line = 1\<rparr>\<rparr> 4096 256
       (empty_cg \<lparr>sim_I1 = c, sim_D1 = c, sim_LL = c\<rparr>) =
     Inl (Tool_panic ''item straddles more than two cache sets'')"
proof -
  have "Int_fields (mk_cache 512 2 256)" by (rule Int_fieldsI) (simp_all add: mk_cache_def)
  moreover have "valid_cache (mk_cache (2 ^ 0 * 2 * 2 ^ 8) 2 (2 ^ 8))"
    unfolding valid_cache_def mk_cache_def by (intro exI [of _ 8] exI [of _ 0]) simp
  ultimately obtain c where c: "cachesim_initcache (mk_cache 512 2 256) = Inr c" "cache_ok c" "c2_line_size c = 256"
    using initcache_valid [of "mk_cache 512 2 256"] by (auto simp: mk_cache_def)
  then obtain j where "c2_line_size_bits c = int j" "(2::int) ^ j = 2 ^ 8" by (auto elim: cache_okE)
  moreover from this(2) have "j = 8" by (simp only: power_inject_exp)
  ultimately have "c2_line_size_bits c = 8" by simp
  then show ?thesis
    using c(1) log_256_bytes_panics [of "empty_cg \<lparr>sim_I1 = c, sim_D1 = c, sim_LL = c\<rparr>" 4096]
    by (simp add: empty_cg_def)
qed

end
