(* ===== verification/CacheInstr.thy ===== *)
theory CacheInstr
  imports CacheCC
begin

text \<open>
  The instrumentation pass of \<open>valgrind/cachegrind/cg_main.c\<close>: the queue of outstanding events,
  \<open>flushEvents\<close>, the \<open>addEvent\<close> functions and \<open>cg_instrument\<close>.

  The intermediate representation of a block is reduced to what the pass reads of each statement.
  Incoming statements are flat, so that operands are temporaries or constants, and the size of the
  type of a memory access is part of the statement. A node of the array of instruction infos is
  identified by its index, together with its contents, which do not change after it is set up.
  Words are 64 bits wide.
\<close>

section \<open>Intermediate representation\<close>

datatype IRAtom = RdTmp nat | Const Addr

datatype IRType = Ity_I32 | Ity_I64

datatype IRConst = Ico_U32 UInt | Ico_U64 ULong

datatype IRJumpKind = Ijk_Boring | Ijk_Call | Ijk_Ret | Ijk_other

datatype IREffect = Ifx_None | Ifx_Read | Ifx_Write | Ifx_Modify

datatype IRStmt =
    Ist_NoOp
  | Ist_AbiHint
  | Ist_Put
  | Ist_PutI
  | Ist_MBE
  | Ist_IMark Addr UInt
  | Ist_WrTmp nat "(int \<times> IRAtom) option"
  | Ist_Store int IRAtom
  | Ist_StoreG int IRAtom IRAtom
  | Ist_LoadG int IRAtom IRAtom
  | Ist_Dirty IREffect "IRAtom option" int
  | Ist_CAS int bool IRAtom
  | Ist_LLSC bool int IRAtom
  | Ist_Exit IRJumpKind IRAtom IRConst

record IRSB =
  stmts :: "IRStmt list"
  jumpkind :: IRJumpKind
  sb_next :: IRAtom
  n_temps :: nat

definition eqIRAtom :: "IRAtom \<Rightarrow> IRAtom \<Rightarrow> bool" where
  "eqIRAtom a1 a2 =
     (case (a1, a2) of
        (RdTmp t1, RdTmp t2) \<Rightarrow> t1 = t2
      | (Const c1, Const c2) \<Rightarrow> c1 = c2
      | _ \<Rightarrow> False)"

section \<open>Events\<close>

type_synonym inode = "nat \<times> InstrInfo"

datatype Event =
    Ev_IrNoX (ev_inode: inode)
  | Ev_IrGen (ev_inode: inode)
  | Ev_Dr (ev_inode: inode) IRAtom int
  | Ev_Dw (ev_inode: inode) IRAtom int
  | Ev_Dm (ev_inode: inode) IRAtom int
  | Ev_Bc (ev_inode: inode) IRAtom
  | Ev_Bi (ev_inode: inode) IRAtom

definition get_Event_dea :: "Event \<Rightarrow> IRAtom cres" where
  "get_Event_dea ev =
     (case ev of
        Ev_Dr _ ea _ \<Rightarrow> Inr ea
      | Ev_Dw _ ea _ \<Rightarrow> Inr ea
      | Ev_Dm _ ea _ \<Rightarrow> Inr ea
      | _ \<Rightarrow> Inl Assert_fail)"

definition get_Event_dszB :: "Event \<Rightarrow> int cres" where
  "get_Event_dszB ev =
     (case ev of
        Ev_Dr _ _ szB \<Rightarrow> Inr szB
      | Ev_Dw _ _ szB \<Rightarrow> Inr szB
      | Ev_Dm _ _ szB \<Rightarrow> Inr szB
      | _ \<Rightarrow> Inl Assert_fail)"

definition N_EVENTS :: nat where
  "N_EVENTS = 16"

text \<open>The helper that a dirty call names, with its arguments.\<close>

datatype HelperCall =
    Call_1Ir InstrInfo
  | Call_2Ir InstrInfo InstrInfo
  | Call_3Ir InstrInfo InstrInfo InstrInfo
  | Call_1IrGen_0D InstrInfo
  | Call_1IrNoX_0D InstrInfo
  | Call_2IrNoX_0D InstrInfo InstrInfo
  | Call_3IrNoX_0D InstrInfo InstrInfo InstrInfo
  | Call_1IrNoX_1Dr InstrInfo IRAtom int
  | Call_1IrNoX_1Dw InstrInfo IRAtom int
  | Call_0Ir_1Dr InstrInfo IRAtom int
  | Call_0Ir_1Dw InstrInfo IRAtom int
  | Call_cond_branch InstrInfo IRAtom
  | Call_ind_branch InstrInfo IRAtom

text \<open>
  Statements of the output block: copies of the input, calls with an optional guard, and the three
  forms of assignment that widen the guard of a side exit.
\<close>

datatype OutStmt =
    Copy IRStmt
  | Call "IRAtom option" HelperCall
  | Wr_atom nat IRAtom
  | Wr_widen nat nat
  | Wr_xor1 nat nat

record CgOpts =
  clo_cache_sim :: bool
  clo_branch_sim :: bool
  min_line_size :: int

text \<open>
  The running state: the queue, whose length is \<open>events_used\<close>; the infos set up so far, whose
  number is \<open>sbInfo_i\<close>; the output block; the locals of \<open>cg_instrument\<close>; and the global tables.
\<close>

record CgState =
  events :: "Event list"
  sbInfo_n_instrs :: int
  sbInfo_instrs :: "InstrInfo list"
  sbOut :: "OutStmt list"
  out_temps :: nat
  curr_inode :: "inode option"
  cia :: Addr
  isize :: UInt
  glob :: cg

section \<open>Block information\<close>

definition is_IMark :: "IRStmt \<Rightarrow> bool" where
  "is_IMark st = (case st of Ist_IMark _ _ \<Rightarrow> True | _ \<Rightarrow> False)"

definition get_SB_info :: "IRSB \<Rightarrow> Addr \<Rightarrow> cg \<Rightarrow> (SB_info \<times> cg) cres" where
  "get_SB_info sbIn origAddr g =
     (let n = int (length (filter is_IMark (stmts sbIn))) in
      cassert (OSetGen_Lookup cmp_SB (instrInfoTable g) origAddr = None) (
      let sbInfo = \<lparr>SB_addr = origAddr, n_instrs = n\<rparr> in
      cbind (OSetGen_Insert cmp_SB SB_addr (instrInfoTable g) sbInfo) (\<lambda>t.
      Inr (sbInfo, g\<lparr>instrInfoTable := t\<rparr>))))"

definition setup_InstrInfo :: "debuginfo \<Rightarrow> Addr \<Rightarrow> UInt \<Rightarrow> CgState \<Rightarrow> (inode \<times> CgState) cres" where
  "setup_InstrInfo di addr len cgs =
     (let sbInfo_i = int (length (sbInfo_instrs cgs)) in
      cassert (sbInfo_i \<ge> 0) (
      cassert (sbInfo_i < sbInfo_n_instrs cgs) (
      cbind (get_lineCC di addr (glob cgs)) (\<lambda>(p, g).
      let i_node = \<lparr>instr_addr = addr, instr_len = ucast len, parent = p\<rparr> in
      Inr ((length (sbInfo_instrs cgs), i_node),
           cgs\<lparr>glob := g, sbInfo_instrs := sbInfo_instrs cgs @ [i_node]\<rparr>)))))"

section \<open>The event queue\<close>

text \<open>
  The loop of \<open>flushEvents\<close> from index \<open>i\<close>, on the events from there on: the calls it emits.
\<close>

fun flush_from :: "bool \<Rightarrow> Event list \<Rightarrow> HelperCall list cres" where
  "flush_from cs [] = Inr []"
| "flush_from cs (Ev_IrNoX n # Ev_Dr n2 ea szB # evs) =
     cassert (n2 = n) (cbind (flush_from cs evs) (\<lambda>r. Inr (Call_1IrNoX_1Dr (snd n) ea szB # r)))"
| "flush_from cs (Ev_IrNoX n # Ev_Dm n2 ea szB # evs) =
     cassert (n2 = n) (cbind (flush_from cs evs) (\<lambda>r. Inr (Call_1IrNoX_1Dr (snd n) ea szB # r)))"
| "flush_from cs (Ev_IrNoX n # Ev_Dw n2 ea szB # evs) =
     cassert (n2 = n) (cbind (flush_from cs evs) (\<lambda>r. Inr (Call_1IrNoX_1Dw (snd n) ea szB # r)))"
| "flush_from cs (Ev_IrNoX n # Ev_IrNoX n2 # Ev_IrNoX n3 # evs) =
     cbind (flush_from cs evs) (\<lambda>r.
       Inr ((if cs then Call_3IrNoX_0D (snd n) (snd n2) (snd n3) else Call_3Ir (snd n) (snd n2) (snd n3)) # r))"
| "flush_from cs (Ev_IrNoX n # Ev_IrNoX n2 # evs) =
     cbind (flush_from cs evs) (\<lambda>r.
       Inr ((if cs then Call_2IrNoX_0D (snd n) (snd n2) else Call_2Ir (snd n) (snd n2)) # r))"
| "flush_from cs (Ev_IrNoX n # evs) =
     cbind (flush_from cs evs) (\<lambda>r.
       Inr ((if cs then Call_1IrNoX_0D (snd n) else Call_1Ir (snd n)) # r))"
| "flush_from cs (Ev_IrGen n # evs) =
     cbind (flush_from cs evs) (\<lambda>r.
       Inr ((if cs then Call_1IrGen_0D (snd n) else Call_1Ir (snd n)) # r))"
| "flush_from cs (Ev_Dr n ea szB # evs) =
     cbind (flush_from cs evs) (\<lambda>r. Inr (Call_0Ir_1Dr (snd n) ea szB # r))"
| "flush_from cs (Ev_Dm n ea szB # evs) =
     cbind (flush_from cs evs) (\<lambda>r. Inr (Call_0Ir_1Dr (snd n) ea szB # r))"
| "flush_from cs (Ev_Dw n ea szB # evs) =
     cbind (flush_from cs evs) (\<lambda>r. Inr (Call_0Ir_1Dw (snd n) ea szB # r))"
| "flush_from cs (Ev_Bc n taken # evs) =
     cbind (flush_from cs evs) (\<lambda>r. Inr (Call_cond_branch (snd n) taken # r))"
| "flush_from cs (Ev_Bi n dst # evs) =
     cbind (flush_from cs evs) (\<lambda>r. Inr (Call_ind_branch (snd n) dst # r))"

definition flushEvents :: "CgOpts \<Rightarrow> CgState \<Rightarrow> CgState cres" where
  "flushEvents opts cgs =
     cbind (flush_from (clo_cache_sim opts) (events cgs)) (\<lambda>calls.
     Inr (cgs\<lparr>sbOut := sbOut cgs @ map (Call None) calls, events := []\<rparr>))"

text \<open>The end of every \<open>addEvent\<close> function: flush a full queue, then append the event.\<close>

definition append_event :: "CgOpts \<Rightarrow> Event \<Rightarrow> CgState \<Rightarrow> CgState cres" where
  "append_event opts evt cgs =
     cbind (if length (events cgs) = N_EVENTS then flushEvents opts cgs else Inr cgs) (\<lambda>cgs.
     cassert (length (events cgs) < N_EVENTS) (Inr (cgs\<lparr>events := events cgs @ [evt]\<rparr>)))"

definition addEvent_Ir :: "CgOpts \<Rightarrow> inode \<Rightarrow> CgState \<Rightarrow> CgState cres" where
  "addEvent_Ir opts n cgs =
     (let g = glob cgs; s = stats g in
      if cachesim_is_IrNoX (sim g) (instr_addr (snd n)) (instr_len (snd n)) then
        append_event opts (Ev_IrNoX n)
          (cgs\<lparr>glob := g\<lparr>stats := s\<lparr>distinct_instrsNoX := distinct_instrsNoX s + 1\<rparr>\<rparr>\<rparr>)
      else
        append_event opts (Ev_IrGen n)
          (cgs\<lparr>glob := g\<lparr>stats := s\<lparr>distinct_instrsGen := distinct_instrsGen s + 1\<rparr>\<rparr>\<rparr>))"

definition addEvent_Dr :: "CgOpts \<Rightarrow> inode \<Rightarrow> int \<Rightarrow> IRAtom \<Rightarrow> CgState \<Rightarrow> CgState cres" where
  "addEvent_Dr opts n datasize ea cgs =
     cassert (datasize \<ge> 1 \<and> datasize \<le> min_line_size opts) (
     if \<not> clo_cache_sim opts then Inr cgs
     else append_event opts (Ev_Dr n ea datasize) cgs)"

definition merge_last :: "inode \<Rightarrow> int \<Rightarrow> IRAtom \<Rightarrow> Event list \<Rightarrow> Event list option" where
  "merge_last n datasize ea evs =
     (if evs \<noteq> [] then
        (case last evs of
           Ev_Dr n' ea' szB \<Rightarrow>
             if szB = datasize \<and> n' = n \<and> eqIRAtom ea' ea
             then Some (butlast evs @ [Ev_Dm n' ea' szB]) else None
         | _ \<Rightarrow> None)
      else None)"

definition addEvent_Dw :: "CgOpts \<Rightarrow> inode \<Rightarrow> int \<Rightarrow> IRAtom \<Rightarrow> CgState \<Rightarrow> CgState cres" where
  "addEvent_Dw opts n datasize ea cgs =
     cassert (datasize \<ge> 1 \<and> datasize \<le> min_line_size opts) (
     if \<not> clo_cache_sim opts then Inr cgs
     else case merge_last n datasize ea (events cgs) of
       Some evs \<Rightarrow> Inr (cgs\<lparr>events := evs\<rparr>)
     | None \<Rightarrow> append_event opts (Ev_Dw n ea datasize) cgs)"

definition addEvent_D_guarded ::
  "CgOpts \<Rightarrow> inode \<Rightarrow> int \<Rightarrow> IRAtom \<Rightarrow> IRAtom \<Rightarrow> bool \<Rightarrow> CgState \<Rightarrow> CgState cres" where
  "addEvent_D_guarded opts n datasize ea guard isWrite cgs =
     cassert (datasize \<ge> 1 \<and> datasize \<le> min_line_size opts) (
     if \<not> clo_cache_sim opts then Inr cgs
     else cbind (flushEvents opts cgs) (\<lambda>cgs.
       cassert (events cgs = []) (
       let call = (if isWrite then Call_0Ir_1Dw (snd n) ea datasize else Call_0Ir_1Dr (snd n) ea datasize)
       in Inr (cgs\<lparr>sbOut := sbOut cgs @ [Call (Some guard) call]\<rparr>))))"

definition addEvent_Bc :: "CgOpts \<Rightarrow> IRType \<Rightarrow> inode \<Rightarrow> IRAtom \<Rightarrow> CgState \<Rightarrow> CgState cres" where
  "addEvent_Bc opts ty n guard cgs =
     cassert (ty = Ity_I64) (
     if \<not> clo_branch_sim opts then Inr cgs
     else append_event opts (Ev_Bc n guard) cgs)"

definition addEvent_Bi :: "CgOpts \<Rightarrow> IRType \<Rightarrow> inode \<Rightarrow> IRAtom \<Rightarrow> CgState \<Rightarrow> CgState cres" where
  "addEvent_Bi opts ty n whereTo cgs =
     cassert (ty = Ity_I64) (
     if \<not> clo_branch_sim opts then Inr cgs
     else append_event opts (Ev_Bi n whereTo) cgs)"

section \<open>Instrumentation of a block\<close>

fun VG_MIN_INSTR_SZB :: "VGA_arch \<Rightarrow> UInt" where
  "VG_MIN_INSTR_SZB VGA_x86 = 1"
| "VG_MIN_INSTR_SZB VGA_amd64 = 1"
| "VG_MIN_INSTR_SZB VGA_ppc32 = 4"
| "VG_MIN_INSTR_SZB VGA_ppc64be = 4"
| "VG_MIN_INSTR_SZB VGA_ppc64le = 4"
| "VG_MIN_INSTR_SZB VGA_arm = 2"
| "VG_MIN_INSTR_SZB VGA_arm64 = 4"
| "VG_MIN_INSTR_SZB VGA_s390x = 2"
| "VG_MIN_INSTR_SZB VGA_mips32 = 4"
| "VG_MIN_INSTR_SZB VGA_mips64 = 4"
| "VG_MIN_INSTR_SZB VGA_nanomips = 2"

fun VG_MAX_INSTR_SZB :: "VGA_arch \<Rightarrow> UInt" where
  "VG_MAX_INSTR_SZB VGA_x86 = 16"
| "VG_MAX_INSTR_SZB VGA_amd64 = 16"
| "VG_MAX_INSTR_SZB VGA_ppc32 = 4"
| "VG_MAX_INSTR_SZB VGA_ppc64be = 8"
| "VG_MAX_INSTR_SZB VGA_ppc64le = 8"
| "VG_MAX_INSTR_SZB VGA_arm = 4"
| "VG_MAX_INSTR_SZB VGA_arm64 = 4"
| "VG_MAX_INSTR_SZB VGA_s390x = 6"
| "VG_MAX_INSTR_SZB VGA_mips32 = 8"
| "VG_MAX_INSTR_SZB VGA_mips64 = 8"
| "VG_MAX_INSTR_SZB VGA_nanomips = 6"

fun VG_CLREQ_SZB :: "VGA_arch \<Rightarrow> UInt" where
  "VG_CLREQ_SZB VGA_x86 = 14"
| "VG_CLREQ_SZB VGA_amd64 = 19"
| "VG_CLREQ_SZB VGA_ppc32 = 20"
| "VG_CLREQ_SZB VGA_ppc64be = 20"
| "VG_CLREQ_SZB VGA_ppc64le = 20"
| "VG_CLREQ_SZB VGA_arm = 20"
| "VG_CLREQ_SZB VGA_arm64 = 20"
| "VG_CLREQ_SZB VGA_s390x = 10"
| "VG_CLREQ_SZB VGA_mips32 = 20"
| "VG_CLREQ_SZB VGA_mips64 = 20"
| "VG_CLREQ_SZB VGA_nanomips = 20"

definition fix_isize :: "VGA_arch \<Rightarrow> UInt \<Rightarrow> UInt" where
  "fix_isize arch len = (if len = 0 then VG_MIN_INSTR_SZB arch else len)"

definition isize_ok :: "VGA_arch \<Rightarrow> UInt \<Rightarrow> bool" where
  "isize_ok arch sz \<longleftrightarrow>
     VG_MIN_INSTR_SZB arch \<le> sz \<and> sz \<le> VG_MAX_INSTR_SZB arch \<or> VG_CLREQ_SZB arch = sz"

definition clip :: "CgOpts \<Rightarrow> int \<Rightarrow> int" where
  "clip opts dataSize = (if dataSize > min_line_size opts then min_line_size opts else dataSize)"

text \<open>The node that data events of the current instruction use.\<close>

definition with_inode :: "(inode \<Rightarrow> CgState \<Rightarrow> CgState cres) \<Rightarrow> CgState \<Rightarrow> CgState cres" where
  "with_inode f cgs = (case curr_inode cgs of Some n \<Rightarrow> f n cgs | None \<Rightarrow> Inl Null_deref)"

definition side_exit_addr :: "IRType \<Rightarrow> IRConst \<Rightarrow> Addr cres" where
  "side_exit_addr tyW dst =
     (if tyW = Ity_I32
      then (case dst of Ico_U32 c \<Rightarrow> Inr (ucast c) | _ \<Rightarrow> Inl Assert_fail)
      else (case dst of Ico_U64 c \<Rightarrow> Inr c | _ \<Rightarrow> Inl Assert_fail))"

text \<open>The case \<open>Ist_Exit\<close> for a branch in guest code: widen the guard and post the event.\<close>

definition instrument_branch ::
  "CgOpts \<Rightarrow> IRType \<Rightarrow> IRAtom \<Rightarrow> IRConst \<Rightarrow> CgState \<Rightarrow> CgState cres" where
  "instrument_branch opts hWordTy exit_guard dst cgs =
     (let guard1 = out_temps cgs; guardW = out_temps cgs + 1; guard = out_temps cgs + 2;
          nia = cia cgs + ucast (isize cgs)
      in cbind (side_exit_addr hWordTy dst) (\<lambda>sea.
         let inverted = (nia = sea) in
         with_inode (\<lambda>n. addEvent_Bc opts hWordTy n (RdTmp guard))
           (cgs\<lparr>out_temps := out_temps cgs + 3,
               sbOut := sbOut cgs @ [Wr_atom guard1 exit_guard, Wr_widen guardW guard1,
                 if inverted then Wr_xor1 guard guardW else Wr_atom guard (RdTmp guardW)]\<rparr>)))"

definition instrument_stmt ::
  "VGA_arch \<Rightarrow> CgOpts \<Rightarrow> debuginfo \<Rightarrow> IRType \<Rightarrow> IRStmt \<Rightarrow> CgState \<Rightarrow> CgState cres" where
  "instrument_stmt arch opts di hWordTy st cgs =
     (case st of
        Ist_NoOp \<Rightarrow> Inr cgs
      | Ist_AbiHint \<Rightarrow> Inr cgs
      | Ist_Put \<Rightarrow> Inr cgs
      | Ist_PutI \<Rightarrow> Inr cgs
      | Ist_MBE \<Rightarrow> Inr cgs
      | Ist_IMark addr len \<Rightarrow>
          (let sz = fix_isize arch len in
           cassert (isize_ok arch sz) (
           cbind (setup_InstrInfo di addr sz (cgs\<lparr>cia := addr, isize := sz\<rparr>)) (\<lambda>(n, cgs).
           addEvent_Ir opts n (cgs\<lparr>curr_inode := Some n\<rparr>))))
      | Ist_WrTmp _ data \<Rightarrow>
          (case data of
             Some (szB, aexpr) \<Rightarrow> with_inode (\<lambda>n. addEvent_Dr opts n szB aexpr) cgs
           | None \<Rightarrow> Inr cgs)
      | Ist_Store szB aexpr \<Rightarrow> with_inode (\<lambda>n. addEvent_Dw opts n szB aexpr) cgs
      | Ist_StoreG szB addr guard \<Rightarrow> with_inode (\<lambda>n. addEvent_D_guarded opts n szB addr guard True) cgs
      | Ist_LoadG szB addr guard \<Rightarrow> with_inode (\<lambda>n. addEvent_D_guarded opts n szB addr guard False) cgs
      | Ist_Dirty mFx mAddr mSize \<Rightarrow>
          (if mFx \<noteq> Ifx_None then
             (case mAddr of
                None \<Rightarrow> Inl Assert_fail
              | Some ma \<Rightarrow>
                  cassert (mSize \<noteq> 0) (
                  let dataSize = clip opts mSize in
                  cbind (if mFx = Ifx_Read \<or> mFx = Ifx_Modify
                         then with_inode (\<lambda>n. addEvent_Dr opts n dataSize ma) cgs else Inr cgs) (\<lambda>cgs.
                  if mFx = Ifx_Write \<or> mFx = Ifx_Modify
                  then with_inode (\<lambda>n. addEvent_Dw opts n dataSize ma) cgs else Inr cgs)))
           else cassert (mAddr = None) (cassert (mSize = 0) (Inr cgs)))
      | Ist_CAS szLo hasHi addr \<Rightarrow>
          (let dataSize = clip opts (if hasHi then szLo * 2 else szLo) in
           cbind (with_inode (\<lambda>n. addEvent_Dr opts n dataSize addr) cgs)
             (with_inode (\<lambda>n. addEvent_Dw opts n dataSize addr)))
      | Ist_LLSC isStore szB addr \<Rightarrow>
          (if \<not> isStore
           then cbind (with_inode (\<lambda>n. addEvent_Dr opts n szB addr) cgs) (flushEvents opts)
           else with_inode (\<lambda>n. addEvent_Dw opts n szB addr) cgs)
      | Ist_Exit jk guard dst \<Rightarrow>
          cbind (if jk = Ijk_Boring \<or> jk = Ijk_Call \<or> jk = Ijk_Ret
                 then instrument_branch opts hWordTy guard dst cgs else Inr cgs)
            (flushEvents opts))"

fun instrument_stmts ::
  "VGA_arch \<Rightarrow> CgOpts \<Rightarrow> debuginfo \<Rightarrow> IRType \<Rightarrow> IRStmt list \<Rightarrow> CgState \<Rightarrow> CgState cres" where
  "instrument_stmts arch opts di hWordTy [] cgs = Inr cgs"
| "instrument_stmts arch opts di hWordTy (st # sts) cgs =
     cbind (instrument_stmt arch opts di hWordTy st cgs) (\<lambda>cgs.
     instrument_stmts arch opts di hWordTy sts (cgs\<lparr>sbOut := sbOut cgs @ [Copy st]\<rparr>))"

definition instrument_next :: "CgOpts \<Rightarrow> IRType \<Rightarrow> IRSB \<Rightarrow> CgState \<Rightarrow> CgState cres" where
  "instrument_next opts gWordTy sbIn cgs =
     (if jumpkind sbIn = Ijk_Boring \<or> jumpkind sbIn = Ijk_Call then
        (case sb_next sbIn of
           Const _ \<Rightarrow> Inr cgs
         | RdTmp t \<Rightarrow> with_inode (\<lambda>n. addEvent_Bi opts gWordTy n (RdTmp t)) cgs)
      else Inr cgs)"

definition cg_instrument ::
  "VGA_arch \<Rightarrow> CgOpts \<Rightarrow> debuginfo \<Rightarrow> Addr \<Rightarrow> Addr \<Rightarrow> IRType \<Rightarrow> IRType \<Rightarrow> IRSB \<Rightarrow> cg \<Rightarrow>
     (OutStmt list \<times> cg) cres" where
  "cg_instrument arch opts di readdr vge_base0 gWordTy hWordTy sbIn g =
     (if gWordTy \<noteq> hWordTy then Inl (Tool_panic ''host/guest word size mismatch'')
      else
        let preamble = takeWhile (\<lambda>s. \<not> is_IMark s) (stmts sbIn);
            rest = dropWhile (\<lambda>s. \<not> is_IMark s) (stmts sbIn)
        in case rest of
             Ist_IMark addr len # _ \<Rightarrow>
               cassert (readdr = vge_base0) (
               cbind (get_SB_info sbIn readdr g) (\<lambda>(sbInfo, g).
               cbind (instrument_stmts arch opts di hWordTy rest
                 \<lparr>events = [], sbInfo_n_instrs = n_instrs sbInfo, sbInfo_instrs = [],
                  sbOut = map Copy preamble, out_temps = n_temps sbIn, curr_inode = None,
                  cia = addr, isize = fix_isize arch len, glob = g\<rparr>) (\<lambda>cgs.
               cbind (instrument_next opts gWordTy sbIn cgs) (\<lambda>cgs.
               cbind (flushEvents opts cgs) (\<lambda>cgs.
               cassert (int (length (sbInfo_instrs cgs)) = sbInfo_n_instrs cgs)
                 (Inr (sbOut cgs, glob cgs)))))))
           | _ \<Rightarrow> Inl Assert_fail)"

section \<open>Execution of an instrumented block\<close>

text \<open>
  Blocks are in single assignment form: an execution gives every temporary one value, that is an
  environment that satisfies all assignments of the block.
\<close>

fun atom_val :: "(nat \<Rightarrow> Addr) \<Rightarrow> IRAtom \<Rightarrow> Addr" where
  "atom_val env (RdTmp t) = env t"
| "atom_val env (Const c) = c"

fun assignment_holds :: "(nat \<Rightarrow> Addr) \<Rightarrow> OutStmt \<Rightarrow> bool" where
  "assignment_holds env (Wr_atom t a) \<longleftrightarrow> env t = atom_val env a"
| "assignment_holds env (Wr_widen t u) \<longleftrightarrow> env t = env u"
| "assignment_holds env (Wr_xor1 t u) \<longleftrightarrow> env t = env u XOR 1"
| "assignment_holds env _ \<longleftrightarrow> True"

definition consistent :: "(nat \<Rightarrow> Addr) \<Rightarrow> OutStmt list \<Rightarrow> bool" where
  "consistent env out = list_all (assignment_holds env) out"

fun run_call :: "VGA_arch \<Rightarrow> (nat \<Rightarrow> Addr) \<Rightarrow> HelperCall \<Rightarrow> cg \<Rightarrow> cg cres" where
  "run_call arch env (Call_1Ir n) = log_1Ir n"
| "run_call arch env (Call_2Ir n n2) = log_2Ir n n2"
| "run_call arch env (Call_3Ir n n2 n3) = log_3Ir n n2 n3"
| "run_call arch env (Call_1IrGen_0D n) = log_1IrGen_0D_cache_access n"
| "run_call arch env (Call_1IrNoX_0D n) = log_1IrNoX_0D_cache_access n"
| "run_call arch env (Call_2IrNoX_0D n n2) = log_2IrNoX_0D_cache_access n n2"
| "run_call arch env (Call_3IrNoX_0D n n2 n3) = log_3IrNoX_0D_cache_access n n2 n3"
| "run_call arch env (Call_1IrNoX_1Dr n ea sz) = log_1IrNoX_1Dr_cache_access n (atom_val env ea) sz"
| "run_call arch env (Call_1IrNoX_1Dw n ea sz) = log_1IrNoX_1Dw_cache_access n (atom_val env ea) sz"
| "run_call arch env (Call_0Ir_1Dr n ea sz) = log_0Ir_1Dr_cache_access n (atom_val env ea) sz"
| "run_call arch env (Call_0Ir_1Dw n ea sz) = log_0Ir_1Dw_cache_access n (atom_val env ea) sz"
| "run_call arch env (Call_cond_branch n taken) = log_cond_branch arch n (sint (atom_val env taken))"
| "run_call arch env (Call_ind_branch n dst) = log_ind_branch arch n (atom_val env dst)"

text \<open>The flag of the result tells whether the block was left through a side exit.\<close>

fun exec_out :: "VGA_arch \<Rightarrow> (nat \<Rightarrow> Addr) \<Rightarrow> OutStmt list \<Rightarrow> cg \<Rightarrow> (bool \<times> cg) cres" where
  "exec_out arch env [] st = Inr (False, st)"
| "exec_out arch env (Call guard c # out) st =
     (case guard of
        Some a \<Rightarrow> if atom_val env a \<noteq> 0 then cbind (run_call arch env c st) (exec_out arch env out)
                  else exec_out arch env out st
      | None \<Rightarrow> cbind (run_call arch env c st) (exec_out arch env out))"
| "exec_out arch env (Copy (Ist_Exit jk guard dst) # out) st =
     (if atom_val env guard \<noteq> 0 then Inr (True, st) else exec_out arch env out st)"
| "exec_out arch env (_ # out) st = exec_out arch env out st"

section \<open>Specification\<close>

text \<open>
  What a block should count, without queue and merged calls: one action per event. A write that
  follows a read of the same instruction, size and address at once turns it into a modification,
  unless a side exit, a guarded access or a load-linked lies between them.
\<close>

datatype item = Now Event | Guarded IRAtom Event | Fence | Leave IRAtom

definition run_event :: "VGA_arch \<Rightarrow> bool \<Rightarrow> (nat \<Rightarrow> Addr) \<Rightarrow> Event \<Rightarrow> cg \<Rightarrow> cg cres" where
  "run_event arch cs env ev =
     (case ev of
        Ev_IrNoX n \<Rightarrow> if cs then log_1IrNoX_0D_cache_access (snd n) else log_1Ir (snd n)
      | Ev_IrGen n \<Rightarrow> if cs then log_1IrGen_0D_cache_access (snd n) else log_1Ir (snd n)
      | Ev_Dr n ea sz \<Rightarrow> log_0Ir_1Dr_cache_access (snd n) (atom_val env ea) sz
      | Ev_Dm n ea sz \<Rightarrow> log_0Ir_1Dr_cache_access (snd n) (atom_val env ea) sz
      | Ev_Dw n ea sz \<Rightarrow> log_0Ir_1Dw_cache_access (snd n) (atom_val env ea) sz
      | Ev_Bc n taken \<Rightarrow> log_cond_branch arch (snd n) (sint (atom_val env taken))
      | Ev_Bi n dst \<Rightarrow> log_ind_branch arch (snd n) (atom_val env dst))"

fun exec_items :: "VGA_arch \<Rightarrow> bool \<Rightarrow> (nat \<Rightarrow> Addr) \<Rightarrow> item list \<Rightarrow> cg \<Rightarrow> (bool \<times> cg) cres" where
  "exec_items arch cs env [] st = Inr (False, st)"
| "exec_items arch cs env (Now ev # its) st =
     cbind (run_event arch cs env ev st) (exec_items arch cs env its)"
| "exec_items arch cs env (Guarded a ev # its) st =
     (if atom_val env a \<noteq> 0 then cbind (run_event arch cs env ev st) (exec_items arch cs env its)
      else exec_items arch cs env its st)"
| "exec_items arch cs env (Fence # its) st = exec_items arch cs env its st"
| "exec_items arch cs env (Leave a # its) st =
     (if atom_val env a \<noteq> 0 then Inr (True, st) else exec_items arch cs env its st)"

record SpecState =
  sp_items :: "item list"
  sp_count :: nat
  sp_inode :: inode
  sp_nia :: Addr

definition spec_add :: "item \<Rightarrow> SpecState \<Rightarrow> SpecState" where
  "spec_add it s = s\<lparr>sp_items := sp_items s @ [it]\<rparr>"

definition spec_read :: "CgOpts \<Rightarrow> int \<Rightarrow> IRAtom \<Rightarrow> SpecState \<Rightarrow> SpecState" where
  "spec_read opts sz ea s = (if clo_cache_sim opts then spec_add (Now (Ev_Dr (sp_inode s) ea sz)) s else s)"

definition spec_write :: "CgOpts \<Rightarrow> int \<Rightarrow> IRAtom \<Rightarrow> SpecState \<Rightarrow> SpecState" where
  "spec_write opts sz ea s =
     (if \<not> clo_cache_sim opts then s
      else if sp_items s \<noteq> [] \<and> last (sp_items s) = Now (Ev_Dr (sp_inode s) ea sz)
      then s\<lparr>sp_items := butlast (sp_items s) @ [Now (Ev_Dm (sp_inode s) ea sz)]\<rparr>
      else spec_add (Now (Ev_Dw (sp_inode s) ea sz)) s)"

definition spec_guarded :: "CgOpts \<Rightarrow> IRAtom \<Rightarrow> Event \<Rightarrow> SpecState \<Rightarrow> SpecState" where
  "spec_guarded opts guard ev s = (if clo_cache_sim opts then spec_add (Guarded guard ev) s else s)"

definition spec_branch :: "CgOpts \<Rightarrow> (nat \<Rightarrow> Addr) \<Rightarrow> IRAtom \<Rightarrow> IRConst \<Rightarrow> SpecState \<Rightarrow> SpecState" where
  "spec_branch opts env guard dst s =
     (let taken = (if dst = Ico_U64 (sp_nia s) then atom_val env guard XOR 1 else atom_val env guard) in
      if clo_branch_sim opts then spec_add (Now (Ev_Bc (sp_inode s) (Const taken))) s else s)"

definition spec_stmt ::
  "VGA_arch \<Rightarrow> CgOpts \<Rightarrow> (InstrInfo \<Rightarrow> bool) \<Rightarrow> (Addr \<Rightarrow> CodeLoc) \<Rightarrow> (nat \<Rightarrow> Addr) \<Rightarrow>
     IRStmt \<Rightarrow> SpecState \<Rightarrow> SpecState" where
  "spec_stmt arch opts nox loc env st s =
     (case st of
        Ist_IMark addr len \<Rightarrow>
          (let sz = fix_isize arch len;
               n = (sp_count s, \<lparr>instr_addr = addr, instr_len = ucast sz, parent = loc addr\<rparr>)
           in spec_add (Now (if nox (snd n) then Ev_IrNoX n else Ev_IrGen n))
                (s\<lparr>sp_count := sp_count s + 1, sp_inode := n, sp_nia := addr + ucast sz\<rparr>))
      | Ist_WrTmp _ data \<Rightarrow> (case data of Some (sz, ea) \<Rightarrow> spec_read opts sz ea s | None \<Rightarrow> s)
      | Ist_Store sz ea \<Rightarrow> spec_write opts sz ea s
      | Ist_StoreG sz ea guard \<Rightarrow> spec_guarded opts guard (Ev_Dw (sp_inode s) ea sz) s
      | Ist_LoadG sz ea guard \<Rightarrow> spec_guarded opts guard (Ev_Dr (sp_inode s) ea sz) s
      | Ist_Dirty mFx mAddr mSize \<Rightarrow>
          (case (mFx, mAddr) of
             (Ifx_Read, Some ea) \<Rightarrow> spec_read opts (clip opts mSize) ea s
           | (Ifx_Write, Some ea) \<Rightarrow> spec_write opts (clip opts mSize) ea s
           | (Ifx_Modify, Some ea) \<Rightarrow>
               spec_write opts (clip opts mSize) ea (spec_read opts (clip opts mSize) ea s)
           | _ \<Rightarrow> s)
      | Ist_CAS szLo hasHi ea \<Rightarrow>
          (let sz = clip opts (if hasHi then szLo * 2 else szLo)
           in spec_write opts sz ea (spec_read opts sz ea s))
      | Ist_LLSC isStore sz ea \<Rightarrow>
          (if isStore then spec_write opts sz ea s else spec_add Fence (spec_read opts sz ea s))
      | Ist_Exit jk guard dst \<Rightarrow>
          spec_add (Leave guard) (if jk = Ijk_other then s else spec_branch opts env guard dst s)
      | _ \<Rightarrow> s)"

definition spec_next :: "CgOpts \<Rightarrow> (nat \<Rightarrow> Addr) \<Rightarrow> IRSB \<Rightarrow> SpecState \<Rightarrow> SpecState" where
  "spec_next opts env sb s =
     (case sb_next sb of
        RdTmp t \<Rightarrow>
          if (jumpkind sb = Ijk_Boring \<or> jumpkind sb = Ijk_Call) \<and> clo_branch_sim opts
          then spec_add (Now (Ev_Bi (sp_inode s) (Const (env t)))) s else s
      | Const _ \<Rightarrow> s)"

text \<open>Statements before the first instruction are only copied; they may still leave the block.\<close>

fun preamble_item :: "IRStmt \<Rightarrow> item list" where
  "preamble_item (Ist_Exit jk guard dst) = [Leave guard]"
| "preamble_item _ = []"

definition block_items ::
  "VGA_arch \<Rightarrow> CgOpts \<Rightarrow> (InstrInfo \<Rightarrow> bool) \<Rightarrow> (Addr \<Rightarrow> CodeLoc) \<Rightarrow> (nat \<Rightarrow> Addr) \<Rightarrow> IRSB \<Rightarrow> item list" where
  "block_items arch opts nox loc env sb =
     (let rest = dropWhile (\<lambda>s. \<not> is_IMark s) (stmts sb);
          s0 = \<lparr>sp_items = concat (map preamble_item (takeWhile (\<lambda>s. \<not> is_IMark s) (stmts sb))),
            sp_count = 0, sp_inode = (0, \<lparr>instr_addr = 0, instr_len = 0, parent = loc 0\<rparr>), sp_nia = 0\<rparr>
      in sp_items (spec_next opts env sb (fold (spec_stmt arch opts nox loc env) rest s0)))"

fun is_data :: "Event \<Rightarrow> bool" where
  "is_data (Ev_Dr _ _ _) = True"
| "is_data (Ev_Dw _ _ _) = True"
| "is_data (Ev_Dm _ _ _) = True"
| "is_data _ = False"

text \<open>An event with the branch condition or target that it has in an execution.\<close>

fun norm :: "(nat \<Rightarrow> Addr) \<Rightarrow> Event \<Rightarrow> Event" where
  "norm env (Ev_Bc n a) = Ev_Bc n (Const (atom_val env a))"
| "norm env (Ev_Bi n a) = Ev_Bi n (Const (atom_val env a))"
| "norm env ev = ev"

text \<open>
  The output so far and the queue stand for the items: the output for a prefix, the queue for the
  rest. When the queue is empty the last item is not a plain event, so nothing can be merged with
  it.
\<close>

definition items_rel ::
  "VGA_arch \<Rightarrow> CgOpts \<Rightarrow> (nat \<Rightarrow> Addr) \<Rightarrow> CgState \<Rightarrow> item list \<Rightarrow> bool" where
  "items_rel arch opts env cgs M \<longleftrightarrow>
     (\<exists>P. M = P @ map (\<lambda>e. Now (norm env e)) (events cgs) \<and>
        (\<forall>st. exec_out arch env (sbOut cgs) st = exec_items arch (clo_cache_sim opts) env P st) \<and>
        (events cgs = [] \<longrightarrow> P = [] \<or> (\<forall>e. last P \<noteq> Now e))) \<and>
     (\<not> clo_cache_sim opts \<longrightarrow> (\<forall>e \<in> set (events cgs). \<not> is_data e))"

definition state_rel ::
  "VGA_arch \<Rightarrow> CgOpts \<Rightarrow> cachesim \<Rightarrow> (nat \<Rightarrow> Addr) \<Rightarrow> CgState \<Rightarrow> SpecState \<Rightarrow> bool" where
  "state_rel arch opts s0 env cgs s \<longleftrightarrow>
     items_rel arch opts env cgs (sp_items s) \<and> sp_count s = length (sbInfo_instrs cgs) \<and>
     (\<forall>n. curr_inode cgs = Some n \<longrightarrow> sp_inode s = n \<and> sp_nia s = cia cgs + ucast (isize cgs)) \<and>
     tables_ok (glob cgs) \<and> sim (glob cgs) = s0"

text \<open>The statements of the input that the output copies, and outputs that grow by calls only.\<close>

definition copies :: "OutStmt list \<Rightarrow> IRStmt list" where
  "copies out = concat (map (\<lambda>x. case x of Copy st \<Rightarrow> [st] | _ \<Rightarrow> []) out)"

definition grows :: "CgState \<Rightarrow> CgState \<Rightarrow> bool" where
  "grows cgs cgs' \<longleftrightarrow> (\<exists>ys. sbOut cgs' = sbOut cgs @ ys \<and> copies ys = [])"

text \<open>An operation that only touches the output and the queue.\<close>

definition extends :: "CgState \<Rightarrow> CgState \<Rightarrow> bool" where
  "extends cgs cgs' \<longleftrightarrow> (\<exists>ys evs. cgs' = cgs\<lparr>sbOut := sbOut cgs @ ys, events := evs\<rparr>)"

section \<open>Flushing\<close>

lemma exec_out_append:
  "exec_out arch env (xs @ ys) st =
     cbind (exec_out arch env xs st) (\<lambda>(left, st). if left then Inr (True, st) else exec_out arch env ys st)"
  by (induction arch env xs st rule: exec_out.induct)
    (auto simp: cbind_assoc split: option.splits intro!: arg_cong2 [where f = cbind])

lemma exec_items_append:
  "exec_items arch cs env (xs @ ys) st =
     cbind (exec_items arch cs env xs st) (\<lambda>(left, st). if left then Inr (True, st) else exec_items arch cs env ys st)"
  by (induction arch cs env xs st rule: exec_items.induct)
    (auto simp: cbind_assoc intro!: arg_cong2 [where f = cbind])

lemma run_event_norm [simp]: "run_event arch cs env (norm env e) = run_event arch cs env e"
  by (cases e) (simp_all add: run_event_def)

lemma log_merged:
  "log_2Ir n n2 st = cbind (log_1Ir n st) (log_1Ir n2)"
  "log_3Ir n n2 n3 st = cbind (log_1Ir n st) (\<lambda>st. cbind (log_1Ir n2 st) (log_1Ir n3))"
  "log_2IrNoX_0D_cache_access n n2 st =
     cbind (log_1IrNoX_0D_cache_access n st) (log_1IrNoX_0D_cache_access n2)"
  "log_3IrNoX_0D_cache_access n n2 n3 st =
     cbind (log_1IrNoX_0D_cache_access n st) (\<lambda>st. cbind (log_1IrNoX_0D_cache_access n2 st) (log_1IrNoX_0D_cache_access n3))"
  "log_1IrNoX_1Dr_cache_access n a sz st =
     cbind (log_1IrNoX_0D_cache_access n st) (log_0Ir_1Dr_cache_access n a sz)"
  "log_1IrNoX_1Dw_cache_access n a sz st =
     cbind (log_1IrNoX_0D_cache_access n st) (log_0Ir_1Dw_cache_access n a sz)"
  by (simp_all add: log_1Ir_def log_2Ir_def log_3Ir_def log_2IrNoX_0D_cache_access_def
      log_3IrNoX_0D_cache_access_def log_1IrNoX_0D_cache_access_def [abs_def] log_1IrNoX_1Dr_cache_access_def
      log_1IrNoX_1Dw_cache_access_def log_0Ir_1Dr_cache_access_def log_0Ir_1Dw_cache_access_def)

lemma exec_Cons_fun:
  "exec_out arch env (Call None c # out) = (\<lambda>st. cbind (run_call arch env c st) (exec_out arch env out))"
  "exec_items arch cs env (Now ev # its) = (\<lambda>st. cbind (run_event arch cs env ev st) (exec_items arch cs env its))"
  by auto

lemma exec_Nil_fun:
  "exec_out arch env [] = (\<lambda>st. Inr (False, st))" "exec_items arch cs env [] = (\<lambda>st. Inr (False, st))"
  by auto

lemma flush_from_exec:
  assumes "flush_from cs evs = Inr calls" and "\<not> cs \<Longrightarrow> \<forall>e \<in> set evs. \<not> is_data e"
  shows "exec_out arch env (map (Call None) calls) =
    exec_items arch cs env (map (\<lambda>e. Now (norm env e)) evs)"
  using assms
  by (induction cs evs arbitrary: calls rule: flush_from.induct)
    (auto simp: exec_Cons_fun exec_Nil_fun cbind_eq_Inr cassert_eq_Inr run_event_def log_merged cbind_assoc
      simp del: exec_out.simps exec_items.simps split: if_splits)

lemma flushEvents_exec:
  assumes "flushEvents opts cgs = Inr cgs'" and "\<not> clo_cache_sim opts \<longrightarrow> (\<forall>e \<in> set (events cgs). \<not> is_data e)"
    and "\<forall>st. exec_out arch env (sbOut cgs) st = exec_items arch (clo_cache_sim opts) env P st"
  shows "\<forall>st. exec_out arch env (sbOut cgs') st =
      exec_items arch (clo_cache_sim opts) env (P @ map (\<lambda>e. Now (norm env e)) (events cgs)) st"
    "events cgs' = []" "\<exists>ys. cgs' = cgs\<lparr>sbOut := sbOut cgs @ ys, events := []\<rparr>"
proof -
  obtain calls where calls: "flush_from (clo_cache_sim opts) (events cgs) = Inr calls"
    and cgs': "cgs' = cgs\<lparr>sbOut := sbOut cgs @ map (Call None) calls, events := []\<rparr>"
    using assms(1) by (auto simp: flushEvents_def cbind_eq_Inr)
  show "\<forall>st. exec_out arch env (sbOut cgs') st =
      exec_items arch (clo_cache_sim opts) env (P @ map (\<lambda>e. Now (norm env e)) (events cgs)) st"
    using assms(3) flush_from_exec [OF calls, of arch env] assms(2)
    by (simp add: cgs' exec_out_append exec_items_append cong: if_cong)
  show "events cgs' = []" "\<exists>ys. cgs' = cgs\<lparr>sbOut := sbOut cgs @ ys, events := []\<rparr>"
    using cgs' by auto
qed

lemma extendsI: "cgs' = cgs\<lparr>sbOut := sbOut cgs @ ys, events := evs\<rparr> \<Longrightarrow> extends cgs cgs'"
  unfolding extends_def by blast

lemma extends_refl [simp]: "extends cgs cgs"
  by (rule extendsI [where ys = "[]" and evs = "events cgs"]) simp

lemma extends_trans:
  assumes "extends a b" and "extends b c"
  shows "extends a c"
proof -
  obtain ys evs zs evs' where "b = a\<lparr>sbOut := sbOut a @ ys, events := evs\<rparr>"
    "c = b\<lparr>sbOut := sbOut b @ zs, events := evs'\<rparr>"
    using assms unfolding extends_def by blast
  then show ?thesis by (intro extendsI [where ys = "ys @ zs" and evs = evs']) simp
qed

lemma append_event_rel:
  assumes "append_event opts ev cgs = Inr cgs'" and "items_rel arch opts env cgs M"
    and "\<not> clo_cache_sim opts \<Longrightarrow> \<not> is_data ev"
  shows "items_rel arch opts env cgs' (M @ [Now (norm env ev)])" "extends cgs cgs'"
proof -
  obtain P where P: "M = P @ map (\<lambda>e. Now (norm env e)) (events cgs)"
    "\<forall>st. exec_out arch env (sbOut cgs) st = exec_items arch (clo_cache_sim opts) env P st"
    and D: "\<not> clo_cache_sim opts \<longrightarrow> (\<forall>e \<in> set (events cgs). \<not> is_data e)"
    using assms(2) by (auto simp: items_rel_def)
  obtain c1 where c1: "(if length (events cgs) = N_EVENTS then flushEvents opts cgs else Inr cgs) = Inr c1"
    and cgs': "cgs' = c1\<lparr>events := events c1 @ [ev]\<rparr>"
    using assms(1) by (auto simp: append_event_def cbind_eq_Inr cassert_eq_Inr)
  have "items_rel arch opts env cgs' (M @ [Now (norm env ev)]) \<and> extends cgs cgs'"
  proof (cases "length (events cgs) = N_EVENTS")
    case True
    then have "flushEvents opts cgs = Inr c1" using c1 by simp
    from flushEvents_exec [OF this D P(2)] obtain ys where
      f: "\<forall>st. exec_out arch env (sbOut c1) st = exec_items arch (clo_cache_sim opts) env M st"
      "c1 = cgs\<lparr>sbOut := sbOut cgs @ ys, events := []\<rparr>" using P(1) by blast
    then have "extends cgs cgs'" by (intro extendsI [where ys = ys and evs = "[ev]"]) (simp add: cgs')
    then show ?thesis
      using f assms(3) unfolding items_rel_def by (auto simp: cgs' intro!: exI [of _ M])
  next
    case False
    then have "c1 = cgs" using c1 by simp
    moreover from this have "extends cgs cgs'"
      by (intro extendsI [where ys = "[]" and evs = "events cgs @ [ev]"]) (simp add: cgs')
    ultimately show ?thesis
      using P D assms(3) unfolding items_rel_def by (auto simp: cgs' intro!: exI [of _ P])
  qed
  then show "items_rel arch opts env cgs' (M @ [Now (norm env ev)])" "extends cgs cgs'" by auto
qed

section \<open>Simulation\<close>

lemma state_rel_extends:
  assumes "state_rel arch opts s0 env cgs s" and "extends cgs cgs'"
    and "items_rel arch opts env cgs' M"
  shows "state_rel arch opts s0 env cgs' (s\<lparr>sp_items := M\<rparr>)"
  using assms unfolding state_rel_def extends_def by auto

lemma with_inode_rel:
  assumes "with_inode f cgs = Inr cgs'" and "state_rel arch opts s0 env cgs s"
  shows "f (sp_inode s) cgs = Inr cgs'" "curr_inode cgs = Some (sp_inode s)"
  using assms by (auto simp: with_inode_def state_rel_def split: option.splits)

lemma Dr_rel:
  assumes "with_inode (\<lambda>n. addEvent_Dr opts n sz ea) cgs = Inr cgs'" and "state_rel arch opts s0 env cgs s"
  shows "state_rel arch opts s0 env cgs' (spec_read opts sz ea s)" "extends cgs cgs'"
proof -
  have r: "addEvent_Dr opts (sp_inode s) sz ea cgs = Inr cgs'" using with_inode_rel [OF assms] by simp
  have i: "items_rel arch opts env cgs (sp_items s)" using assms(2) by (simp add: state_rel_def)
  have "state_rel arch opts s0 env cgs' (spec_read opts sz ea s) \<and> extends cgs cgs'"
  proof (cases "clo_cache_sim opts")
    case True
    then have "append_event opts (Ev_Dr (sp_inode s) ea sz) cgs = Inr cgs'"
      using r by (simp add: addEvent_Dr_def cassert_eq_Inr)
    note a = append_event_rel [OF this i]
    show ?thesis
      using True a state_rel_extends [OF assms(2) a(2)] by (simp add: spec_read_def spec_add_def)
  qed (use r assms(2) in \<open>auto simp: addEvent_Dr_def cassert_eq_Inr spec_read_def\<close>)
  then show "state_rel arch opts s0 env cgs' (spec_read opts sz ea s)" "extends cgs cgs'" by auto
qed

lemma eqIRAtom_iff [simp]: "eqIRAtom a b \<longleftrightarrow> a = b"
  by (auto simp: eqIRAtom_def split: IRAtom.splits)

lemma merge_last_Some:
  "merge_last n sz ea evs = Some evs' \<longleftrightarrow>
     evs \<noteq> [] \<and> last evs = Ev_Dr n ea sz \<and> evs' = butlast evs @ [Ev_Dm n ea sz]"
  by (auto simp: merge_last_def split: Event.splits if_splits)

lemma norm_Dr [simp]: "norm env e = Ev_Dr n ea sz \<longleftrightarrow> e = Ev_Dr n ea sz"
  by (cases e) auto

lemma items_rel_last:
  assumes "items_rel arch opts env cgs M"
  shows "M \<noteq> [] \<and> last M = Now (Ev_Dr n ea sz) \<longleftrightarrow> events cgs \<noteq> [] \<and> last (events cgs) = Ev_Dr n ea sz"
proof -
  obtain P where "M = P @ map (\<lambda>e. Now (norm env e)) (events cgs)"
    "events cgs = [] \<longrightarrow> P = [] \<or> (\<forall>e. last P \<noteq> Now e)"
    using assms by (auto simp: items_rel_def)
  then show ?thesis by (cases "events cgs" rule: rev_cases) auto
qed

lemma items_rel_merge:
  assumes "items_rel arch opts env cgs M" and "events cgs \<noteq> []" and "last (events cgs) = Ev_Dr n ea sz"
  shows "items_rel arch opts env (cgs\<lparr>events := butlast (events cgs) @ [Ev_Dm n ea sz]\<rparr>)
    (butlast M @ [Now (Ev_Dm n ea sz)])"
  using assms by (cases "events cgs" rule: rev_cases) (auto simp: items_rel_def butlast_append)

lemma Dw_rel:
  assumes "with_inode (\<lambda>n. addEvent_Dw opts n sz ea) cgs = Inr cgs'" and "state_rel arch opts s0 env cgs s"
  shows "state_rel arch opts s0 env cgs' (spec_write opts sz ea s)" "extends cgs cgs'"
proof -
  let ?n = "sp_inode s"
  have r: "addEvent_Dw opts ?n sz ea cgs = Inr cgs'" using with_inode_rel [OF assms] by simp
  have i: "items_rel arch opts env cgs (sp_items s)" using assms(2) by (simp add: state_rel_def)
  have "state_rel arch opts s0 env cgs' (spec_write opts sz ea s) \<and> extends cgs cgs'"
  proof (cases "clo_cache_sim opts")
    case cs: True
    show ?thesis
    proof (cases "events cgs \<noteq> [] \<and> last (events cgs) = Ev_Dr ?n ea sz")
      case True
      let ?evs = "butlast (events cgs) @ [Ev_Dm ?n ea sz]"
      have "merge_last ?n sz ea (events cgs) = Some ?evs" using True merge_last_Some by simp
      then have c: "cgs' = cgs\<lparr>events := ?evs\<rparr>" using cs r by (auto simp: addEvent_Dw_def cassert_eq_Inr)
      then have e: "extends cgs cgs'" by (intro extendsI [where ys = "[]" and evs = ?evs]) simp
      show ?thesis
        using cs True items_rel_last [OF i] e state_rel_extends [OF assms(2) e]
          items_rel_merge [OF i] by (auto simp: spec_write_def c)
    next
      case False
      then have "merge_last ?n sz ea (events cgs) = None" using merge_last_Some by (metis option.exhaust)
      then have "append_event opts (Ev_Dw ?n ea sz) cgs = Inr cgs'"
        using cs r by (simp add: addEvent_Dw_def cassert_eq_Inr)
      note a = append_event_rel [OF this i]
      show ?thesis
        using cs False items_rel_last [OF i] a state_rel_extends [OF assms(2) a(2)]
        by (auto simp: spec_write_def spec_add_def)
    qed
  qed (use r assms(2) in \<open>auto simp: addEvent_Dw_def cassert_eq_Inr spec_write_def\<close>)
  then show "state_rel arch opts s0 env cgs' (spec_write opts sz ea s)" "extends cgs cgs'" by auto
qed

lemma items_rel_flush:
  assumes "flushEvents opts cgs = Inr cgs'" and "items_rel arch opts env cgs M"
  shows "\<forall>st. exec_out arch env (sbOut cgs') st = exec_items arch (clo_cache_sim opts) env M st"
    "events cgs' = []" "extends cgs cgs'"
proof -
  obtain P where P: "M = P @ map (\<lambda>e. Now (norm env e)) (events cgs)"
    "\<forall>st. exec_out arch env (sbOut cgs) st = exec_items arch (clo_cache_sim opts) env P st"
    and D: "\<not> clo_cache_sim opts \<longrightarrow> (\<forall>e \<in> set (events cgs). \<not> is_data e)"
    using assms(2) by (auto simp: items_rel_def)
  note f = flushEvents_exec [OF assms(1) D P(2)]
  show "\<forall>st. exec_out arch env (sbOut cgs') st = exec_items arch (clo_cache_sim opts) env M st"
    "events cgs' = []" using f(1,2) P(1) by auto
  show "extends cgs cgs'" using f(3) extendsI by blast
qed

lemma items_rel_emit:
  assumes "\<forall>st. exec_out arch env (sbOut cgs) st = exec_items arch (clo_cache_sim opts) env M st"
    and "events cgs = []" and "\<forall>e. it \<noteq> Now e"
    and "exec_out arch env ys = exec_items arch (clo_cache_sim opts) env [it]"
  shows "items_rel arch opts env (cgs\<lparr>sbOut := sbOut cgs @ ys\<rparr>) (M @ [it])"
  using assms unfolding items_rel_def
  by (intro conjI exI [of _ "M @ [it]"]) (simp_all add: exec_out_append exec_items_append cong: if_cong)

lemma exec_single:
  "exec_out arch env [] = exec_items arch cs env [Fence]"
  "exec_out arch env [Copy (Ist_Exit jk a dst)] = exec_items arch cs env [Leave a]"
  by (auto simp: fun_eq_iff)

lemma LL_rel:
  assumes "flushEvents opts cgs = Inr cgs'" and "state_rel arch opts s0 env cgs s"
  shows "state_rel arch opts s0 env cgs' (spec_add Fence s)" "extends cgs cgs'"
proof -
  have i: "items_rel arch opts env cgs (sp_items s)" using assms(2) by (simp add: state_rel_def)
  note f = items_rel_flush [OF assms(1) i]
  have "items_rel arch opts env (cgs'\<lparr>sbOut := sbOut cgs' @ []\<rparr>) (sp_items s @ [Fence])"
    by (rule items_rel_emit [OF f(1,2)]) (simp_all add: exec_single(1) [symmetric])
  then show "state_rel arch opts s0 env cgs' (spec_add Fence s)"
    using state_rel_extends [OF assms(2) f(3)] by (simp add: spec_add_def)
  show "extends cgs cgs'" by (rule f(3))
qed

lemma guarded_rel:
  assumes "with_inode (\<lambda>n. addEvent_D_guarded opts n sz ea guard w) cgs = Inr cgs'"
    and "state_rel arch opts s0 env cgs s"
  shows "state_rel arch opts s0 env cgs'
      (spec_guarded opts guard (if w then Ev_Dw (sp_inode s) ea sz else Ev_Dr (sp_inode s) ea sz) s)"
    "extends cgs cgs'"
proof -
  let ?n = "sp_inode s"
  let ?ev = "if w then Ev_Dw ?n ea sz else Ev_Dr ?n ea sz"
  let ?call = "if w then Call_0Ir_1Dw (snd ?n) ea sz else Call_0Ir_1Dr (snd ?n) ea sz"
  have r: "addEvent_D_guarded opts ?n sz ea guard w cgs = Inr cgs'" using with_inode_rel [OF assms] by simp
  have i: "items_rel arch opts env cgs (sp_items s)" using assms(2) by (simp add: state_rel_def)
  have "state_rel arch opts s0 env cgs' (spec_guarded opts guard ?ev s) \<and> extends cgs cgs'"
  proof (cases "clo_cache_sim opts")
    case True
    then obtain c1 where c1: "flushEvents opts cgs = Inr c1"
      and c': "cgs' = c1\<lparr>sbOut := sbOut c1 @ [Call (Some guard) ?call]\<rparr>"
      using r by (auto simp: addEvent_D_guarded_def cassert_eq_Inr cbind_eq_Inr Let_def)
    note f = items_rel_flush [OF c1 i]
    have "exec_out arch env [Call (Some guard) ?call] = exec_items arch (clo_cache_sim opts) env [Guarded guard ?ev]"
      by (cases w) (auto simp: fun_eq_iff run_event_def exec_Nil_fun)
    then have "items_rel arch opts env cgs' (sp_items s @ [Guarded guard ?ev])"
      unfolding c' by (intro items_rel_emit [OF f(1,2)]) simp_all
    moreover have "extends cgs cgs'"
      using f(3) by (rule extends_trans) (auto simp: c' intro: extendsI [where evs = "events c1"])
    ultimately show ?thesis
      using state_rel_extends [OF assms(2)] True by (simp add: spec_guarded_def spec_add_def)
  qed (use r assms(2) in \<open>auto simp: addEvent_D_guarded_def cassert_eq_Inr spec_guarded_def\<close>)
  then show "state_rel arch opts s0 env cgs' (spec_guarded opts guard ?ev s)" "extends cgs cgs'" by auto
qed

lemma exec_out_noop:
  assumes "exec_out arch env ys = exec_out arch env []"
  shows "exec_out arch env (xs @ ys) st = exec_out arch env xs st"
  using assms by (cases "exec_out arch env xs st") (auto simp: exec_out_append exec_Nil_fun)

lemma items_rel_noop:
  assumes "items_rel arch opts env cgs M" and "exec_out arch env ys = exec_out arch env []"
  shows "items_rel arch opts env (cgs\<lparr>out_temps := n, sbOut := sbOut cgs @ ys\<rparr>) M"
  using assms(1) unfolding items_rel_def by (simp add: exec_out_noop [OF assms(2)])

lemma consistent_append [simp]: "consistent env (xs @ ys) \<longleftrightarrow> consistent env xs \<and> consistent env ys"
  by (simp add: consistent_def)

lemma branch_rel:
  assumes "instrument_branch opts ty guard dst cgs = Inr cgs'" and "state_rel arch opts s0 env cgs s"
    and "consistent env (sbOut cgs')"
  shows "state_rel arch opts s0 env cgs' (spec_branch opts env guard dst s)"
proof -
  let ?t = "out_temps cgs"
  obtain sea where sea: "side_exit_addr ty dst = Inr sea"
    using assms(1) by (auto simp: instrument_branch_def Let_def cbind_eq_Inr)
  define inv where "inv = (cia cgs + ucast (isize cgs) = sea)"
  define ys where "ys = [Wr_atom ?t guard, Wr_widen (?t + 1) ?t,
      if inv then Wr_xor1 (?t + 2) (?t + 1) else Wr_atom (?t + 2) (RdTmp (?t + 1))]"
  define c1 where "c1 = cgs\<lparr>out_temps := ?t + 3, sbOut := sbOut cgs @ ys\<rparr>"
  have "with_inode (\<lambda>n. addEvent_Bc opts ty n (RdTmp (?t + 2))) c1 = Inr cgs'"
    using assms(1) sea by (simp add: instrument_branch_def Let_def c1_def ys_def inv_def split del: if_split cong: if_cong)
  moreover have "exec_out arch env ys = exec_out arch env []" by (auto simp: ys_def)
  then have rel1: "state_rel arch opts s0 env c1 s"
    using assms(2) items_rel_noop unfolding state_rel_def c1_def by auto
  ultimately have ev: "addEvent_Bc opts ty (sp_inode s) (RdTmp (?t + 2)) c1 = Inr cgs'"
    and cur: "curr_inode c1 = Some (sp_inode s)" using with_inode_rel by metis+
  have ty: "ty = Ity_I64" using ev by (simp add: addEvent_Bc_def cassert_eq_Inr)
  have dst: "dst = Ico_U64 sea" using sea ty by (auto simp: side_exit_addr_def split: IRConst.splits)
  have inv: "inv \<longleftrightarrow> dst = Ico_U64 (sp_nia s)"
    using cur assms(2) unfolding inv_def dst state_rel_def c1_def by auto
  show ?thesis
  proof (cases "clo_branch_sim opts")
    case True
    then have a: "append_event opts (Ev_Bc (sp_inode s) (RdTmp (?t + 2))) c1 = Inr cgs'"
      using ev by (simp add: addEvent_Bc_def cassert_eq_Inr)
    have i1: "items_rel arch opts env c1 (sp_items s)" using rel1 by (simp add: state_rel_def)
    note r = append_event_rel [OF a i1]
    obtain zs where "sbOut cgs' = sbOut cgs @ ys @ zs" using r(2) by (auto simp: extends_def c1_def)
    then have "consistent env ys" using assms(3) by simp
    then have "env (?t + 2) = (if inv then atom_val env guard XOR 1 else atom_val env guard)"
      by (auto simp: ys_def consistent_def split: if_splits)
    then show ?thesis
      using state_rel_extends [OF rel1 r(2) r(1)] True inv by (simp add: spec_branch_def spec_add_def)
  next
    case False
    then have "cgs' = c1" using ev by (simp add: addEvent_Bc_def cassert_eq_Inr)
    then show ?thesis using rel1 False by (simp add: spec_branch_def)
  qed
qed

lemma IMark_rel:
  assumes "cbind (setup_InstrInfo di addr sz (cgs\<lparr>cia := addr, isize := sz\<rparr>)) (\<lambda>(n, cgs).
      addEvent_Ir opts n (cgs\<lparr>curr_inode := Some n\<rparr>)) = Inr cgs'"
    and "state_rel arch opts s0 env cgs s"
  defines "n \<equiv> (sp_count s, \<lparr>instr_addr = addr, instr_len = ucast sz, parent = loc_of di addr\<rparr>)"
  shows "state_rel arch opts s0 env cgs'
    (spec_add (Now (if cachesim_is_IrNoX s0 addr (ucast sz) then Ev_IrNoX n else Ev_IrGen n))
       (s\<lparr>sp_count := sp_count s + 1, sp_inode := n, sp_nia := addr + ucast sz\<rparr>))"
proof -
  have t: "tables_ok (glob cgs)" "sp_count s = length (sbInfo_instrs cgs)" "sim (glob cgs) = s0"
    and i: "items_rel arch opts env cgs (sp_items s)"
    using assms(2) by (simp_all add: state_rel_def)
  obtain g where g: "get_lineCC di addr (glob cgs) = Inr (loc_of di addr, g)" "tables_ok g" "sim g = s0"
    using get_lineCC_cases [OF t(1)] t(3) by metis
  let ?ev = "if cachesim_is_IrNoX s0 addr (ucast sz) then Ev_IrNoX n else Ev_IrGen n"
  obtain st where st: "append_event opts ?ev (cgs\<lparr>cia := addr, isize := sz,
      sbInfo_instrs := sbInfo_instrs cgs @ [snd n], curr_inode := Some n, glob := g\<lparr>stats := st\<rparr>\<rparr>) = Inr cgs'" (is "append_event _ _ ?c = _")
    using assms(1) g t(2)
    by (auto simp: setup_InstrInfo_def cassert_eq_Inr cbind_eq_Inr addEvent_Ir_def Let_def n_def split: if_splits)
  have ic: "items_rel arch opts env ?c (sp_items s)" using i by (simp add: items_rel_def)
  have "\<not> is_data ?ev" "norm env ?ev = ?ev" by simp_all
  then have "items_rel arch opts env cgs' (sp_items s @ [Now ?ev])" "extends ?c cgs'"
    using append_event_rel [OF st ic] by metis+
  then show ?thesis
    using t(2) g unfolding state_rel_def extends_def
    by (auto simp: spec_add_def tables_ok_def)
qed

lemma exec_out_Copy:
  assumes "\<not> (\<exists>jk g dst. st = Ist_Exit jk g dst)"
  shows "exec_out arch env [Copy st] = exec_out arch env []"
  using assms by (cases st) auto

lemma copy_rel:
  assumes "state_rel arch opts s0 env cgs s" and "\<not> (\<exists>jk g dst. st = Ist_Exit jk g dst)"
  shows "state_rel arch opts s0 env (cgs\<lparr>sbOut := sbOut cgs @ [Copy st]\<rparr>) s"
  using assms(1) items_rel_noop [OF _ exec_out_Copy [OF assms(2)], of arch opts env cgs _ "out_temps cgs"]
  unfolding state_rel_def by auto

lemma exit_rel:
  assumes "flushEvents opts cgs = Inr cgs'" and "state_rel arch opts s0 env cgs s"
  shows "state_rel arch opts s0 env (cgs'\<lparr>sbOut := sbOut cgs' @ [Copy (Ist_Exit jk guard dst)]\<rparr>)
    (spec_add (Leave guard) s)"
proof -
  have i: "items_rel arch opts env cgs (sp_items s)" using assms(2) by (simp add: state_rel_def)
  note f = items_rel_flush [OF assms(1) i]
  have "items_rel arch opts env (cgs'\<lparr>sbOut := sbOut cgs' @ [Copy (Ist_Exit jk guard dst)]\<rparr>)
      (sp_items s @ [Leave guard])"
    by (rule items_rel_emit [OF f(1,2) _ exec_single(2)]) simp
  moreover have "extends cgs (cgs'\<lparr>sbOut := sbOut cgs' @ [Copy (Ist_Exit jk guard dst)]\<rparr>)"
    using f(3) by (rule extends_trans) (rule extendsI [where evs = "events cgs'"], simp)
  ultimately show ?thesis
    using state_rel_extends [OF assms(2)] by (simp add: spec_add_def)
qed

lemma copies_simps [simp]:
  "copies [] = []" "copies (xs @ ys) = copies xs @ copies ys" "copies (Copy st # out) = st # copies out"
  "copies (Call g c # out) = copies out" "copies (Wr_atom t a # out) = copies out"
  "copies (Wr_widen t u # out) = copies out" "copies (Wr_xor1 t u # out) = copies out"
  by (simp_all add: copies_def)

lemma copies_Call [simp]: "copies (map (Call g) calls) = []"
  by (induction calls) auto

lemma grows_refl [simp]: "grows a a"
  by (simp add: grows_def)

lemma grows_trans: "grows a b \<Longrightarrow> grows b c \<Longrightarrow> grows a c"
  by (auto simp: grows_def)

lemma grows_cong: "grows a b \<Longrightarrow> sbOut a' = sbOut a \<Longrightarrow> grows a' b"
  by (simp add: grows_def)

lemma flush_grows: "flushEvents opts cgs = Inr cgs' \<Longrightarrow> grows cgs cgs'"
  by (auto simp: flushEvents_def cbind_eq_Inr grows_def)

lemma append_grows: "append_event opts ev cgs = Inr cgs' \<Longrightarrow> grows cgs cgs'"
  by (auto simp: append_event_def cbind_eq_Inr cassert_eq_Inr grows_def split: if_splits dest!: flush_grows)

lemma addEvent_grows:
  "addEvent_Ir opts n cgs = Inr cgs' \<Longrightarrow> grows cgs cgs'"
  "addEvent_Dr opts n sz ea cgs = Inr cgs' \<Longrightarrow> grows cgs cgs'"
  "addEvent_Dw opts n sz ea cgs = Inr cgs' \<Longrightarrow> grows cgs cgs'"
  "addEvent_D_guarded opts n sz ea g w cgs = Inr cgs' \<Longrightarrow> grows cgs cgs'"
  "addEvent_Bc opts ty n ea cgs = Inr cgs' \<Longrightarrow> grows cgs cgs'"
  "addEvent_Bi opts ty n ea cgs = Inr cgs' \<Longrightarrow> grows cgs cgs'"
  by (auto simp: addEvent_Ir_def addEvent_Dr_def addEvent_Dw_def addEvent_D_guarded_def addEvent_Bc_def
      addEvent_Bi_def Let_def cassert_eq_Inr cbind_eq_Inr grows_def split: if_splits option.splits
      dest!: append_grows flush_grows)

lemma branch_grows: "instrument_branch opts ty guard dst cgs = Inr cgs' \<Longrightarrow> grows cgs cgs'"
  by (auto simp: instrument_branch_def Let_def cbind_eq_Inr with_inode_def grows_def
      split: option.splits if_splits dest!: addEvent_grows)

lemma stmt_grows: "instrument_stmt arch opts di ty st cgs = Inr cgs' \<Longrightarrow> grows cgs cgs'"
  by (cases st)
    (auto simp: instrument_stmt_def Let_def cassert_eq_Inr cbind_eq_Inr with_inode_def setup_InstrInfo_def
      split: option.splits if_splits prod.splits dest!: addEvent_grows branch_grows flush_grows
      elim: grows_trans grows_cong)

lemma stmt_rel:
  assumes "instrument_stmt arch opts di ty st cgs = Inr cgs'" and "state_rel arch opts s0 env cgs s"
    and "consistent env (sbOut cgs')"
  shows "state_rel arch opts s0 env (cgs'\<lparr>sbOut := sbOut cgs' @ [Copy st]\<rparr>)
    (spec_stmt arch opts (\<lambda>i. cachesim_is_IrNoX s0 (instr_addr i) (instr_len i)) (loc_of di) env st s)"
proof (cases st)
  case (Ist_IMark addr len)
  then have "cbind (setup_InstrInfo di addr (fix_isize arch len) (cgs\<lparr>cia := addr, isize := fix_isize arch len\<rparr>))
      (\<lambda>(n, cgs). addEvent_Ir opts n (cgs\<lparr>curr_inode := Some n\<rparr>)) = Inr cgs'"
    using assms(1) by (simp add: instrument_stmt_def Let_def cassert_eq_Inr)
  from copy_rel [OF IMark_rel [OF this assms(2)], of st] show ?thesis
    using Ist_IMark by (simp add: spec_stmt_def Let_def)
next
  case (Ist_WrTmp t data)
  then show ?thesis
    using assms(1,2) Dr_rel(1) [OF _ assms(2)]
    by (intro copy_rel) (auto simp: instrument_stmt_def spec_stmt_def split: option.splits)
next
  case (Ist_Store sz ea)
  then show ?thesis
    using assms(1) Dw_rel(1) [OF _ assms(2)] by (intro copy_rel) (auto simp: instrument_stmt_def spec_stmt_def)
next
  case (Ist_StoreG sz ea guard)
  then show ?thesis
    using assms(1) guarded_rel(1) [OF _ assms(2), of sz ea guard True]
    by (intro copy_rel) (auto simp: instrument_stmt_def spec_stmt_def)
next
  case (Ist_LoadG sz ea guard)
  then show ?thesis
    using assms(1) guarded_rel(1) [OF _ assms(2), of sz ea guard False]
    by (intro copy_rel) (auto simp: instrument_stmt_def spec_stmt_def)
next
  case (Ist_Dirty mFx mAddr mSize)
  then show ?thesis
    using assms(1,2) Dr_rel(1) [OF _ assms(2)] Dw_rel(1) [OF _ assms(2)] Dw_rel(1) [OF _ Dr_rel(1) [OF _ assms(2)]]
    by (intro copy_rel; cases mFx)
      (auto simp: instrument_stmt_def spec_stmt_def cassert_eq_Inr cbind_eq_Inr Let_def split: option.splits)
next
  case (Ist_CAS szLo hasHi ea)
  then show ?thesis
    using assms(1) Dw_rel(1) [OF _ Dr_rel(1) [OF _ assms(2)]]
    by (intro copy_rel) (auto simp: instrument_stmt_def spec_stmt_def cbind_eq_Inr Let_def)
next
  case (Ist_LLSC isStore sz ea)
  then show ?thesis
    using assms(1) Dw_rel(1) [OF _ assms(2)] LL_rel(1) [OF _ Dr_rel(1) [OF _ assms(2)]]
    by (intro copy_rel) (auto simp: instrument_stmt_def spec_stmt_def cbind_eq_Inr split: if_splits)
next
  case (Ist_Exit jk guard dst)
  then obtain c1 where c1: "(if jk = Ijk_Boring \<or> jk = Ijk_Call \<or> jk = Ijk_Ret
      then instrument_branch opts ty guard dst cgs else Inr cgs) = Inr c1" and f: "flushEvents opts c1 = Inr cgs'"
    using assms(1) by (auto simp: instrument_stmt_def cbind_eq_Inr)
  have "consistent env (sbOut c1)" using flush_grows [OF f] assms(3) by (auto simp: grows_def)
  then have "state_rel arch opts s0 env c1 (if jk = Ijk_other then s else spec_branch opts env guard dst s)"
    using c1 branch_rel [OF _ assms(2)] assms(2) by (cases jk) auto
  from exit_rel [OF f this] show ?thesis using Ist_Exit by (simp add: spec_stmt_def)
qed (use assms(1,2) in \<open>auto simp: instrument_stmt_def spec_stmt_def intro: copy_rel\<close>)

lemma stmts_out:
  assumes "instrument_stmts arch opts di ty sts cgs = Inr cgs'"
  shows "\<exists>ys. sbOut cgs' = sbOut cgs @ ys \<and> copies ys = sts"
  using assms
proof (induction sts arbitrary: cgs)
  case (Cons st sts)
  then obtain c1 where c1: "instrument_stmt arch opts di ty st cgs = Inr c1"
    and r: "instrument_stmts arch opts di ty sts (c1\<lparr>sbOut := sbOut c1 @ [Copy st]\<rparr>) = Inr cgs'"
    by (auto simp: cbind_eq_Inr)
  obtain xs where "sbOut c1 = sbOut cgs @ xs" "copies xs = []"
    using stmt_grows [OF c1] by (auto simp: grows_def)
  moreover obtain ys where "sbOut cgs' = sbOut c1 @ Copy st # ys" "copies ys = sts"
    using Cons.IH [OF r] by auto
  ultimately show ?case by (intro exI [of _ "xs @ Copy st # ys"]) simp
qed auto

lemma stmts_rel:
  assumes "instrument_stmts arch opts di ty sts cgs = Inr cgs'" and "state_rel arch opts s0 env cgs s"
    and "consistent env (sbOut cgs')"
  shows "state_rel arch opts s0 env cgs'
    (fold (spec_stmt arch opts (\<lambda>i. cachesim_is_IrNoX s0 (instr_addr i) (instr_len i)) (loc_of di) env) sts s)"
  using assms
proof (induction sts arbitrary: cgs s)
  case (Cons st sts)
  obtain c1 where c1: "instrument_stmt arch opts di ty st cgs = Inr c1"
    and r: "instrument_stmts arch opts di ty sts (c1\<lparr>sbOut := sbOut c1 @ [Copy st]\<rparr>) = Inr cgs'"
    using Cons.prems(1) by (auto simp: cbind_eq_Inr)
  have "consistent env (sbOut c1)" using stmts_out [OF r] Cons.prems(3) by auto
  from Cons.IH [OF r stmt_rel [OF c1 Cons.prems(2) this] Cons.prems(3)] show ?case by simp
qed auto

lemma next_rel:
  assumes "instrument_next opts ty sb cgs = Inr cgs'" and "state_rel arch opts s0 env cgs s"
  shows "state_rel arch opts s0 env cgs' (spec_next opts env sb s)"
proof (cases "sb_next sb")
  case (RdTmp t)
  show ?thesis
  proof (cases "(jumpkind sb = Ijk_Boring \<or> jumpkind sb = Ijk_Call) \<and> clo_branch_sim opts")
    case True
    then have "with_inode (\<lambda>n. addEvent_Bi opts ty n (RdTmp t)) cgs = Inr cgs'"
      using assms(1) RdTmp by (auto simp: instrument_next_def)
    from with_inode_rel(1) [OF this assms(2)] True
    have a: "append_event opts (Ev_Bi (sp_inode s) (RdTmp t)) cgs = Inr cgs'"
      by (simp add: addEvent_Bi_def cassert_eq_Inr)
    have i: "items_rel arch opts env cgs (sp_items s)" using assms(2) by (simp add: state_rel_def)
    note r = append_event_rel [OF a i]
    show ?thesis
      using state_rel_extends [OF assms(2) r(2) r(1)] True RdTmp by (simp add: spec_next_def spec_add_def)
  next
    case False
    then have "cgs' = cgs"
      using assms(1) RdTmp
      by (auto simp: instrument_next_def with_inode_def addEvent_Bi_def cassert_eq_Inr split: if_splits option.splits)
    then show ?thesis using assms(2) False RdTmp by (auto simp: spec_next_def)
  qed
next
  case (Const c)
  then show ?thesis using assms by (auto simp: instrument_next_def spec_next_def split: if_splits)
qed

lemma exec_preamble:
  "exec_out arch env (map Copy pre) st = exec_items arch cs env (concat (map preamble_item pre)) st"
proof (induction pre)
  case (Cons s pre)
  then show ?case by (cases s) auto
qed auto

lemma last_preamble:
  "concat (map preamble_item pre) = [] \<or> (\<forall>e. last (concat (map preamble_item pre)) \<noteq> Now e)"
proof (induction pre)
  case (Cons s pre)
  then show ?case by (cases s) (auto simp: last_append)
qed auto

lemma get_SB_info_ok:
  assumes "get_SB_info sb a g = Inr (i, g')" and "tables_ok g"
  shows "tables_ok g'" "sim g' = sim g"
proof -
  have o: "oset_ok cmp_SB SB_addr (instrInfoTable g)" using assms(2) by (simp add: tables_ok_def)
  obtain t where t: "OSetGen_Insert cmp_SB SB_addr (instrInfoTable g) i = Inr t" "g' = g\<lparr>instrInfoTable := t\<rparr>"
    "SB_addr i = a" "OSetGen_Lookup cmp_SB (instrInfoTable g) a = None"
    using assms(1) by (auto simp: get_SB_info_def cassert_eq_Inr cbind_eq_Inr Let_def)
  then have "SB_addr i \<notin> SB_addr ` set (elements (instrInfoTable g))"
    using SB_order.lookup_None_iff [OF o] by simp
  from SB_order.OSet_insert [OF o this] t(1) have "oset_ok cmp_SB SB_addr t" by auto
  then show "tables_ok g'" "sim g' = sim g" using assms(2) t(2) by (simp_all add: tables_ok_def)
qed

lemma cg_instrumentE:
  assumes "cg_instrument arch opts di readdr base0 gTy hTy sb g = Inr (out, g')"
  obtains addr len rest i g1 c1 c2 c3 where
    "gTy = hTy" "readdr = base0" "dropWhile (\<lambda>s. \<not> is_IMark s) (stmts sb) = Ist_IMark addr len # rest"
    "get_SB_info sb readdr g = Inr (i, g1)"
    "instrument_stmts arch opts di hTy (Ist_IMark addr len # rest)
       \<lparr>events = [], sbInfo_n_instrs = n_instrs i, sbInfo_instrs = [],
        sbOut = map Copy (takeWhile (\<lambda>s. \<not> is_IMark s) (stmts sb)), out_temps = n_temps sb,
        curr_inode = None, cia = addr, isize = fix_isize arch len, glob = g1\<rparr> = Inr c1"
    "instrument_next opts gTy sb c1 = Inr c2" "flushEvents opts c2 = Inr c3"
    "int (length (sbInfo_instrs c3)) = sbInfo_n_instrs c3" "out = sbOut c3" "g' = glob c3"
  using assms unfolding cg_instrument_def
  by (auto simp: Let_def cassert_eq_Inr cbind_eq_Inr split: if_splits list.splits IRStmt.splits)

end
