(* ===== verification/CacheProfile.thy ===== *)
theory CacheProfile
  imports CacheInstr
begin

text \<open>
  Correctness of the instrumentation pass: every block of the form that the translator produces is
  instrumented without a failing assertion, the emitted calls have the effect of the events one at
  a time, and running them keeps the counters of every source line in order.
\<close>

section \<open>Invariants\<close>

text \<open>
  Invariant of the queue: it is within its capacity, and every event but an instruction read
  belongs to the same instruction as the event before it. The last event belongs to the current
  instruction.
\<close>

fun is_Ir :: "Event \<Rightarrow> bool" where
  "is_Ir (Ev_IrNoX _) = True"
| "is_Ir (Ev_IrGen _) = True"
| "is_Ir _ = False"

fun same_instr :: "Event list \<Rightarrow> bool" where
  "same_instr (e # e2 # evs) \<longleftrightarrow> (is_Ir e2 \<or> ev_inode e2 = ev_inode e) \<and> same_instr (e2 # evs)"
| "same_instr _ \<longleftrightarrow> True"

definition queue_ok :: "CgState \<Rightarrow> bool" where
  "queue_ok cgs \<longleftrightarrow> length (events cgs) \<le> N_EVENTS \<and> same_instr (events cgs) \<and>
     (events cgs \<noteq> [] \<longrightarrow> curr_inode cgs = Some (ev_inode (last (events cgs)))) \<and>
     tables_ok (glob cgs)"

definition ready :: "CgState \<Rightarrow> bool" where
  "ready cgs \<longleftrightarrow> queue_ok cgs \<and> curr_inode cgs \<noteq> None"

text \<open>The form of blocks that the translator produces, as far as the pass asserts it.\<close>

definition size_ok :: "CgOpts \<Rightarrow> int \<Rightarrow> bool" where
  "size_ok opts sz \<longleftrightarrow> 1 \<le> sz \<and> sz \<le> min_line_size opts"

fun stmt_ok :: "VGA_arch \<Rightarrow> CgOpts \<Rightarrow> IRStmt \<Rightarrow> bool" where
  "stmt_ok arch opts (Ist_IMark addr len) \<longleftrightarrow> isize_ok arch (fix_isize arch len)"
| "stmt_ok arch opts (Ist_WrTmp t data) \<longleftrightarrow> (case data of Some (sz, ea) \<Rightarrow> size_ok opts sz | None \<Rightarrow> True)"
| "stmt_ok arch opts (Ist_Store sz ea) \<longleftrightarrow> size_ok opts sz"
| "stmt_ok arch opts (Ist_StoreG sz ea guard) \<longleftrightarrow> size_ok opts sz"
| "stmt_ok arch opts (Ist_LoadG sz ea guard) \<longleftrightarrow> size_ok opts sz"
| "stmt_ok arch opts (Ist_Dirty mFx mAddr mSize) \<longleftrightarrow>
     (if mFx = Ifx_None then mAddr = None \<and> mSize = 0 else mAddr \<noteq> None \<and> 0 < mSize)"
| "stmt_ok arch opts (Ist_CAS sz hasHi ea) \<longleftrightarrow> 0 < sz"
| "stmt_ok arch opts (Ist_LLSC isStore sz ea) \<longleftrightarrow> size_ok opts sz"
| "stmt_ok arch opts (Ist_Exit jk guard dst) \<longleftrightarrow> jk = Ijk_other \<or> (\<exists>c. dst = Ico_U64 c)"
| "stmt_ok arch opts _ \<longleftrightarrow> True"

text \<open>An event whose addresses and sizes the simulators accept.\<close>

fun event_fits :: "int \<times> int \<times> int \<Rightarrow> (nat \<Rightarrow> Addr) \<Rightarrow> Event \<Rightarrow> bool" where
  "event_fits ls env (Ev_IrNoX n) \<longleftrightarrow> True"
| "event_fits ls env (Ev_IrGen n) \<longleftrightarrow> instr_fits ls (snd n)"
| "event_fits ls env (Ev_Dr n ea sz) \<longleftrightarrow> data_fits ls (atom_val env ea) (word_of_int sz)"
| "event_fits ls env (Ev_Dw n ea sz) \<longleftrightarrow> data_fits ls (atom_val env ea) (word_of_int sz)"
| "event_fits ls env (Ev_Dm n ea sz) \<longleftrightarrow> data_fits ls (atom_val env ea) (word_of_int sz)"
| "event_fits ls env (Ev_Bc n taken) \<longleftrightarrow> atom_val env taken \<in> {0, 1}"
| "event_fits ls env (Ev_Bi n dst) \<longleftrightarrow> True"

fun item_fits :: "int \<times> int \<times> int \<Rightarrow> (nat \<Rightarrow> Addr) \<Rightarrow> item \<Rightarrow> bool" where
  "item_fits ls env (Now ev) \<longleftrightarrow> event_fits ls env ev"
| "item_fits ls env (Guarded a ev) \<longleftrightarrow> atom_val env a \<noteq> 0 \<longrightarrow> event_fits ls env ev"
| "item_fits ls env _ \<longleftrightarrow> True"

text \<open>A block with a load, a store to the same address and an inverted side exit.\<close>

definition demo_cache :: cache_t2 where
  "demo_cache = \<lparr>c2_size = 64, c2_assoc = 1, c2_line_size = 64, c2_sets = 1, c2_sets_min_1 = 0,
     c2_line_size_bits = 6, c2_tag_shift = 6, c2_desc_line = [], c2_tags = [0]\<rparr>"

definition demo_sim :: cachesim where
  "demo_sim = \<lparr>sim_I1 = demo_cache, sim_D1 = demo_cache, sim_LL = demo_cache\<rparr>"

definition demo_opts :: CgOpts where
  "demo_opts = \<lparr>clo_cache_sim = True, clo_branch_sim = True, min_line_size = 64\<rparr>"

definition demo_di :: debuginfo where
  "demo_di = \<lparr>get_filename_linenum = (\<lambda>_. None), get_fnname = (\<lambda>_. None)\<rparr>"

definition demo_sb :: IRSB where
  "demo_sb = \<lparr>stmts = [Ist_Put, Ist_IMark 4096 3, Ist_WrTmp 1 (Some (8, RdTmp 0)), Ist_Store 8 (RdTmp 0),
       Ist_Exit Ijk_Boring (RdTmp 2) (Ico_U64 4099)],
     jumpkind = Ijk_Boring, sb_next = RdTmp 1, n_temps = 3\<rparr>"

definition demo_node :: inode where
  "demo_node = (0, \<lparr>instr_addr = 4096, instr_len = 3, parent = \<lparr>loc_file = ''???'', loc_fn = ''???'', loc_line = 0\<rparr>\<rparr>)"

definition demo_env :: "nat \<Rightarrow> Addr" where
  "demo_env t = (if t = 5 then 1 else if t = 0 then 8192 else 0)"

section \<open>Totality\<close>

lemma same_instr_tl: "same_instr (e # evs) \<Longrightarrow> same_instr evs"
  by (cases evs) auto

lemma same_instr_append:
  "same_instr (evs @ [e]) \<longleftrightarrow> same_instr evs \<and> (evs = [] \<or> is_Ir e \<or> ev_inode e = ev_inode (last evs))"
  by (induction evs rule: same_instr.induct) auto

lemma flush_from_total: "same_instr evs \<Longrightarrow> \<exists>calls. flush_from cs evs = Inr calls"
  by (induction cs evs rule: flush_from.induct) (auto dest!: same_instr_tl)

lemma flushEvents_total:
  assumes "same_instr (events cgs)"
  shows "\<exists>calls. flushEvents opts cgs = Inr (cgs\<lparr>sbOut := sbOut cgs @ map (Call None) calls, events := []\<rparr>)"
proof -
  obtain calls where "flush_from (clo_cache_sim opts) (events cgs) = Inr calls"
    using flush_from_total [OF assms] by blast
  then show ?thesis by (intro exI [of _ calls]) (simp add: flushEvents_def)
qed

lemma append_event_total:
  assumes "length (events cgs) \<le> N_EVENTS" and "same_instr (events cgs)" and "tables_ok (glob cgs)"
    and "curr_inode cgs = Some (ev_inode ev)"
    and "is_Ir ev \<or> events cgs = [] \<or> ev_inode ev = ev_inode (last (events cgs))"
  shows "\<exists>cgs'. append_event opts ev cgs = Inr cgs' \<and> queue_ok cgs' \<and> extends cgs cgs'"
proof (cases "length (events cgs) = N_EVENTS")
  case True
  obtain calls where f: "flushEvents opts cgs = Inr (cgs\<lparr>sbOut := sbOut cgs @ map (Call None) calls, events := []\<rparr>)"
    using flushEvents_total [OF assms(2)] by blast
  let ?c = "cgs\<lparr>sbOut := sbOut cgs @ map (Call None) calls, events := [ev]\<rparr>"
  have "append_event opts ev cgs = Inr ?c" using True f by (simp add: append_event_def N_EVENTS_def)
  moreover have "queue_ok ?c" using assms by (simp add: queue_ok_def N_EVENTS_def)
  moreover have "extends cgs ?c" by (rule extendsI [OF refl])
  ultimately show ?thesis by blast
next
  case False
  let ?c = "cgs\<lparr>events := events cgs @ [ev]\<rparr>"
  have lt: "length (events cgs) < N_EVENTS" using False assms(1) by simp
  then have "append_event opts ev cgs = Inr ?c" using False by (simp add: append_event_def)
  moreover have "queue_ok ?c" using assms lt by (auto simp: queue_ok_def same_instr_append)
  moreover have "extends cgs ?c" by (rule extendsI [where ys = "[]" and evs = "events cgs @ [ev]"]) simp
  ultimately show ?thesis by blast
qed

lemma queue_okD:
  assumes "queue_ok cgs"
  shows "length (events cgs) \<le> N_EVENTS" "same_instr (events cgs)" "tables_ok (glob cgs)"
    "events cgs \<noteq> [] \<Longrightarrow> curr_inode cgs = Some (ev_inode (last (events cgs)))"
  using assms by (simp_all add: queue_ok_def)

lemma ready_append:
  assumes "ready cgs" and "curr_inode cgs = Some n" and "ev_inode ev = n"
  shows "\<exists>cgs'. append_event opts ev cgs = Inr cgs' \<and> ready cgs' \<and> extends cgs cgs'"
proof -
  have q: "queue_ok cgs" using assms(1) by (simp add: ready_def)
  obtain cgs' where c: "append_event opts ev cgs = Inr cgs'" "queue_ok cgs'" "extends cgs cgs'"
    using append_event_total [OF queue_okD(1-3) [OF q], of ev opts] assms(2,3) queue_okD(4) [OF q] by auto
  moreover have "ready cgs'" using c(2,3) assms(1) by (auto simp: ready_def extends_def)
  ultimately show ?thesis by blast
qed

lemma ready_flush:
  assumes "ready cgs"
  shows "\<exists>cgs'. flushEvents opts cgs = Inr cgs' \<and> ready cgs' \<and> extends cgs cgs' \<and> events cgs' = []"
proof -
  have q: "queue_ok cgs" using assms by (simp add: ready_def)
  obtain calls where f: "flushEvents opts cgs = Inr (cgs\<lparr>sbOut := sbOut cgs @ map (Call None) calls, events := []\<rparr>)"
    using flushEvents_total [OF queue_okD(2) [OF q]] by blast
  moreover have "ready (cgs\<lparr>sbOut := sbOut cgs @ map (Call None) calls, events := []\<rparr>)"
    using assms by (simp add: ready_def queue_ok_def)
  moreover have "extends cgs (cgs\<lparr>sbOut := sbOut cgs @ map (Call None) calls, events := []\<rparr>)"
    by (rule extendsI [OF refl])
  ultimately show ?thesis by auto
qed

lemma ready_Dr:
  assumes "ready cgs" and "size_ok opts sz"
  shows "\<exists>cgs'. with_inode (\<lambda>n. addEvent_Dr opts n sz ea) cgs = Inr cgs' \<and> ready cgs' \<and> extends cgs cgs'"
proof -
  obtain n where n: "curr_inode cgs = Some n" using assms(1) by (auto simp: ready_def)
  show ?thesis
    using ready_append [OF assms(1) n, of "Ev_Dr n ea sz"] assms n
    by (auto simp: with_inode_def addEvent_Dr_def size_ok_def)
qed

lemma ready_Dw:
  assumes "ready cgs" and "size_ok opts sz"
  shows "\<exists>cgs'. with_inode (\<lambda>n. addEvent_Dw opts n sz ea) cgs = Inr cgs' \<and> ready cgs' \<and> extends cgs cgs'"
proof -
  obtain n where n: "curr_inode cgs = Some n" using assms(1) by (auto simp: ready_def)
  show ?thesis
  proof (cases "merge_last n sz ea (events cgs)")
    case None
    then show ?thesis
      using ready_append [OF assms(1) n, of "Ev_Dw n ea sz"] assms n
      by (auto simp: with_inode_def addEvent_Dw_def size_ok_def)
  next
    case (Some evs)
    then obtain xs where xs: "events cgs = xs @ [Ev_Dr n ea sz]" "evs = xs @ [Ev_Dm n ea sz]"
      by (metis merge_last_Some append_butlast_last_id)
    then have "ready (cgs\<lparr>events := evs\<rparr>)"
      using assms(1) by (auto simp: ready_def queue_ok_def same_instr_append)
    moreover have "extends cgs (cgs\<lparr>events := evs\<rparr>)"
      by (rule extendsI [where ys = "[]" and evs = evs]) simp
    ultimately show ?thesis
      using Some assms n by (auto simp: with_inode_def addEvent_Dw_def size_ok_def)
  qed
qed

lemma ready_guarded:
  assumes "ready cgs" and "size_ok opts sz"
  shows "\<exists>cgs'. with_inode (\<lambda>n. addEvent_D_guarded opts n sz ea g w) cgs = Inr cgs' \<and> ready cgs' \<and> extends cgs cgs'"
proof -
  obtain n where n: "curr_inode cgs = Some n" using assms(1) by (auto simp: ready_def)
  obtain c where c: "flushEvents opts cgs = Inr c" "ready c" "extends cgs c" "events c = []"
    using ready_flush [OF assms(1)] by blast
  have "ready (c\<lparr>sbOut := out\<rparr>)" for out using c(2) by (simp add: ready_def queue_ok_def)
  moreover have "extends cgs (c\<lparr>sbOut := sbOut c @ ys\<rparr>)" for ys
    using c(3) by (rule extends_trans) (rule extendsI [where evs = "events c"], simp)
  ultimately show ?thesis
    using assms n c by (auto simp: with_inode_def addEvent_D_guarded_def size_ok_def Let_def)
qed

lemma ready_branch:
  assumes "ready cgs" and "dst = Ico_U64 c"
  shows "\<exists>cgs'. instrument_branch opts Ity_I64 guard dst cgs = Inr cgs' \<and> ready cgs' \<and>
    sbInfo_instrs cgs' = sbInfo_instrs cgs \<and> sbInfo_n_instrs cgs' = sbInfo_n_instrs cgs"
proof -
  obtain n where n: "curr_inode cgs = Some n" using assms(1) by (auto simp: ready_def)
  let ?c = "\<lambda>ys. cgs\<lparr>out_temps := out_temps cgs + 3, sbOut := sbOut cgs @ ys\<rparr>"
  have r: "ready (?c ys)" for ys using assms(1) by (simp add: ready_def queue_ok_def)
  have "\<exists>cgs'. addEvent_Bc opts Ity_I64 n a (?c ys) = Inr cgs' \<and> ready cgs' \<and> extends (?c ys) cgs'" for a ys
    using ready_append [OF r [of ys], of n "Ev_Bc n a"] n r by (auto simp: addEvent_Bc_def)
  then show ?thesis
    using n assms(2)
    by (fastforce simp: instrument_branch_def side_exit_addr_def with_inode_def Let_def extends_def)
qed

lemma ready_IMark:
  assumes "queue_ok cgs" and "int (length (sbInfo_instrs cgs)) < sbInfo_n_instrs cgs"
  shows "\<exists>cgs'. cbind (setup_InstrInfo di addr sz (cgs\<lparr>cia := addr, isize := sz\<rparr>)) (\<lambda>(n, cgs).
      addEvent_Ir opts n (cgs\<lparr>curr_inode := Some n\<rparr>)) = Inr cgs' \<and> ready cgs' \<and>
    length (sbInfo_instrs cgs') = length (sbInfo_instrs cgs) + 1 \<and> sbInfo_n_instrs cgs' = sbInfo_n_instrs cgs"
proof -
  obtain g where g: "get_lineCC di addr (glob cgs) = Inr (loc_of di addr, g)" "tables_ok g"
    using get_lineCC_cases [OF queue_okD(3) [OF assms(1)]] by metis
  define n where "n = (length (sbInfo_instrs cgs), \<lparr>instr_addr = addr, instr_len = ucast sz, parent = loc_of di addr\<rparr>)"
  let ?c = "\<lambda>st. cgs\<lparr>cia := addr, isize := sz, sbInfo_instrs := sbInfo_instrs cgs @ [snd n],
      curr_inode := Some n, glob := g\<lparr>stats := st\<rparr>\<rparr>"
  define ev where "ev = (if cachesim_is_IrNoX (sim g) addr (ucast sz) then Ev_IrNoX n else Ev_IrGen n)"
  define st where "st = (if cachesim_is_IrNoX (sim g) addr (ucast sz)
      then (stats g)\<lparr>distinct_instrsNoX := distinct_instrsNoX (stats g) + 1\<rparr>
      else (stats g)\<lparr>distinct_instrsGen := distinct_instrsGen (stats g) + 1\<rparr>)"
  have r: "cbind (setup_InstrInfo di addr sz (cgs\<lparr>cia := addr, isize := sz\<rparr>)) (\<lambda>(n, cgs).
      addEvent_Ir opts n (cgs\<lparr>curr_inode := Some n\<rparr>)) = append_event opts ev (?c st)"
    using assms(2) g(1) by (simp add: setup_InstrInfo_def addEvent_Ir_def Let_def n_def ev_def st_def)
  have "\<exists>cgs'. append_event opts ev (?c st) = Inr cgs' \<and> queue_ok cgs' \<and> extends (?c st) cgs'"
    using queue_okD(1,2) [OF assms(1)] g(2)
    by (intro append_event_total) (simp_all add: tables_ok_def ev_def)
  then show ?thesis
    unfolding r by (auto simp: ready_def extends_def)
qed

lemma size_ok_clip: "0 < sz \<Longrightarrow> 1 \<le> min_line_size opts \<Longrightarrow> size_ok opts (clip opts sz)"
  by (auto simp: size_ok_def clip_def)

lemma ready_modify:
  assumes "ready cgs" and "size_ok opts sz"
  shows "\<exists>cgs'. cbind (with_inode (\<lambda>n. addEvent_Dr opts n sz ea) cgs) (with_inode (\<lambda>n. addEvent_Dw opts n sz ea)) = Inr cgs' \<and>
    ready cgs' \<and> extends cgs cgs'"
proof -
  obtain c where c: "with_inode (\<lambda>n. addEvent_Dr opts n sz ea) cgs = Inr c" "ready c" "extends cgs c"
    using ready_Dr [OF assms] by blast
  obtain e where "with_inode (\<lambda>n. addEvent_Dw opts n sz ea) c = Inr e" "ready e" "extends c e"
    using ready_Dw [OF c(2) assms(2)] by blast
  then show ?thesis using c extends_trans by auto
qed

lemma cbind_return: "cbind m Inr = m"
  by (cases m) simp_all

lemma ready_Dirty:
  assumes "ready cgs" and "stmt_ok arch opts (Ist_Dirty mFx mAddr mSize)" and "1 \<le> min_line_size opts"
  shows "\<exists>cgs'. instrument_stmt arch opts di ty (Ist_Dirty mFx mAddr mSize) cgs = Inr cgs' \<and>
    ready cgs' \<and> extends cgs cgs'"
proof (cases mAddr)
  case None
  then show ?thesis using assms by (auto simp: instrument_stmt_def split: if_splits)
next
  case (Some ma)
  then have F: "mFx \<noteq> Ifx_None" "0 < mSize" using assms(2) by (auto split: if_splits)
  then have sz: "size_ok opts (clip opts mSize)" using size_ok_clip assms(3) by simp
  show ?thesis
    using F Some ready_Dr [OF assms(1) sz, of ma] ready_Dw [OF assms(1) sz, of ma] ready_modify [OF assms(1) sz, of ma]
    by (cases mFx) (simp_all add: instrument_stmt_def Let_def cbind_return)
qed

lemma ready_LLSC:
  assumes "ready cgs" and "size_ok opts sz"
  shows "\<exists>cgs'. instrument_stmt arch opts di ty (Ist_LLSC isStore sz ea) cgs = Inr cgs' \<and>
    ready cgs' \<and> extends cgs cgs'"
proof -
  obtain c where c: "with_inode (\<lambda>n. addEvent_Dr opts n sz ea) cgs = Inr c" "ready c" "extends cgs c"
    using ready_Dr [OF assms] by blast
  obtain e where "flushEvents opts c = Inr e" "ready e" "extends c e" using ready_flush [OF c(2)] by blast
  then show ?thesis
    using c ready_Dw [OF assms] extends_trans by (cases isStore) (auto simp: instrument_stmt_def)
qed

lemma ready_Exit:
  assumes "ready cgs" and "jk = Ijk_other \<or> (\<exists>c. dst = Ico_U64 c)"
  shows "\<exists>cgs'. instrument_stmt arch opts di Ity_I64 (Ist_Exit jk guard dst) cgs = Inr cgs' \<and> ready cgs' \<and>
    sbInfo_instrs cgs' = sbInfo_instrs cgs \<and> sbInfo_n_instrs cgs' = sbInfo_n_instrs cgs"
proof -
  have "\<exists>c. (if jk = Ijk_Boring \<or> jk = Ijk_Call \<or> jk = Ijk_Ret
      then instrument_branch opts Ity_I64 guard dst cgs else Inr cgs) = Inr c \<and> ready c \<and>
    sbInfo_instrs c = sbInfo_instrs cgs \<and> sbInfo_n_instrs c = sbInfo_n_instrs cgs"
    using ready_branch [OF assms(1)] assms by (cases jk) auto
  then obtain c where c: "(if jk = Ijk_Boring \<or> jk = Ijk_Call \<or> jk = Ijk_Ret
      then instrument_branch opts Ity_I64 guard dst cgs else Inr cgs) = Inr c" "ready c"
    "sbInfo_instrs c = sbInfo_instrs cgs" "sbInfo_n_instrs c = sbInfo_n_instrs cgs" by blast
  obtain e where "flushEvents opts c = Inr e" "ready e" "extends c e" using ready_flush [OF c(2)] by blast
  then show ?thesis using c by (auto simp: instrument_stmt_def extends_def)
qed

lemma ready_extends:
  "\<exists>c'. m = Inr c' \<and> ready c' \<and> extends c c' \<Longrightarrow>
   \<exists>c'. m = Inr c' \<and> ready c' \<and> sbInfo_instrs c' = sbInfo_instrs c \<and> sbInfo_n_instrs c' = sbInfo_n_instrs c"
  by (auto simp: extends_def)

lemma stmt_total:
  assumes "queue_ok cgs" and "is_IMark st \<or> curr_inode cgs \<noteq> None" and "stmt_ok arch opts st"
    and "1 \<le> min_line_size opts"
    and "is_IMark st \<Longrightarrow> int (length (sbInfo_instrs cgs)) < sbInfo_n_instrs cgs"
  shows "\<exists>cgs'. instrument_stmt arch opts di Ity_I64 st cgs = Inr cgs' \<and> ready cgs' \<and>
    length (sbInfo_instrs cgs') = length (sbInfo_instrs cgs) + (if is_IMark st then 1 else 0) \<and>
    sbInfo_n_instrs cgs' = sbInfo_n_instrs cgs"
proof (cases "is_IMark st")
  case True
  then obtain addr len where "st = Ist_IMark addr len" by (cases st) (auto simp: is_IMark_def)
  then show ?thesis
    using ready_IMark [OF assms(1) assms(5) [OF True]] assms(3) True by (auto simp: instrument_stmt_def Let_def)
next
  case False
  then have r: "ready cgs" using assms(1,2) by (simp add: ready_def)
  have "\<exists>cgs'. instrument_stmt arch opts di Ity_I64 st cgs = Inr cgs' \<and> ready cgs' \<and>
    sbInfo_instrs cgs' = sbInfo_instrs cgs \<and> sbInfo_n_instrs cgs' = sbInfo_n_instrs cgs"
  proof (cases st)
    case (Ist_WrTmp t data)
    then have "\<exists>c'. instrument_stmt arch opts di Ity_I64 st cgs = Inr c' \<and> ready c' \<and> extends cgs c'"
      using ready_Dr [OF r] assms(3) r by (cases data) (auto simp: instrument_stmt_def)
    then show ?thesis by (rule ready_extends)
  next
    case (Ist_Store sz ea)
    then show ?thesis using ready_extends [OF ready_Dw [OF r]] assms(3) by (simp add: instrument_stmt_def)
  next
    case (Ist_StoreG sz ea g)
    then show ?thesis using ready_extends [OF ready_guarded [OF r]] assms(3) by (simp add: instrument_stmt_def)
  next
    case (Ist_LoadG sz ea g)
    then show ?thesis using ready_extends [OF ready_guarded [OF r]] assms(3) by (simp add: instrument_stmt_def)
  next
    case (Ist_Dirty mFx mAddr mSize)
    then show ?thesis using ready_extends [OF ready_Dirty [OF r _ assms(4)]] assms(3) by simp
  next
    case (Ist_CAS szLo hasHi ea)
    let ?sz = "clip opts (if hasHi then szLo * 2 else szLo)"
    have "size_ok opts ?sz" using Ist_CAS assms(3,4) size_ok_clip by simp
    from ready_extends [OF ready_modify [OF r this]] show ?thesis
      using Ist_CAS by (simp add: instrument_stmt_def Let_def)
  next
    case (Ist_LLSC isStore sz ea)
    then show ?thesis using ready_extends [OF ready_LLSC [OF r]] assms(3) by simp
  next
    case (Ist_Exit jk guard dst)
    then show ?thesis using ready_Exit [OF r] assms(3) by simp
  qed (use r False in \<open>simp_all add: instrument_stmt_def is_IMark_def\<close>)
  then show ?thesis using False by auto
qed

lemma stmts_total:
  assumes "queue_ok cgs" and "(sts \<noteq> [] \<and> is_IMark (hd sts)) \<or> curr_inode cgs \<noteq> None"
    and "list_all (stmt_ok arch opts) sts" and "1 \<le> min_line_size opts"
    and "sbInfo_n_instrs cgs = int (length (sbInfo_instrs cgs) + length (filter is_IMark sts))"
  shows "\<exists>cgs'. instrument_stmts arch opts di Ity_I64 sts cgs = Inr cgs' \<and> ready cgs' \<and>
    int (length (sbInfo_instrs cgs')) = sbInfo_n_instrs cgs'"
  using assms
proof (induction sts arbitrary: cgs)
  case Nil
  then show ?case by (simp add: ready_def)
next
  case (Cons st sts)
  obtain c where c: "instrument_stmt arch opts di Ity_I64 st cgs = Inr c" "ready c"
    "length (sbInfo_instrs c) = length (sbInfo_instrs cgs) + (if is_IMark st then 1 else 0)"
    "sbInfo_n_instrs c = sbInfo_n_instrs cgs"
    using stmt_total [OF Cons.prems(1), of st arch opts di] Cons.prems(2-5) by auto
  have "\<exists>cgs'. instrument_stmts arch opts di Ity_I64 sts (c\<lparr>sbOut := sbOut c @ [Copy st]\<rparr>) = Inr cgs' \<and> ready cgs' \<and>
      int (length (sbInfo_instrs cgs')) = sbInfo_n_instrs cgs'"
    using c Cons.prems(3-5) by (intro Cons.IH) (auto simp: ready_def queue_ok_def)
  then show ?case using c(1) by simp
qed

lemma next_total:
  assumes "ready cgs"
  shows "\<exists>cgs'. instrument_next opts Ity_I64 sb cgs = Inr cgs' \<and> ready cgs' \<and> extends cgs cgs'"
proof -
  obtain n where n: "curr_inode cgs = Some n" using assms by (auto simp: ready_def)
  show ?thesis
    using ready_append [OF assms n, of "Ev_Bi n (sb_next sb)" opts] assms n
    by (cases "sb_next sb") (auto simp: instrument_next_def with_inode_def addEvent_Bi_def)
qed

lemma dropWhile_IMark:
  "\<exists>s \<in> set sts. is_IMark s \<Longrightarrow> \<exists>addr len rest. dropWhile (\<lambda>s. \<not> is_IMark s) sts = Ist_IMark addr len # rest"
  by (induction sts) (auto simp: is_IMark_def split: IRStmt.splits)

lemma filter_dropWhile_IMark: "filter is_IMark (dropWhile (\<lambda>s. \<not> is_IMark s) sts) = filter is_IMark sts"
  by (induction sts) auto

lemma run_event_step:
  assumes "run_ok k ls st" and "Suc k < 2 ^ 64" and "event_fits ls env ev"
  shows "\<exists>st'. run_event arch cs env ev st = Inr st' \<and> run_ok (Suc k) ls st'"
proof -
  have ir: "\<exists>st'. log_1Ir n st = Inr st' \<and> run_ok (Suc k) ls st'" for n
    using log_Ir_a_ok [OF assms(1,2)] by (simp add: log_1Ir_def)
  show ?thesis
  proof (cases ev)
    case (Ev_Bc n taken)
    then have "sint (atom_val env taken) \<le> 1" using assms(3) by auto
    then show ?thesis using Ev_Bc log_cond_ok [OF assms(1,2)] by (simp add: run_event_def)
  qed (use assms ir ref_IrNoX_ok [OF assms(1,2)] log_1IrGen_ok [OF assms(1,2)] ref_Dr_ok [OF assms(1,2)]
      ref_Dw_ok [OF assms(1,2)] log_ind_ok [OF assms(1,2)] in
      \<open>simp_all add: run_event_def log_1IrNoX_0D_cache_access_def log_0Ir_1Dr_cache_access_def
        log_0Ir_1Dw_cache_access_def\<close>)
qed

lemma run_ok_mono: "k \<le> k' \<Longrightarrow> run_ok k ls st \<Longrightarrow> run_ok k' ls st"
  by (induction k' rule: dec_induct) (auto simp: run_ok_def intro: line_bounded_mono)

lemma exec_items_run:
  assumes "run_ok k ls st" and "k + length its < 2 ^ 64" and "list_all (item_fits ls env) its"
  shows "\<exists>l st'. exec_items arch cs env its st = Inr (l, st') \<and> run_ok (k + length its) ls st'"
  using assms
proof (induction its arbitrary: k st)
  case (Cons it its)
  have go: "\<exists>l st'. cbind (run_event arch cs env ev st) (exec_items arch cs env its) = Inr (l, st') \<and>
      run_ok (k + length (it # its)) ls st'" if fits: "event_fits ls env ev" for ev
  proof -
    obtain st1 where "run_event arch cs env ev st = Inr st1" "run_ok (Suc k) ls st1"
      using run_event_step [OF Cons.prems(1) _ fits] Cons.prems(2) by auto
    then show ?thesis using Cons.IH [of "Suc k" st1] Cons.prems by simp
  qed
  have skip: "\<exists>l st'. exec_items arch cs env its st = Inr (l, st') \<and> run_ok (k + length (it # its)) ls st'"
    using Cons.IH [of "Suc k" st] run_ok_mono [OF _ Cons.prems(1), of "Suc k"] Cons.prems by simp
  show ?case
    using go skip Cons.prems run_ok_mono [OF _ Cons.prems(1), of "k + length (it # its)"]
    by (cases it) (simp_all add: ex_bool_eq)
qed auto

lemma demo_stmt_ok: "list_all (stmt_ok VGA_amd64 demo_opts) (stmts demo_sb)" "\<exists>s \<in> set (stmts demo_sb). is_IMark s"
  by (simp_all add: demo_sb_def demo_opts_def isize_ok_def fix_isize_def size_ok_def is_IMark_def)

lemma demo_out:
  "\<exists>g. cg_instrument VGA_amd64 demo_opts demo_di 4096 4096 Ity_I64 Ity_I64 demo_sb (empty_cg demo_sim) = Inr
     ([Copy Ist_Put, Copy (Ist_IMark 4096 3), Copy (Ist_WrTmp 1 (Some (8, RdTmp 0))), Copy (Ist_Store 8 (RdTmp 0)),
       Wr_atom 3 (RdTmp 2), Wr_widen 4 3, Wr_xor1 5 4, Call None (Call_1IrNoX_1Dr (snd demo_node) (RdTmp 0) 8),
       Call None (Call_cond_branch (snd demo_node) (RdTmp 5)), Copy (Ist_Exit Ijk_Boring (RdTmp 2) (Ico_U64 4099)),
       Call None (Call_ind_branch (snd demo_node) (RdTmp 1))], g)"
  by (simp add: cg_instrument_def demo_sb_def demo_opts_def demo_di_def is_IMark_def get_SB_info_def
     empty_cg_def OSetGen_Lookup_def OSetGen_Create_def OSetGen_Insert_def Let_def instrument_stmt_def fix_isize_def
     isize_ok_def setup_InstrInfo_def get_lineCC_def get_debug_info_def absfile_def get_perm_string_def
     addEvent_Ir_def cachesim_is_IrNoX_def demo_sim_def demo_cache_def block_of_def append_event_def N_EVENTS_def
     with_inode_def addEvent_Dr_def addEvent_Dw_def merge_last_def instrument_branch_def side_exit_addr_def addEvent_Bc_def
     flushEvents_def instrument_next_def addEvent_Bi_def demo_node_def)

lemma demo_run_ok: "run_ok 0 (64, 64, 64) (empty_cg demo_sim)"
proof -
  have "cache_ok demo_cache"
    unfolding cache_ok_def by (intro exI [of _ 6] exI [of _ 0]) (simp add: demo_cache_def)
  moreover have "line_bounded 0 zero_LineCC"
    by (simp add: line_bounded_def zero_LineCC_def zero_cache_def zero_branch_def cache_bounded_def branch_bounded_def)
  ultimately show ?thesis
    using bp_ok_init by (simp add: run_ok_def empty_cg_def demo_sim_def sim_ok_def line_sizes_def demo_cache_def)
qed

section \<open>Properties\<close>

text \<open>
  C2: Whatever calls the instrumentation emits and however it merges them, running an instrumented
  block has the effect of its events performed one at a time, in program order, up to the side
  exit that is taken: the queue of sixteen events, its flushes and the merged helpers are invisible.
\<close>

theorem cg_instrument_refines:
  assumes "tables_ok g" and "cg_instrument arch opts di readdr base0 gTy hTy sb g = Inr (out, g')"
    and "consistent env out"
  shows "exec_out arch env out st =
    exec_items arch (clo_cache_sim opts) env
      (block_items arch opts (\<lambda>i. cachesim_is_IrNoX (sim g) (instr_addr i) (instr_len i)) (loc_of di) env sb) st"
proof -
  obtain addr len rest i g1 c1 c2 c3 where
    d: "dropWhile (\<lambda>s. \<not> is_IMark s) (stmts sb) = Ist_IMark addr len # rest"
    and i: "get_SB_info sb readdr g = Inr (i, g1)"
    and c1: "instrument_stmts arch opts di hTy (Ist_IMark addr len # rest)
       \<lparr>events = [], sbInfo_n_instrs = n_instrs i, sbInfo_instrs = [],
        sbOut = map Copy (takeWhile (\<lambda>s. \<not> is_IMark s) (stmts sb)), out_temps = n_temps sb,
        curr_inode = None, cia = addr, isize = fix_isize arch len, glob = g1\<rparr> = Inr c1" (is "instrument_stmts _ _ _ _ _ ?c0 = _")
    and c2: "instrument_next opts gTy sb c1 = Inr c2" and c3: "flushEvents opts c2 = Inr c3" and out: "out = sbOut c3"
    using assms(2) by (rule cg_instrumentE) blast
  let ?pre = "concat (map preamble_item (takeWhile (\<lambda>s. \<not> is_IMark s) (stmts sb)))"
  let ?s0 = "\<lparr>sp_items = ?pre, sp_count = 0, sp_inode = (0, \<lparr>instr_addr = 0, instr_len = 0, parent = loc_of di 0\<rparr>), sp_nia = 0\<rparr>"
  have "state_rel arch opts (sim g) env ?c0 ?s0"
    using get_SB_info_ok [OF i assms(1)] exec_preamble last_preamble
    by (simp add: state_rel_def items_rel_def)
  moreover have "grows c1 c3"
    using c2 flush_grows [OF c3]
    by (auto simp: instrument_next_def with_inode_def grows_trans split: if_splits IRAtom.splits option.splits
        dest!: addEvent_grows)
  then have "consistent env (sbOut c1)" using assms(3) out by (auto simp: grows_def)
  ultimately have "state_rel arch opts (sim g) env c2 (spec_next opts env sb
      (fold (spec_stmt arch opts (\<lambda>i. cachesim_is_IrNoX (sim g) (instr_addr i) (instr_len i)) (loc_of di) env)
        (Ist_IMark addr len # rest) ?s0))"
    using stmts_rel [OF c1] next_rel [OF c2] by blast
  then show ?thesis
    using items_rel_flush(1) [OF c3] unfolding out block_items_def d state_rel_def Let_def by blast
qed

theorem cg_instrument_refines_witness:
  "\<exists>out g. cg_instrument VGA_amd64 demo_opts demo_di 4096 4096 Ity_I64 Ity_I64 demo_sb (empty_cg demo_sim) =
       Inr (out, g) \<and> consistent demo_env out \<and>
     exec_out VGA_amd64 demo_env out (empty_cg demo_sim) =
       exec_items VGA_amd64 True demo_env [Now (Ev_IrNoX demo_node), Now (Ev_Dm demo_node (RdTmp 0) 8),
         Now (Ev_Bc demo_node (Const 1)), Leave (RdTmp 2), Now (Ev_Bi demo_node (Const 0))] (empty_cg demo_sim)"
proof -
  let ?out = "[Copy Ist_Put, Copy (Ist_IMark 4096 3), Copy (Ist_WrTmp 1 (Some (8, RdTmp 0))), Copy (Ist_Store 8 (RdTmp 0)),
       Wr_atom 3 (RdTmp 2), Wr_widen 4 3, Wr_xor1 5 4, Call None (Call_1IrNoX_1Dr (snd demo_node) (RdTmp 0) 8),
       Call None (Call_cond_branch (snd demo_node) (RdTmp 5)), Copy (Ist_Exit Ijk_Boring (RdTmp 2) (Ico_U64 4099)),
       Call None (Call_ind_branch (snd demo_node) (RdTmp 1))]"
  obtain g where g: "cg_instrument VGA_amd64 demo_opts demo_di 4096 4096 Ity_I64 Ity_I64 demo_sb (empty_cg demo_sim) =
      Inr (?out, g)" using demo_out by blast
  have c: "consistent demo_env ?out" by (simp add: consistent_def demo_env_def)
  have "block_items VGA_amd64 demo_opts (\<lambda>i. cachesim_is_IrNoX (sim (empty_cg demo_sim)) (instr_addr i) (instr_len i))
      (loc_of demo_di) demo_env demo_sb =
    [Now (Ev_IrNoX demo_node), Now (Ev_Dm demo_node (RdTmp 0) 8),
     Now (Ev_Bc demo_node (Const 1)), Leave (RdTmp 2), Now (Ev_Bi demo_node (Const 0))]"
    by (simp add: block_items_def demo_sb_def is_IMark_def spec_stmt_def spec_add_def spec_read_def spec_write_def
        spec_branch_def spec_next_def demo_opts_def fix_isize_def loc_of_def demo_di_def absfile_def
        cachesim_is_IrNoX_def empty_cg_def demo_sim_def demo_cache_def block_of_def demo_node_def demo_env_def Let_def)
  then show ?thesis
    using cg_instrument_refines [OF empty_cg_tables g c, of "empty_cg demo_sim"] g c
    by (auto simp: demo_opts_def)
qed

text \<open>
  C22: The instrumented block contains the statements of the original block, all of them and in
  their order, with only calls and assignments to new temporaries between them.
\<close>

theorem cg_instrument_copies:
  assumes "cg_instrument arch opts di readdr base0 gTy hTy sb g = Inr (out, g')"
  shows "copies out = stmts sb"
proof -
  have pre: "copies (map Copy xs) = xs" for xs by (induction xs) auto
  obtain addr len rest i g1 c1 c2 c3 where
    d: "dropWhile (\<lambda>s. \<not> is_IMark s) (stmts sb) = Ist_IMark addr len # rest"
    and i: "get_SB_info sb readdr g = Inr (i, g1)"
    and c1: "instrument_stmts arch opts di hTy (Ist_IMark addr len # rest)
       \<lparr>events = [], sbInfo_n_instrs = n_instrs i, sbInfo_instrs = [],
        sbOut = map Copy (takeWhile (\<lambda>s. \<not> is_IMark s) (stmts sb)), out_temps = n_temps sb,
        curr_inode = None, cia = addr, isize = fix_isize arch len, glob = g1\<rparr> = Inr c1"
    and c2: "instrument_next opts gTy sb c1 = Inr c2" and c3: "flushEvents opts c2 = Inr c3" and out: "out = sbOut c3"
    using assms by (rule cg_instrumentE) blast
  have "grows c1 c3"
    using c2 flush_grows [OF c3]
    by (auto simp: instrument_next_def with_inode_def grows_trans split: if_splits IRAtom.splits option.splits
        dest!: addEvent_grows)
  then have "copies out = takeWhile (\<lambda>s. \<not> is_IMark s) (stmts sb) @ dropWhile (\<lambda>s. \<not> is_IMark s) (stmts sb)"
    using stmts_out [OF c1] pre unfolding out d by (auto simp: grows_def)
  then show ?thesis by simp
qed

theorem cg_instrument_copies_witness:
  "\<exists>out g. cg_instrument VGA_amd64 demo_opts demo_di 4096 4096 Ity_I64 Ity_I64 demo_sb (empty_cg demo_sim) =
     Inr (out, g) \<and> copies out = stmts demo_sb"
  using demo_out cg_instrument_copies by blast

text \<open>
  C18: A block whose statements have the form that the translator produces, at an address that has
  not been instrumented, is instrumented without a failing assertion: the queue never overflows,
  instruction reads are only merged with data references of the same instruction, and the number
  of nodes set up is the number counted in advance.
\<close>

theorem cg_instrument_total:
  assumes "tables_ok g" and "OSetGen_Lookup cmp_SB (instrInfoTable g) readdr = None"
    and "\<exists>s \<in> set (stmts sb). is_IMark s" and "list_all (stmt_ok arch opts) (stmts sb)"
    and "1 \<le> min_line_size opts"
  shows "\<exists>out g'. cg_instrument arch opts di readdr readdr Ity_I64 Ity_I64 sb g = Inr (out, g')"
proof -
  obtain addr len rest where d: "dropWhile (\<lambda>s. \<not> is_IMark s) (stmts sb) = Ist_IMark addr len # rest"
    using dropWhile_IMark [OF assms(3)] by blast
  define i where "i = \<lparr>SB_addr = readdr, n_instrs = int (length (filter is_IMark (stmts sb)))\<rparr>"
  have o: "oset_ok cmp_SB SB_addr (instrInfoTable g)" using assms(1) by (simp add: tables_ok_def)
  have "SB_addr i \<notin> SB_addr ` set (elements (instrInfoTable g))"
    using SB_order.lookup_None_iff [OF o] assms(2) by (simp add: i_def)
  then obtain t where t: "OSetGen_Insert cmp_SB SB_addr (instrInfoTable g) i = Inr t"
    using SB_order.OSet_insert [OF o] by blast
  then have sb: "get_SB_info sb readdr g = Inr (i, g\<lparr>instrInfoTable := t\<rparr>)"
    using assms(2) by (simp add: get_SB_info_def i_def Let_def)
  let ?c = "\<lparr>events = [], sbInfo_n_instrs = n_instrs i, sbInfo_instrs = [],
        sbOut = map Copy (takeWhile (\<lambda>s. \<not> is_IMark s) (stmts sb)), out_temps = n_temps sb,
        curr_inode = None, cia = addr, isize = fix_isize arch len, glob = g\<lparr>instrInfoTable := t\<rparr>\<rparr>"
  have "list_all (stmt_ok arch opts) (Ist_IMark addr len # rest)"
    using assms(4) unfolding d [symmetric] by (auto simp: list_all_iff dest: set_dropWhileD)
  moreover have m: "is_IMark (Ist_IMark addr len)" by (simp add: is_IMark_def)
  moreover have "n_instrs i = int (length (filter is_IMark (Ist_IMark addr len # rest)))"
    using filter_dropWhile_IMark [of "stmts sb"] unfolding d by (simp add: i_def)
  moreover have "queue_ok ?c" using get_SB_info_ok(1) [OF sb assms(1)] by (simp add: queue_ok_def)
  ultimately have "\<exists>c1. instrument_stmts arch opts di Ity_I64 (Ist_IMark addr len # rest) ?c = Inr c1 \<and>
      ready c1 \<and> int (length (sbInfo_instrs c1)) = sbInfo_n_instrs c1"
    using assms(5) by (intro stmts_total) simp_all
  then obtain c1 where c1: "instrument_stmts arch opts di Ity_I64 (Ist_IMark addr len # rest) ?c = Inr c1"
    "ready c1" "int (length (sbInfo_instrs c1)) = sbInfo_n_instrs c1" by blast
  obtain c2 where c2: "instrument_next opts Ity_I64 sb c1 = Inr c2" "ready c2" "extends c1 c2"
    using next_total [OF c1(2)] by blast
  obtain c3 where c3: "flushEvents opts c2 = Inr c3" "extends c2 c3" using ready_flush [OF c2(2)] by blast
  have "int (length (sbInfo_instrs c3)) = sbInfo_n_instrs c3"
    using c1(3) c2(3) c3(2) by (auto simp: extends_def)
  then show ?thesis
    using d sb c1(1) c2(1) c3(1) by (simp add: cg_instrument_def del: instrument_stmts.simps)
qed

theorem cg_instrument_total_witness:
  "list_all (stmt_ok VGA_amd64 demo_opts) (stmts demo_sb) \<and>
   (\<exists>out g. cg_instrument VGA_amd64 demo_opts demo_di 4096 4096 Ity_I64 Ity_I64 demo_sb (empty_cg demo_sim) = Inr (out, g))"
proof -
  have "OSetGen_Lookup cmp_SB (instrInfoTable (empty_cg demo_sim)) 4096 = None"
    by (simp add: empty_cg_def OSetGen_Lookup_def OSetGen_Create_def)
  from cg_instrument_total [OF empty_cg_tables this demo_stmt_ok(2,1)] show ?thesis
    using demo_stmt_ok(1) by (simp add: demo_opts_def)
qed

text \<open>
  C11: Performing the events of a block keeps the simulators well formed and, on every source line,
  last level misses within first level misses within references, and mispredictions within
  branches, as long as fewer than \<open>2\<^sup>6\<^sup>4\<close> events have been counted.
\<close>

theorem exec_items_ok:
  assumes "run_ok k ls st" and "k + length its < 2 ^ 64" and "list_all (item_fits ls env) its"
  shows "\<exists>l st'. exec_items arch cs env its st = Inr (l, st') \<and> run_ok (k + length its) ls st'"
  using exec_items_run [OF assms] .

theorem exec_items_ok_witness:
  "\<exists>l st'. exec_items VGA_amd64 True demo_env [Now (Ev_Dr demo_node (RdTmp 0) 8), Leave (RdTmp 2)] (empty_cg demo_sim) =
     Inr (l, st') \<and> run_ok 2 (64, 64, 64) st'"
proof -
  let ?its = "[Now (Ev_Dr demo_node (RdTmp 0) 8), Leave (RdTmp 2)]"
  have "list_all (item_fits (64, 64, 64) demo_env) ?its" by (simp add: data_fits_def demo_env_def)
  moreover have "0 + length ?its = 2" "0 + length ?its < 2 ^ 64" by simp_all
  ultimately show ?thesis using exec_items_ok [OF demo_run_ok, of ?its demo_env VGA_amd64 True] by metis
qed

end
