(* ===== verification/CacheFini.thy ===== *)
theory CacheFini
  imports CacheProfile
begin

text \<open>
  Start-up and shutdown of the profiler in \<open>valgrind/cachegrind/cg_main.c\<close>: command line options,
  \<open>cg_post_clo_init\<close>, discarding of translations, the output file with its totals, and the report
  of \<open>cg_fini\<close>.

  The output file is its text; \<open>CacheAnnotate\<close> reads it. A message of the report is its format with
  the arguments; a percentage is the pair of the counts it is computed from. Whether the
  output file can be opened is a parameter, as are the program name and its arguments.
\<close>

section \<open>Output file\<close>

text \<open>A run of \<open>" %llu"\<close> conversions.\<close>

definition show_ULongs :: "ULong list \<Rightarrow> string" where
  "show_ULongs cs = concat (map (\<lambda>c. '' '' @ show_nat (unat c)) cs)"

record totals =
  Ir_total :: CacheCC
  Dr_total :: CacheCC
  Dw_total :: CacheCC
  Bc_total :: BranchCC
  Bi_total :: BranchCC
  distinct_files :: int
  distinct_fns :: int
  distinct_lines :: int

definition zero_totals :: totals where
  "zero_totals = \<lparr>Ir_total = zero_cache, Dr_total = zero_cache, Dw_total = zero_cache,
     Bc_total = zero_branch, Bi_total = zero_branch,
     distinct_files = 0, distinct_fns = 0, distinct_lines = 0\<rparr>"

text \<open>The counts that a line prints, and those of the summary, under the two simulation options.\<close>

definition line_counts :: "CgOpts \<Rightarrow> LineCC \<Rightarrow> ULong list" where
  "line_counts opts l =
     (if clo_cache_sim opts \<and> clo_branch_sim opts then
        [cc_a (line_Ir l), cc_m1 (line_Ir l), cc_mL (line_Ir l),
         cc_a (line_Dr l), cc_m1 (line_Dr l), cc_mL (line_Dr l),
         cc_a (line_Dw l), cc_m1 (line_Dw l), cc_mL (line_Dw l),
         cc_b (line_Bc l), cc_mp (line_Bc l),
         cc_b (line_Bi l), cc_mp (line_Bi l)]
      else if clo_cache_sim opts \<and> \<not> clo_branch_sim opts then
        [cc_a (line_Ir l), cc_m1 (line_Ir l), cc_mL (line_Ir l),
         cc_a (line_Dr l), cc_m1 (line_Dr l), cc_mL (line_Dr l),
         cc_a (line_Dw l), cc_m1 (line_Dw l), cc_mL (line_Dw l)]
      else if \<not> clo_cache_sim opts \<and> clo_branch_sim opts then
        [cc_a (line_Ir l),
         cc_b (line_Bc l), cc_mp (line_Bc l),
         cc_b (line_Bi l), cc_mp (line_Bi l)]
      else
        [cc_a (line_Ir l)])"

definition total_counts :: "CgOpts \<Rightarrow> totals \<Rightarrow> ULong list" where
  "total_counts opts t =
     (if clo_cache_sim opts \<and> clo_branch_sim opts then
        [cc_a (Ir_total t), cc_m1 (Ir_total t), cc_mL (Ir_total t),
         cc_a (Dr_total t), cc_m1 (Dr_total t), cc_mL (Dr_total t),
         cc_a (Dw_total t), cc_m1 (Dw_total t), cc_mL (Dw_total t),
         cc_b (Bc_total t), cc_mp (Bc_total t),
         cc_b (Bi_total t), cc_mp (Bi_total t)]
      else if clo_cache_sim opts \<and> \<not> clo_branch_sim opts then
        [cc_a (Ir_total t), cc_m1 (Ir_total t), cc_mL (Ir_total t),
         cc_a (Dr_total t), cc_m1 (Dr_total t), cc_mL (Dr_total t),
         cc_a (Dw_total t), cc_m1 (Dw_total t), cc_mL (Dw_total t)]
      else if \<not> clo_cache_sim opts \<and> clo_branch_sim opts then
        [cc_a (Ir_total t),
         cc_b (Bc_total t), cc_mp (Bc_total t),
         cc_b (Bi_total t), cc_mp (Bi_total t)]
      else
        [cc_a (Ir_total t)])"

definition print_LineCC :: "CgOpts \<Rightarrow> int \<Rightarrow> LineCC \<Rightarrow> string" where
  "print_LineCC opts line l = show_Int line @ show_ULongs (line_counts opts l) @ [CHR 0x0A]"

definition print_summary :: "CgOpts \<Rightarrow> totals \<Rightarrow> string" where
  "print_summary opts t = ''summary:'' @ show_ULongs (total_counts opts t) @ [CHR 0x0A]"

definition events_line :: "CgOpts \<Rightarrow> string" where
  "events_line opts =
     (if clo_cache_sim opts \<and> clo_branch_sim opts then
        [CHR 0x0A] @ ''events: Ir I1mr ILmr Dr D1mr DLmr Dw D1mw DLmw Bc Bcm Bi Bim'' @ [CHR 0x0A]
      else if clo_cache_sim opts \<and> \<not> clo_branch_sim opts then
        [CHR 0x0A] @ ''events: Ir I1mr ILmr Dr D1mr DLmr Dw D1mw DLmw '' @ [CHR 0x0A]
      else if \<not> clo_cache_sim opts \<and> clo_branch_sim opts then
        [CHR 0x0A] @ ''events: Ir Bc Bcm Bi Bim'' @ [CHR 0x0A]
      else [CHR 0x0A] @ ''events: Ir'' @ [CHR 0x0A])"

definition desc_lines :: "cachesim \<Rightarrow> string" where
  "desc_lines s =
     ''desc: I1 cache:         '' @ c2_desc_line (sim_I1 s) @ [CHR 0x0A] @
     ''desc: D1 cache:         '' @ c2_desc_line (sim_D1 s) @ [CHR 0x0A] @
     ''desc: LL cache:         '' @ c2_desc_line (sim_LL s) @ [CHR 0x0A]"

definition cmd_line :: "string \<Rightarrow> string list \<Rightarrow> string" where
  "cmd_line exename args = ''cmd: '' @ exename @ concat (map (\<lambda>a. '' '' @ a) args)"

definition header_text :: "CgOpts \<Rightarrow> cachesim \<Rightarrow> string \<Rightarrow> string list \<Rightarrow> string" where
  "header_text opts s exename args = desc_lines s @ cmd_line exename args @ events_line opts"

definition add_cache :: "CacheCC \<Rightarrow> CacheCC \<Rightarrow> CacheCC" where
  "add_cache t c = \<lparr>cc_a = cc_a t + cc_a c, cc_m1 = cc_m1 t + cc_m1 c, cc_mL = cc_mL t + cc_mL c\<rparr>"

definition add_branch :: "BranchCC \<Rightarrow> BranchCC \<Rightarrow> BranchCC" where
  "add_branch t c = \<lparr>cc_b = cc_b t + cc_b c, cc_mp = cc_mp t + cc_mp c\<rparr>"

definition add_line :: "LineCC \<Rightarrow> totals \<Rightarrow> totals" where
  "add_line l t = t\<lparr>Ir_total := add_cache (Ir_total t) (line_Ir l),
     Dr_total := add_cache (Dr_total t) (line_Dr l), Dw_total := add_cache (Dw_total t) (line_Dw l),
     Bc_total := add_branch (Bc_total t) (line_Bc l), Bi_total := add_branch (Bi_total t) (line_Bi l),
     distinct_lines := distinct_lines t + 1\<rparr>"

record printer =
  pr_out :: string
  currFile :: "string option"
  currFn :: "string option"
  pr_totals :: totals

text \<open>
  The body of the traversal. The source compares the interned strings by address; a string is in
  the string table once, so this is equality of strings.
\<close>

definition print_line :: "CgOpts \<Rightarrow> (CodeLoc \<Rightarrow> LineCC) \<Rightarrow> CodeLoc \<Rightarrow> printer \<Rightarrow> printer" where
  "print_line opts cc loc p =
     (let just_hit_a_new_file = (Some (loc_file loc) \<noteq> currFile p);
          p = (if just_hit_a_new_file
               then p\<lparr>currFile := Some (loc_file loc), pr_out := pr_out p @ ''fl='' @ loc_file loc @ [CHR 0x0A],
                      pr_totals := (pr_totals p)\<lparr>distinct_files := distinct_files (pr_totals p) + 1\<rparr>\<rparr>
               else p);
          p = (if just_hit_a_new_file \<or> Some (loc_fn loc) \<noteq> currFn p
               then p\<lparr>currFn := Some (loc_fn loc), pr_out := pr_out p @ ''fn='' @ loc_fn loc @ [CHR 0x0A],
                      pr_totals := (pr_totals p)\<lparr>distinct_fns := distinct_fns (pr_totals p) + 1\<rparr>\<rparr>
               else p)
      in p\<lparr>pr_out := pr_out p @ print_LineCC opts (loc_line loc) (cc loc),
           pr_totals := add_line (cc loc) (pr_totals p)\<rparr>)"

definition fprint_CC_table_and_calc_totals ::
  "CgOpts \<Rightarrow> bool \<Rightarrow> string \<Rightarrow> string list \<Rightarrow> cg \<Rightarrow> (string option \<times> totals) cres" where
  "fprint_CC_table_and_calc_totals opts can_open exename args st =
     (if \<not> can_open then Inr (None, zero_totals)
      else
        cbind (cbind (OSetGen_ResetIter (CC_table st)) (drain (Suc (unat (nElems (CC_table st)))))) (\<lambda>locs.
        let p = fold (print_line opts (ccs st)) locs
                  \<lparr>pr_out = header_text opts (sim st) exename args, currFile = None, currFn = None,
                   pr_totals = zero_totals\<rparr>
        in Inr (Some (pr_out p @ print_summary opts (pr_totals p)), pr_totals p)))"

section \<open>Report\<close>

text \<open>The loop \<open>while (n > 0) { n = n / 10; w++; }\<close>.\<close>

function width_loop :: "ULong \<Rightarrow> UInt \<Rightarrow> UInt" where
  "width_loop n w = (if n > 0 then width_loop (n div 10) (w + 1) else w)"
  by pat_completeness auto
termination
  by (relation "measure (\<lambda>(n, w). unat n)") (auto simp: unat_div word_gt_0 unat_gt_0 intro!: div_less_dividend)

declare width_loop.simps [simp del]

definition ULong_width :: "ULong \<Rightarrow> UInt" where
  "ULong_width n =
     (let w = width_loop n 0; w = (if w = 0 then 1 else w) in w + (w - 1) div 3)"

datatype umsg =
    Count1 string UInt ULong
  | Count3 string UInt UInt UInt ULong ULong ULong
  | Rate1 string UInt "ULong \<times> ULong"
  | Rate3 string UInt UInt UInt "ULong \<times> ULong" "ULong \<times> ULong" "ULong \<times> ULong"
  | Blank
  | Stat string int
  | StatRate string int int
  | Size string UInt

definition max_ULong :: "ULong \<Rightarrow> ULong \<Rightarrow> ULong" where
  "max_ULong a b = (if a \<ge> b then a else b)"

text \<open>The guard \<open>if (0 == x) x = 1;\<close> before a division.\<close>

definition nonzero :: "ULong \<Rightarrow> ULong" where
  "nonzero x = (if 0 = x then 1 else x)"

definition cache_report :: "UInt \<Rightarrow> UInt \<Rightarrow> UInt \<Rightarrow> totals \<Rightarrow> umsg list" where
  "cache_report l1 l2 l3 t =
     (let ir = Ir_total t; dr = Dr_total t; dw = Dw_total t;
          ir_a = nonzero (cc_a ir);
          D_a = cc_a dr + cc_a dw; D_m1 = cc_m1 dr + cc_m1 dw; D_mL = cc_mL dr + cc_mL dw;
          D_a' = nonzero D_a; dr_a = nonzero (cc_a dr); dw_a = nonzero (cc_a dw);
          LL_total = cc_m1 dr + cc_m1 dw + cc_m1 ir;
          LL_total_r = cc_m1 dr + cc_m1 ir;
          LL_total_w = cc_m1 dw;
          LL_total_m = cc_mL dr + cc_mL dw + cc_mL ir;
          LL_total_mr = cc_mL dr + cc_mL ir;
          LL_total_mw = cc_mL dw
      in [Count1 ''I1  misses:   '' l1 (cc_m1 ir),
          Count1 ''LLi misses:   '' l1 (cc_mL ir),
          Rate1 ''I1  miss rate: '' l1 (cc_m1 ir, ir_a),
          Rate1 ''LLi miss rate: '' l1 (cc_mL ir, ir_a),
          Blank,
          Count3 ''D   refs:     '' l1 l2 l3 D_a (cc_a dr) (cc_a dw),
          Count3 ''D1  misses:   '' l1 l2 l3 D_m1 (cc_m1 dr) (cc_m1 dw),
          Count3 ''LLd misses:   '' l1 l2 l3 D_mL (cc_mL dr) (cc_mL dw),
          Rate3 ''D1  miss rate: '' l1 l2 l3 (D_m1, D_a') (cc_m1 dr, dr_a) (cc_m1 dw, dw_a),
          Rate3 ''LLd miss rate: '' l1 l2 l3 (D_mL, D_a') (cc_mL dr, dr_a) (cc_mL dw, dw_a),
          Blank,
          Count3 ''LL refs:      '' l1 l2 l3 LL_total LL_total_r LL_total_w,
          Count3 ''LL misses:    '' l1 l2 l3 LL_total_m LL_total_mr LL_total_mw,
          Rate3 ''LL miss rate:  '' l1 l2 l3 (LL_total_m, ir_a + D_a') (LL_total_mr, ir_a + dr_a)
            (LL_total_mw, dw_a)])"

definition branch_report :: "UInt \<Rightarrow> UInt \<Rightarrow> UInt \<Rightarrow> totals \<Rightarrow> umsg list" where
  "branch_report l1 l2 l3 t =
     (let bc = Bc_total t; bi = Bi_total t;
          bc_b = nonzero (cc_b bc); bi_b = nonzero (cc_b bi);
          B_b = bc_b + bi_b; B_mp = cc_mp bc + cc_mp bi
      in [Blank,
          Count3 ''Branches:     '' l1 l2 l3 B_b bc_b bi_b,
          Count3 ''Mispredicts:  '' l1 l2 l3 B_mp (cc_mp bc) (cc_mp bi),
          Rate3 ''Mispred rate:  '' l1 l2 l3 (B_mp, B_b) (cc_mp bc, bc_b) (cc_mp bi, bi_b)])"

definition stats_report :: "totals \<Rightarrow> cg \<Rightarrow> umsg list" where
  "stats_report t st =
     (let s = stats st;
          debug_lookups = full_debugs s + fn_debugs s + file_line_debugs s + no_debugs s
      in [Blank,
          Stat ''distinct files     '' (distinct_files t),
          Stat ''distinct functions '' (distinct_fns t),
          Stat ''distinct lines     '' (distinct_lines t),
          Stat ''distinct instrs NoX'' (distinct_instrsNoX s),
          Stat ''distinct instrs Gen'' (distinct_instrsGen s),
          Stat ''debug lookups      '' debug_lookups,
          StatRate ''with full      info'' (full_debugs s) debug_lookups,
          StatRate ''with file/line info'' (file_line_debugs s) debug_lookups,
          StatRate ''with fn name   info'' (fn_debugs s) debug_lookups,
          StatRate ''with zero      info'' (no_debugs s) debug_lookups,
          Size ''string table size'' (OSetGen_Size (stringTable st)),
          Size ''CC table size'' (OSetGen_Size (CC_table st)),
          Size ''InstrInfo table size'' (OSetGen_Size (instrInfoTable st))])"

definition cg_fini ::
  "CgOpts \<Rightarrow> int \<Rightarrow> bool \<Rightarrow> bool \<Rightarrow> string \<Rightarrow> string list \<Rightarrow> cg \<Rightarrow> (string option \<times> umsg list) cres" where
  "cg_fini opts verbosity clo_stats can_open exename args st =
     cbind (fprint_CC_table_and_calc_totals opts can_open exename args st) (\<lambda>(out, t).
     if verbosity = 0 then Inr (out, [])
     else
       let l1 = ULong_width (cc_a (Ir_total t));
           l2 = ULong_width (max_ULong (cc_a (Dr_total t)) (cc_b (Bc_total t)));
           l3 = ULong_width (max_ULong (cc_a (Dw_total t)) (cc_b (Bi_total t)))
       in Inr (out, [Count1 ''I   refs:     '' l1 (cc_a (Ir_total t))] @
            (if clo_cache_sim opts then cache_report l1 l2 l3 t else []) @
            (if clo_branch_sim opts then branch_report l1 l2 l3 t else []) @
            (if clo_stats then stats_report t st else [])))"

section \<open>Discarding translations\<close>

definition cg_discard_superblock_info :: "Addr list \<Rightarrow> cg \<Rightarrow> cg cres" where
  "cg_discard_superblock_info vge_base st =
     cassert (length vge_base > 0) (
     cbind (OSetGen_Remove cmp_SB SB_addr (instrInfoTable st) (vge_base ! 0)) (\<lambda>(sbInfo, t).
     cassert (sbInfo \<noteq> None) (Inr (st\<lparr>instrInfoTable := t\<rparr>))))"

section \<open>Options and start-up\<close>

definition VG_BOOL_CLO :: "string \<Rightarrow> string \<Rightarrow> bool \<Rightarrow> (bool \<times> bool) cres" where
  "VG_BOOL_CLO arg option_name var =
     (case VG_STR_CLO arg option_name of
        None \<Rightarrow> Inr (False, var)
      | Some val \<Rightarrow>
          if val = ''yes'' then Inr (True, True)
          else if val = ''no'' then Inr (True, False)
          else Inl (Exit_with (''Invalid boolean value '' @ [CHR 0x27] @ val @ [CHR 0x27] @
                 '' (should be '' @ [CHR 0x27] @ ''yes'' @ [CHR 0x27] @ '' or '' @ [CHR 0x27] @ ''no'' @
                 [CHR 0x27] @ '')'' @ [CHR 0x0A])))"

record cg_clo =
  clo_cache :: clo_caches
  clo_cs :: bool
  clo_bs :: bool
  clo_cachegrind_out_file :: string

definition cg_clo_init :: cg_clo where
  "cg_clo_init = \<lparr>clo_cache = no_clo_caches, clo_cs = True, clo_bs = False,
     clo_cachegrind_out_file = ''cachegrind.out.%p''\<rparr>"

definition cg_process_cmd_line_option :: "string \<Rightarrow> cg_clo \<Rightarrow> (bool \<times> cg_clo) cres" where
  "cg_process_cmd_line_option arg clo =
     cbind (str_clo_cache_opt arg (clo_cache clo)) (\<lambda>(done_caches, cc).
     if done_caches then Inr (True, clo\<lparr>clo_cache := cc\<rparr>)
     else case VG_STR_CLO arg ''--cachegrind-out-file'' of
       Some v \<Rightarrow> Inr (True, clo\<lparr>clo_cachegrind_out_file := v\<rparr>)
     | None \<Rightarrow>
         cbind (VG_BOOL_CLO arg ''--cache-sim'' (clo_cs clo)) (\<lambda>(done_cs, b).
         if done_cs then Inr (True, clo\<lparr>clo_cs := b\<rparr>)
         else
           cbind (VG_BOOL_CLO arg ''--branch-sim'' (clo_bs clo)) (\<lambda>(done_bs, b).
           if done_bs then Inr (True, clo\<lparr>clo_bs := b\<rparr>) else Inr (False, clo))))"

definition too_small_msg :: "int \<Rightarrow> int \<Rightarrow> string" where
  "too_small_msg mls largest =
     ''Cachegrind: cannot continue: the minimum line size ('' @ show_Int mls @ '')'' @ [CHR 0x0A] @
     ''  must be equal to or larger than the maximum register size ('' @ show_Int largest @ '')'' @ [CHR 0x0A] @
     ''  but it is not.  Exiting now.'' @ [CHR 0x0A]"

definition cg_post_clo_init :: "VGA_arch \<Rightarrow> VexCacheInfo \<Rightarrow> int \<Rightarrow> cg_clo \<Rightarrow> (CgOpts \<times> cg) cres" where
  "cg_post_clo_init arch ci largest_load_or_store_size clo =
     cbind (post_clo_init_configure_caches arch ci (clo_cache clo)) (\<lambda>(I1c, D1c, LLc).
     let mls = (if cline_size I1c < cline_size D1c then cline_size I1c else cline_size D1c);
         mls = (if cline_size LLc < mls then cline_size LLc else mls)
     in if mls < largest_load_or_store_size
        then Inl (Exit_with (too_small_msg mls largest_load_or_store_size))
        else cbind (cachesim_initcaches I1c D1c LLc) (\<lambda>s.
          Inr (\<lparr>clo_cache_sim = clo_cs clo, clo_branch_sim = clo_bs clo, min_line_size = mls\<rparr>, empty_cg s)))"

text \<open>The printer before the first line.\<close>

definition start_printer :: "string \<Rightarrow> printer" where
  "start_printer hdr = \<lparr>pr_out = hdr, currFile = None, currFn = None, pr_totals = zero_totals\<rparr>"

text \<open>Options in the order of the command line; options of the core are passed over.\<close>

fun cg_run_opts :: "string list \<Rightarrow> cg_clo \<Rightarrow> cg_clo cres" where
  "cg_run_opts [] clo = Inr clo"
| "cg_run_opts (arg # args) clo =
     cbind (cg_process_cmd_line_option arg clo) (\<lambda>(_, clo). cg_run_opts args clo)"

definition caches_ok :: "cg_clo \<Rightarrow> bool" where
  "caches_ok clo \<longleftrightarrow> clo_ok (clo_I1c (clo_cache clo)) \<and> clo_ok (clo_D1c (clo_cache clo)) \<and>
     clo_ok (clo_LLc (clo_cache clo))"

section \<open>Traversal\<close>

lemma drain_table:
  assumes "oset_ok cmp key t" and "length (elements t) < 9227464"
  shows "cbind (OSetGen_ResetIter t) (drain (Suc (unat (nElems t)))) = Inr (elements t)"
proof -
  have a: "avl_ok (root t)" "nElems t = of_nat (length (elements t))"
    using assms(1) by (simp_all add: oset_ok_def)
  have "unat (nElems t) = length (elements t)"
    unfolding a(2) using assms(2) by (simp add: unat_of_nat)
  moreover obtain t' where "OSetGen_ResetIter t = Inr t'" "stack_ok (iter t')" "pending (iter t') = elements t"
    using ResetIter_ok [OF a(1) assms(2)] .
  ultimately show ?thesis using drain_pending [of t' "Suc (length (elements t))"] by simp
qed

lemma fprint_out:
  fixes opts :: CgOpts and exename :: string and args :: "string list"
  assumes "tables_ok st" and "length (elements (CC_table st)) < 9227464"
  defines "p \<equiv> fold (print_line opts (ccs st)) (elements (CC_table st))
    (start_printer (header_text opts (sim st) exename args))"
  shows "fprint_CC_table_and_calc_totals opts True exename args st =
    Inr (Some (pr_out p @ print_summary opts (pr_totals p)), pr_totals p)"
proof -
  have "oset_ok cmp_CodeLoc_LineCC id (CC_table st)" using assms(1) by (simp add: tables_ok_def)
  from drain_table [OF this assms(2)] show ?thesis
    by (simp add: fprint_CC_table_and_calc_totals_def p_def start_printer_def Let_def)
qed

text \<open>In the order of the table the lines of a file, and those of a function of a file, are adjacent.\<close>

lemma ordered_last:
  assumes "ordered cmp_CodeLoc_LineCC id (locs @ [l])" and "x \<in> set locs"
  shows "cmp_CodeLoc_LineCC (last locs) l < 0" "x \<noteq> last locs \<Longrightarrow> cmp_CodeLoc_LineCC x (last locs) < 0"
  using assms by (cases locs rule: rev_cases; auto simp: ordered_def sorted_wrt_append)+

lemma new_file_not_seen:
  assumes "ordered cmp_CodeLoc_LineCC id (locs @ [l])" and "loc_file (last locs) \<noteq> loc_file l"
  shows "loc_file l \<notin> loc_file ` set locs"
proof
  assume "loc_file l \<in> loc_file ` set locs"
  then obtain x where x: "x \<in> set locs" "loc_file x = loc_file l" by auto
  then have "x \<noteq> last locs" using assms(2) by auto
  then have "VG_strcmp (loc_file (last locs)) (loc_file l) < 0" "VG_strcmp (loc_file l) (loc_file (last locs)) < 0"
    using ordered_last [OF assms(1) x(1)] assms(2) x(2) by (auto simp: cmp_CodeLoc_less)
  then show False using VG_strcmp_neg_swap by simp
qed

lemma new_fn_not_seen:
  assumes "ordered cmp_CodeLoc_LineCC id (locs @ [l])"
    and "(loc_file (last locs), loc_fn (last locs)) \<noteq> (loc_file l, loc_fn l)"
  shows "(loc_file l, loc_fn l) \<notin> (\<lambda>x. (loc_file x, loc_fn x)) ` set locs"
proof
  assume "(loc_file l, loc_fn l) \<in> (\<lambda>x. (loc_file x, loc_fn x)) ` set locs"
  then obtain x where x: "x \<in> set locs" "loc_file x = loc_file l" "loc_fn x = loc_fn l" by auto
  then have f: "loc_file (last locs) = loc_file l" using new_file_not_seen [OF assms(1)] by (metis imageI)
  have "x \<noteq> last locs" using x(2,3) assms(2) by auto
  then have "VG_strcmp (loc_fn (last locs)) (loc_fn l) < 0" "VG_strcmp (loc_fn l) (loc_fn (last locs)) < 0"
    using ordered_last [OF assms(1) x(1)] assms(2) x(2,3) f VG_strcmp_refl by (auto simp: cmp_CodeLoc_less)
  then show False using VG_strcmp_neg_swap by simp
qed

lemma print_line_distinct:
  "distinct_files (pr_totals (print_line opts cc l p)) =
     distinct_files (pr_totals p) + (if Some (loc_file l) \<noteq> currFile p then 1 else 0)"
  "distinct_fns (pr_totals (print_line opts cc l p)) =
     distinct_fns (pr_totals p) + (if Some (loc_file l) \<noteq> currFile p \<or> Some (loc_fn l) \<noteq> currFn p then 1 else 0)"
  "distinct_lines (pr_totals (print_line opts cc l p)) = distinct_lines (pr_totals p) + 1"
  "currFile (print_line opts cc l p) = Some (loc_file l)" "currFn (print_line opts cc l p) = Some (loc_fn l)"
  by (auto simp: print_line_def add_line_def Let_def)

lemma fold_print_line_distinct:
  assumes "ordered cmp_CodeLoc_LineCC id locs"
  shows "let p = fold (print_line opts cc) locs (start_printer hdr) in
    distinct_files (pr_totals p) = int (card (loc_file ` set locs)) \<and>
    distinct_fns (pr_totals p) = int (card ((\<lambda>x. (loc_file x, loc_fn x)) ` set locs)) \<and>
    distinct_lines (pr_totals p) = int (length locs) \<and>
    (if locs = [] then currFile p = None
     else currFile p = Some (loc_file (last locs)) \<and> currFn p = Some (loc_fn (last locs)))"
  using assms
proof (induction locs rule: rev_induct)
  case Nil
  then show ?case by (simp add: start_printer_def zero_totals_def)
next
  case (snoc l locs)
  let ?p = "fold (print_line opts cc) locs (start_printer hdr)"
  let ?F = "loc_file ` set locs" and ?G = "(\<lambda>x. (loc_file x, loc_fn x)) ` set locs"
  have o: "ordered cmp_CodeLoc_LineCC id locs" using snoc.prems by (simp add: ordered_def sorted_wrt_append)
  note IH = snoc.IH [OF o, unfolded Let_def]
  have f: "loc_file l \<in> ?F \<longleftrightarrow> locs \<noteq> [] \<and> loc_file (last locs) = loc_file l"
    using new_file_not_seen [OF snoc.prems] by (cases "locs = []") (auto, metis imageI last_in_set)
  have g: "(loc_file l, loc_fn l) \<in> ?G \<longleftrightarrow> locs \<noteq> [] \<and> loc_file (last locs) = loc_file l \<and> loc_fn (last locs) = loc_fn l"
  proof (cases "locs = []")
    case False
    then have "(loc_file (last locs), loc_fn (last locs)) \<in> ?G" by simp
    then show ?thesis using new_fn_not_seen [OF snoc.prems] False by fastforce
  qed simp
  have new: "Some (loc_file l) \<noteq> currFile ?p \<longleftrightarrow> loc_file l \<notin> ?F"
    "Some (loc_file l) \<noteq> currFile ?p \<or> Some (loc_fn l) \<noteq> currFn ?p \<longleftrightarrow> (loc_file l, loc_fn l) \<notin> ?G"
    using IH f g by (cases "locs = []"; auto)+
  have "fold (print_line opts cc) (locs @ [l]) (start_printer hdr) = print_line opts cc l ?p" by simp
  then show ?case
    unfolding Let_def using IH
    by (simp only: print_line_distinct new(2)) (simp only: new(1), simp add: card_insert_if)
qed

lemma fold_print_line_branches:
  assumes "\<forall>l \<in> set locs. cc_b (line_Bc (cc l)) = 0 \<and> cc_b (line_Bi (cc l)) = 0"
  shows "cc_b (Bc_total (pr_totals (fold (print_line opts cc) locs (start_printer hdr)))) = 0 \<and>
    cc_b (Bi_total (pr_totals (fold (print_line opts cc) locs (start_printer hdr)))) = 0"
  using assms
proof (induction locs rule: rev_induct)
  case Nil
  then show ?case by (simp add: start_printer_def zero_totals_def zero_branch_def)
next
  case (snoc l locs)
  then show ?case by (simp add: print_line_def add_line_def add_branch_def Let_def)
qed

section \<open>Column widths\<close>

lemma length_show_nat: "length (show_nat n) = (if n < 10 then 1 else Suc (length (show_nat (n div 10))))"
  by (subst show_nat.simps) simp

lemma width_loop_pos:
  assumes "0 < n"
  shows "width_loop n w = w + of_nat (length (show_nat (unat n)))"
  using assms
proof (induction n w rule: width_loop.induct)
  case (1 n w)
  have u: "unat (n div 10) = unat n div 10" by (simp add: unat_div)
  show ?case
  proof (cases "unat n < 10")
    case True
    then have "n div 10 = 0" using u by (metis div_less unat_eq_zero)
    then show ?thesis
      using 1(2) True by (simp add: width_loop.simps [of n] width_loop.simps [of 0] length_show_nat [of "unat n"])
  next
    case False
    then have "0 < n div 10" using u by (simp add: word_less_nat_alt)
    then show ?thesis
      using 1 False u by (simp add: width_loop.simps [of n] length_show_nat [of "unat n"])
  qed
qed

lemma length_show_nat_le: "n < 10 ^ k \<Longrightarrow> 0 < k \<Longrightarrow> length (show_nat n) \<le> k"
proof (induction k arbitrary: n)
  case (Suc k)
  then show ?case
    by (cases "n < 10") (auto simp: length_show_nat [of n] less_mult_imp_div_less intro!: Suc.IH gr0I)
qed simp

section \<open>Start-up\<close>

lemma process_option_ok:
  assumes "cg_process_cmd_line_option arg clo = Inr (b, clo')" and "caches_ok clo"
  shows "caches_ok clo'"
proof -
  obtain d cc where s: "str_clo_cache_opt arg (clo_cache clo) = Inr (d, cc)"
    using assms(1) by (auto simp: cg_process_cmd_line_option_def cbind_eq_Inr)
  have "clo_ok (clo_I1c cc) \<and> clo_ok (clo_D1c cc) \<and> clo_ok (clo_LLc cc)"
    using str_clo_cache_opt_ok [OF s] assms(2) by (simp add: caches_ok_def)
  then show ?thesis
    using assms s
    by (auto simp: cg_process_cmd_line_option_def cbind_eq_Inr caches_ok_def split: if_splits option.splits)
qed

lemma run_opts_ok: "cg_run_opts args clo = Inr clo' \<Longrightarrow> caches_ok clo \<Longrightarrow> caches_ok clo'"
  by (induction args arbitrary: clo) (auto simp: cbind_eq_Inr dest: process_option_ok)

lemma caches_ok_init: "caches_ok cg_clo_init"
  by (simp add: caches_ok_def cg_clo_init_def no_clo_caches_def clo_ok_def DEFINED_def UNDEFINED_CACHE_def)

lemma post_clo_init_cases:
  assumes "caches_ok clo" and "cg_post_clo_init arch ci largest clo = Inr (opts, st)"
  shows "sim_ok (sim st)" "\<exists>s. st = empty_cg s" "largest \<le> min_line_size opts"
    "min_line_size opts = min (fst (line_sizes (sim st))) (min (fst (snd (line_sizes (sim st)))) (snd (snd (line_sizes (sim st)))))"
proof -
  obtain i d l where c: "post_clo_init_configure_caches arch ci (clo_cache clo) = Inr (i, d, l)"
    using assms(2) by (auto simp: cg_post_clo_init_def cbind_eq_Inr)
  note v = configured_valid [OF _ _ _ c] 
  have ok: "Int_fields i" "valid_cache i" "Int_fields d" "valid_cache d" "Int_fields l" "valid_cache l"
    using v assms(1) by (auto simp: caches_ok_def)
  obtain ci' where ci': "cachesim_initcache i = Inr ci'" "cache_ok ci'" "c2_line_size ci' = cline_size i"
    using initcache_valid [OF ok(1,2)] by metis
  obtain cd where cd: "cachesim_initcache d = Inr cd" "cache_ok cd" "c2_line_size cd = cline_size d"
    using initcache_valid [OF ok(3,4)] by metis
  obtain cl where cl: "cachesim_initcache l = Inr cl" "cache_ok cl" "c2_line_size cl = cline_size l"
    using initcache_valid [OF ok(5,6)] by metis
  have st: "st = empty_cg \<lparr>sim_I1 = ci', sim_D1 = cd, sim_LL = cl\<rparr>"
    "largest \<le> min_line_size opts" "min_line_size opts = min (cline_size i) (min (cline_size d) (cline_size l))"
    using assms(2) c ci'(1) cd(1) cl(1)
    by (auto simp: cg_post_clo_init_def cachesim_initcaches_def Let_def split: if_splits)
  show "sim_ok (sim st)" using st(1) ci' cd cl by (simp add: empty_cg_def sim_ok_def)
  show "\<exists>s. st = empty_cg s" using st(1) by blast
  show "largest \<le> min_line_size opts" by (rule st(2))
  show "min_line_size opts = min (fst (line_sizes (sim st))) (min (fst (snd (line_sizes (sim st)))) (snd (snd (line_sizes (sim st)))))"
    using st(1,3) ci'(3) cd(3) cl(3) by (simp add: empty_cg_def line_sizes_def)
qed

lemma run_ok_empty: "sim_ok s \<Longrightarrow> run_ok 0 (line_sizes s) (empty_cg s)"
  using bp_ok_init
  by (simp add: run_ok_def empty_cg_def line_bounded_def zero_LineCC_def zero_cache_def zero_branch_def
      cache_bounded_def branch_bounded_def)

section \<open>Discarding\<close>

lemma flush_glob: "flushEvents opts cgs = Inr cgs' \<Longrightarrow> glob cgs' = glob cgs"
  by (auto simp: flushEvents_def cbind_eq_Inr)

lemma append_glob: "append_event opts ev cgs = Inr cgs' \<Longrightarrow> glob cgs' = glob cgs"
  by (auto simp: append_event_def cbind_eq_Inr cassert_eq_Inr split: if_splits dest: flush_glob)

lemma addEvent_glob:
  "addEvent_Dr opts n sz ea cgs = Inr cgs' \<Longrightarrow> glob cgs' = glob cgs"
  "addEvent_Dw opts n sz ea cgs = Inr cgs' \<Longrightarrow> glob cgs' = glob cgs"
  "addEvent_D_guarded opts n sz ea g w cgs = Inr cgs' \<Longrightarrow> glob cgs' = glob cgs"
  "addEvent_Bc opts ty n ea cgs = Inr cgs' \<Longrightarrow> glob cgs' = glob cgs"
  "addEvent_Bi opts ty n ea cgs = Inr cgs' \<Longrightarrow> glob cgs' = glob cgs"
  by (auto simp: addEvent_Dr_def addEvent_Dw_def addEvent_D_guarded_def addEvent_Bc_def addEvent_Bi_def
      Let_def cassert_eq_Inr cbind_eq_Inr split: if_splits option.splits dest!: append_glob flush_glob)

lemma branch_glob: "instrument_branch opts ty guard dst cgs = Inr cgs' \<Longrightarrow> glob cgs' = glob cgs"
  by (auto simp: instrument_branch_def Let_def cbind_eq_Inr with_inode_def split: option.splits dest!: addEvent_glob)

lemma stmt_table:
  assumes "instrument_stmt arch opts di ty st cgs = Inr cgs'" and "tables_ok (glob cgs)"
  shows "tables_ok (glob cgs') \<and> instrInfoTable (glob cgs') = instrInfoTable (glob cgs)"
proof (cases "is_IMark st")
  case True
  then obtain addr len where st: "st = Ist_IMark addr len" by (cases st) (auto simp: is_IMark_def)
  obtain g where g: "get_lineCC di addr (glob cgs) = Inr (loc_of di addr, g)" "tables_ok g"
    "instrInfoTable g = instrInfoTable (glob cgs)"
    using get_lineCC_cases [OF assms(2)] by metis
  have "tables_ok (g\<lparr>stats := s\<rparr>)" for s using g(2) by (simp add: tables_ok_def)
  then show ?thesis
    using assms(1) st g
    by (auto simp: instrument_stmt_def setup_InstrInfo_def addEvent_Ir_def Let_def cassert_eq_Inr cbind_eq_Inr
        split: if_splits dest!: append_glob)
next
  case False
  have "glob cgs' = glob cgs"
    using False assms(1)
    by (cases st) (auto simp: instrument_stmt_def Let_def cassert_eq_Inr cbind_eq_Inr with_inode_def is_IMark_def
        split: option.splits if_splits dest!: addEvent_glob branch_glob flush_glob)
  then show ?thesis using assms(2) by simp
qed

lemma stmts_table:
  "instrument_stmts arch opts di ty sts cgs = Inr cgs' \<Longrightarrow> tables_ok (glob cgs) \<Longrightarrow>
   tables_ok (glob cgs') \<and> instrInfoTable (glob cgs') = instrInfoTable (glob cgs)"
  by (induction sts arbitrary: cgs) (auto simp: cbind_eq_Inr dest!: stmt_table)

section \<open>Properties\<close>

text \<open>
  The counters of distinct files, functions and lines are the numbers of different files, of
  different pairs of a file and a function, and of lines in the table, although the traversal only
  compares each line with the one before.
\<close>

theorem fprint_distinct:
  assumes "tables_ok st" and "length (elements (CC_table st)) < 9227464"
    and "fprint_CC_table_and_calc_totals opts True exename args st = Inr (out, t)"
  shows "distinct_files t = int (card (loc_file ` set (elements (CC_table st)))) \<and>
    distinct_fns t = int (card ((\<lambda>l. (loc_file l, loc_fn l)) ` set (elements (CC_table st)))) \<and>
    distinct_lines t = int (card (set (elements (CC_table st))))"
proof -
  have o: "ordered cmp_CodeLoc_LineCC id (elements (CC_table st))"
    using assms(1) by (simp add: tables_ok_def oset_ok_def)
  then have "distinct (elements (CC_table st))" by (rule line_order.ordered_distinct)
  then show ?thesis
    using assms(3) fold_print_line_distinct [OF o] fprint_out [OF assms(1,2)]
    by (auto simp: Let_def distinct_card)
qed

theorem fprint_distinct_witness:
  "\<exists>out t. fprint_CC_table_and_calc_totals demo_opts True ''prog'' [] (empty_cg demo_sim) = Inr (out, t) \<and>
     distinct_files t = 0"
proof -
  have e: "elements (CC_table (empty_cg demo_sim)) = []"
    by (simp add: empty_cg_def elements_def OSetGen_Create_def)
  obtain out t where r: "fprint_CC_table_and_calc_totals demo_opts True ''prog'' [] (empty_cg demo_sim) = Inr (out, t)"
    using fprint_out [OF empty_cg_tables, of demo_sim demo_opts "''prog''" "[]"] e by auto
  then show ?thesis using fprint_distinct [OF empty_cg_tables _ r] e by auto
qed

text \<open>
  C35: The loop that computes a column width ends, and the width is the number of decimal digits
  plus the commas between groups of three: it fits the number as it is printed.
\<close>

theorem ULong_width_ok:
  "unat (ULong_width n) =
     (let d = length (show_nat (unat n)) in d + (d - 1) div 3)"
proof -
  let ?d = "length (show_nat (unat n))"
  have "unat n < 2 ^ 64" using unsigned_less [of n] by simp
  then have "unat n < 10 ^ 20" by simp
  then have d: "?d \<le> 20" by (rule length_show_nat_le) simp
  have d1: "1 \<le> ?d" by (subst length_show_nat) simp
  have w: "(let w = width_loop n 0 in if w = 0 then 1 else w) = (of_nat ?d :: UInt)"
  proof (cases "n = 0")
    case True
    then show ?thesis by (simp add: width_loop.simps [of 0] length_show_nat [of 0])
  next
    case False
    then have "width_loop n 0 = of_nat ?d" using width_loop_pos [of n 0] by (simp add: word_gt_0)
    moreover have "unat (of_nat ?d :: UInt) = ?d" using d by (simp add: unat_of_nat)
    then have "(of_nat ?d :: UInt) \<noteq> 0" using d1 by auto
    ultimately show ?thesis by (simp add: Let_def)
  qed
  have "unat ((of_nat ?d :: UInt) - 1) = ?d - 1"
    using d d1 by (simp add: unat_sub_if_size unat_of_nat word_le_nat_alt)
  then have "unat (((of_nat ?d :: UInt) - 1) div 3) = (?d - 1) div 3" by (simp add: unat_div)
  moreover have "unat (of_nat ?d :: UInt) = ?d" using d by (simp add: unat_of_nat)
  ultimately show ?thesis
    using w d by (simp add: ULong_width_def Let_def unat_word_ariths)
qed

text \<open>
  For a program that executes no branch the report claims two branches, one conditional and
  one indirect: the totals are made non zero before they are printed, not only before the division.
\<close>

theorem cg_fini_no_branches:
  assumes "tables_ok st" and "length (elements (CC_table st)) < 9227464"
    and "\<forall>l \<in> set (elements (CC_table st)). cc_b (line_Bc (ccs st l)) = 0 \<and> cc_b (line_Bi (ccs st l)) = 0"
    and "clo_branch_sim opts" and "verbosity \<noteq> 0"
  shows "\<exists>out msgs l1 l2 l3. cg_fini opts verbosity clo_stats True exename args st = Inr (out, msgs) \<and>
    Count3 ''Branches:     '' l1 l2 l3 2 1 1 \<in> set msgs"
  using fold_print_line_branches [OF assms(3)] assms(4,5)
  by (simp add: cg_fini_def fprint_out [OF assms(1,2)] Let_def branch_report_def nonzero_def) blast

theorem cg_fini_no_branches_witness:
  "\<exists>out msgs l1 l2 l3. cg_fini demo_opts 1 False True ''prog'' [] (empty_cg demo_sim) = Inr (out, msgs) \<and>
     Count3 ''Branches:     '' l1 l2 l3 2 1 1 \<in> set msgs"
proof -
  have e: "elements (CC_table (empty_cg demo_sim)) = []"
    by (simp add: empty_cg_def elements_def OSetGen_Create_def)
  show ?thesis
    by (rule cg_fini_no_branches [OF empty_cg_tables]) (simp_all add: e demo_opts_def)
qed

text \<open>
  Discarding the translation of an instrumented block succeeds and makes its address available
  again; the counters of the source lines are kept.
\<close>

theorem cg_discard_ok:
  assumes "tables_ok g" and "cg_instrument arch opts di readdr base0 gTy hTy sb g = Inr (out, g')"
  shows "\<exists>g''. cg_discard_superblock_info [base0] g' = Inr g'' \<and> tables_ok g'' \<and>
    OSetGen_Lookup cmp_SB (instrInfoTable g'') readdr = None \<and>
    CC_table g'' = CC_table g' \<and> ccs g'' = ccs g'"
proof -
  obtain addr len rest i g1 c1 c2 c3 where b: "readdr = base0" and i: "get_SB_info sb readdr g = Inr (i, g1)"
    and c1: "instrument_stmts arch opts di hTy (Ist_IMark addr len # rest)
       \<lparr>events = [], sbInfo_n_instrs = n_instrs i, sbInfo_instrs = [],
        sbOut = map Copy (takeWhile (\<lambda>s. \<not> is_IMark s) (stmts sb)), out_temps = n_temps sb,
        curr_inode = None, cia = addr, isize = fix_isize arch len, glob = g1\<rparr> = Inr c1"
    and c2: "instrument_next opts gTy sb c1 = Inr c2" and c3: "flushEvents opts c2 = Inr c3" and g': "g' = glob c3"
    using assms(2) by (rule cg_instrumentE) blast
  have "glob c2 = glob c1"
    using c2 by (auto simp: instrument_next_def with_inode_def split: if_splits IRAtom.splits option.splits dest!: addEvent_glob)
  then have t: "tables_ok g'" "instrInfoTable g' = instrInfoTable g1"
    using stmts_table [OF c1] get_SB_info_ok(1) [OF i assms(1)] flush_glob [OF c3] by (simp_all add: g')
  have o: "oset_ok cmp_SB SB_addr (instrInfoTable g)" using assms(1) by (simp add: tables_ok_def)
  have ins: "OSetGen_Insert cmp_SB SB_addr (instrInfoTable g) i = Inr (instrInfoTable g')" "SB_addr i = readdr"
    using i t(2) by (auto simp: get_SB_info_def cassert_eq_Inr cbind_eq_Inr Let_def)
  then have l: "OSetGen_Lookup cmp_SB (instrInfoTable g') readdr = Some i"
    using SB_order.OSet_lookup_insert [OF o ins(1)] by simp
  have o': "oset_ok cmp_SB SB_addr (instrInfoTable g')" using t(1) by (simp add: tables_ok_def)
  obtain t' where r: "OSetGen_Remove cmp_SB SB_addr (instrInfoTable g') readdr = Inr (Some i, t')"
    "oset_ok cmp_SB SB_addr t'" "elements t' = filter (\<lambda>e. SB_addr e \<noteq> readdr) (elements (instrInfoTable g'))"
    using SB_order.OSet_remove [OF o', of readdr] l by metis
  have "OSetGen_Lookup cmp_SB t' readdr = None"
    using SB_order.lookup_None_iff [OF r(2)] r(3) by auto
  then show ?thesis
    using r t(1) b by (auto simp: cg_discard_superblock_info_def tables_ok_def)
qed

theorem cg_discard_ok_witness:
  "\<exists>out g' g''. cg_instrument VGA_amd64 demo_opts demo_di 4096 4096 Ity_I64 Ity_I64 demo_sb (empty_cg demo_sim) =
     Inr (out, g') \<and> cg_discard_superblock_info [4096] g' = Inr g'' \<and>
     OSetGen_Lookup cmp_SB (instrInfoTable g'') 4096 = None"
  using demo_out cg_discard_ok [OF empty_cg_tables] by blast

lemma demo_start:
  "\<exists>opts st. cg_post_clo_init VGA_amd64 \<lparr>vci_num_levels = 0, vci_caches = []\<rparr> 32 (cg_clo_init\<lparr>clo_bs := b\<rparr>) = Inr (opts, st)"
proof -
  let ?ci = "\<lparr>vci_num_levels = 0, vci_caches = []\<rparr> :: VexCacheInfo" and ?clo = "cg_clo_init\<lparr>clo_bs := b\<rparr>"
  let ?I = "mk_cache 65536 2 64" and ?L = "mk_cache 262144 8 64"
  have dc: "configure_caches VGA_amd64 ?ci = (?I, ?I, ?L)"
    using configure_caches_default [of ?ci VGA_amd64] by (simp add: locate_cache_def)
  have v: "valid_cache ?I" "valid_cache ?L" using valid_cache_default [OF default_caches.simps(11)] by simp_all
  have c: "post_clo_init_configure_caches VGA_amd64 ?ci (clo_cache ?clo) = Inr (?I, ?I, ?L)"
    using post_clo_init_ok [OF dc v(1,1,2), of "clo_cache ?clo"]
    by (simp add: cg_clo_init_def override_cache_def no_clo_caches_def DEFINED_def UNDEFINED_CACHE_def mk_cache_def)
  obtain i l where "cachesim_initcache ?I = Inr i" "cachesim_initcache ?L = Inr l"
    using initcache_valid [OF Int_fields_configure(1) [OF dc] v(1)] initcache_valid [OF Int_fields_configure(3) [OF dc] v(2)]
    by metis
  then show ?thesis
    using c by (simp add: cg_post_clo_init_def cachesim_initcaches_def Let_def mk_cache_def)
qed

text \<open>
  C34: Start-up either fails or hands over a profiler in order: all counters zero, empty tables,
  well formed simulators, and a minimal line size, at least that of the largest register, such
  that every data reference of up to that many bytes, if shorter than 256, fits the lines of the
  data and last level caches.
\<close>

theorem cg_post_clo_init_ok:
  assumes "cg_run_opts args cg_clo_init = Inr clo"
    and "cg_post_clo_init arch ci largest clo = Inr (opts, st)"
  shows "tables_ok st \<and> run_ok 0 (line_sizes (sim st)) st \<and> largest \<le> min_line_size opts \<and>
    (\<forall>a sz. 1 \<le> sz \<and> sz \<le> min_line_size opts \<and> sz < 256 \<and> int (unat a) + sz \<le> 2 ^ 64 \<longrightarrow>
       data_fits (line_sizes (sim st)) a (word_of_int sz))"
proof -
  note c = post_clo_init_cases [OF run_opts_ok [OF assms(1) caches_ok_init] assms(2)]
  obtain s where s: "st = empty_cg s" using c(2) by blast
  have "data_fits (line_sizes (sim st)) a (word_of_int sz)"
    if "1 \<le> sz" "sz \<le> min_line_size opts" "sz < 256" "int (unat a) + sz \<le> 2 ^ 64" for a :: Addr and sz
  proof -
    have "uint (word_of_int sz :: UChar) = sz" using that(1,3) by (simp add: uint_word_of_int)
    then have u: "int (unat (word_of_int sz :: UChar)) = sz" by simp
    then have "int (unat a + unat (word_of_int sz :: UChar)) \<le> int (2 ^ 64)" using that(4) by simp
    then have "unat a + unat (word_of_int sz :: UChar) \<le> 2 ^ 64" by (simp only: of_nat_le_iff)
    moreover have "(word_of_int sz :: UChar) \<noteq> 0" using u that(1) by auto
    then have "0 < (word_of_int sz :: UChar)" by (simp add: word_gt_0)
    ultimately show ?thesis using u that(2) c(4) by (simp add: data_fits_def)
  qed
  moreover have "sim st = s" by (simp add: s empty_cg_def)
  then have "run_ok 0 (line_sizes (sim st)) st" using run_ok_empty [of s] c(1) s by simp
  moreover have "tables_ok st" using s by simp
  ultimately show ?thesis using c(3) by blast
qed

theorem cg_post_clo_init_ok_witness:
  "\<exists>opts st. cg_run_opts [''--branch-sim=yes''] cg_clo_init = Inr (cg_clo_init\<lparr>clo_bs := True\<rparr>) \<and>
     cg_post_clo_init VGA_amd64 \<lparr>vci_num_levels = 0, vci_caches = []\<rparr> 32 (cg_clo_init\<lparr>clo_bs := True\<rparr>) = Inr (opts, st) \<and>
     tables_ok st \<and> 32 \<le> min_line_size opts"
proof -
  have o: "cg_run_opts [''--branch-sim=yes''] cg_clo_init = Inr (cg_clo_init\<lparr>clo_bs := True\<rparr>)"
    by (simp add: cg_process_cmd_line_option_def str_clo_cache_opt_def VG_STR_CLO_def VG_BOOL_CLO_def)
  show ?thesis
    using cg_post_clo_init_ok [OF o] o demo_start by blast
qed

end
