(* ===== verification/CallgrindEvents.thy ===== *)
theory CallgrindEvents
  imports LibcBase
begin

text \<open>
  Event groups, event sets, cost arrays and event mappings of Callgrind, \<open>callgrind/events.c\<close>, and
  the allocator of cost arrays, \<open>callgrind/costs.c\<close>. Event sets never change once made, so a pointer
  to one is its value, and \<open>None\<close> is the null pointer. That cost arrays do not overlap, which is
  shown of the allocator, is why they are separate lists in the functions that work on them.
\<close>

section \<open>Allocation of cost arrays\<close>

text \<open>
  The chunks in the order of their allocation, each by the number of its entries in use; the last is
  the current one. The address of an array is its chunk and its first entry.
\<close>

definition COSTCHUNK_SIZE :: nat where
  "COSTCHUNK_SIZE = 100000"

record cost_chunks =
  chunks_used :: "nat list"
  costarray_entries :: UInt
  costarray_chunks :: UInt

definition no_chunks :: cost_chunks where
  "no_chunks = \<lparr>chunks_used = [], costarray_entries = 0, costarray_chunks = 0\<rparr>"

definition get_costarray :: "nat \<Rightarrow> cost_chunks \<Rightarrow> ((nat \<times> nat) \<times> cost_chunks) cres" where
  "get_costarray n cs =
     cbind (if chunks_used cs = [] \<or> COSTCHUNK_SIZE - last (chunks_used cs) < n
            then cassert (n < COSTCHUNK_SIZE)
              (Inr (cs\<lparr>chunks_used := chunks_used cs @ [0], costarray_chunks := costarray_chunks cs + 1\<rparr>))
            else Inr cs) (\<lambda>cs.
     let k = length (chunks_used cs) - 1; used = last (chunks_used cs) in
     Inr ((k, used), cs\<lparr>chunks_used := (chunks_used cs)[k := used + n],
                        costarray_entries := costarray_entries cs + of_nat n\<rparr>))"

section \<open>Event groups and event sets\<close>

definition MAX_EVENTGROUP_COUNT :: nat where "MAX_EVENTGROUP_COUNT = 10"
definition MAX_EVENTSET_COUNT :: nat where "MAX_EVENTSET_COUNT = 1024"

text \<open>The size of a group is the number of its names.\<close>

type_synonym EventGroup = "string list"

record EventSet =
  es_mask :: UInt
  es_count :: nat
  es_size :: nat
  es_offset :: "nat list"

record event_tables =
  eventGroup :: "EventGroup option list"
  eventSetTable :: "EventSet option list"
  eventSets_initialized :: bool

definition initialize_event_sets :: "event_tables \<Rightarrow> event_tables" where
  "initialize_event_sets ev =
     (if eventSets_initialized ev then ev
      else ev\<lparr>eventGroup := replicate MAX_EVENTGROUP_COUNT None,
              eventSetTable := replicate MAX_EVENTSET_COUNT None, eventSets_initialized := True\<rparr>)"

definition group_id_ok :: "int \<Rightarrow> bool" where
  "group_id_ok i \<longleftrightarrow> 0 \<le> i \<and> i < int MAX_EVENTGROUP_COUNT"

definition new_event_group :: "int \<Rightarrow> string list \<Rightarrow> event_tables \<Rightarrow> event_tables cres" where
  "new_event_group i names ev =
     (let ev = initialize_event_sets ev in
      cassert (group_id_ok i) (
      cassert (eventGroup ev ! nat i = None) (
      Inr (ev\<lparr>eventGroup := (eventGroup ev)[nat i := Some names]\<rparr>))))"

definition register_event_group :: "int \<Rightarrow> string \<Rightarrow> event_tables \<Rightarrow> event_tables cres" where
  "register_event_group i n1 = new_event_group i [n1]"

definition register_event_group2 :: "int \<Rightarrow> string \<Rightarrow> string \<Rightarrow> event_tables \<Rightarrow> event_tables cres" where
  "register_event_group2 i n1 n2 = new_event_group i [n1, n2]"

definition register_event_group3 ::
  "int \<Rightarrow> string \<Rightarrow> string \<Rightarrow> string \<Rightarrow> event_tables \<Rightarrow> event_tables cres" where
  "register_event_group3 i n1 n2 n3 = new_event_group i [n1, n2, n3]"

definition register_event_group4 ::
  "int \<Rightarrow> string \<Rightarrow> string \<Rightarrow> string \<Rightarrow> string \<Rightarrow> event_tables \<Rightarrow> event_tables cres" where
  "register_event_group4 i n1 n2 n3 n4 = new_event_group i [n1, n2, n3, n4]"

definition get_event_group :: "int \<Rightarrow> event_tables \<Rightarrow> EventGroup option cres" where
  "get_event_group i ev = cassert (group_id_ok i) (Inr (eventGroup ev ! nat i))"

text \<open>
  The loop over the groups in \<open>eventset_from_mask\<close>: whether group \<open>i\<close> is in the set, and the offsets,
  the size and the number of groups from group \<open>i\<close> on.
\<close>

definition in_set :: "UInt \<Rightarrow> nat \<Rightarrow> EventGroup option \<Rightarrow> bool" where
  "in_set m i g \<longleftrightarrow> m AND push_bit i 1 \<noteq> 0 \<and> g \<noteq> None"

fun es_loop :: "UInt \<Rightarrow> nat \<Rightarrow> nat \<Rightarrow> nat \<Rightarrow> EventGroup option list \<Rightarrow> nat list \<times> nat \<times> nat" where
  "es_loop m i offset count [] = ([], offset, count)"
| "es_loop m i offset count (g # gs) =
     (let (offs, sz, n) =
        (if \<not> in_set m i g then es_loop m (i + 1) offset count gs
         else es_loop m (i + 1) (offset + length (the g)) (count + 1) gs)
      in (offset # offs, sz, n))"

definition make_eventset :: "EventGroup option list \<Rightarrow> UInt \<Rightarrow> EventSet" where
  "make_eventset gs m =
     (let (offs, sz, n) = es_loop m 0 0 0 gs
      in \<lparr>es_mask = m, es_count = n, es_size = sz, es_offset = offs\<rparr>)"

definition eventset_from_mask :: "UInt \<Rightarrow> event_tables \<Rightarrow> EventSet option \<times> event_tables" where
  "eventset_from_mask m ev =
     (if unat m \<ge> MAX_EVENTSET_COUNT then (None, ev)
      else
        let ev = initialize_event_sets ev in
        if eventSetTable ev ! unat m \<noteq> None then (eventSetTable ev ! unat m, ev)
        else
          let es = make_eventset (eventGroup ev) m
          in (Some es, ev\<lparr>eventSetTable := (eventSetTable ev)[unat m := Some es]\<rparr>))"

definition get_event_set :: "int \<Rightarrow> event_tables \<Rightarrow> (EventSet option \<times> event_tables) cres" where
  "get_event_set i ev = cassert (group_id_ok i) (Inr (eventset_from_mask (push_bit (nat i) 1) ev))"

definition get_event_set2 :: "int \<Rightarrow> int \<Rightarrow> event_tables \<Rightarrow> (EventSet option \<times> event_tables) cres" where
  "get_event_set2 i1 i2 ev =
     cassert (group_id_ok i1) (
     cassert (group_id_ok i2) (
     Inr (eventset_from_mask (push_bit (nat i1) 1 OR push_bit (nat i2) 1) ev)))"

text \<open>A null event set counts as the empty one.\<close>

definition set_or_empty :: "EventSet option \<Rightarrow> event_tables \<Rightarrow> (EventSet \<times> event_tables) cres" where
  "set_or_empty es ev =
     (let (es, ev) = (if es = None then eventset_from_mask 0 ev else (es, ev))
      in case es of None \<Rightarrow> Inl Null_deref | Some e \<Rightarrow> Inr (e, ev))"

definition add_event_group :: "EventSet option \<Rightarrow> int \<Rightarrow> event_tables \<Rightarrow> (EventSet option \<times> event_tables) cres" where
  "add_event_group es i ev =
     cassert (group_id_ok i) (
     cbind (set_or_empty es ev) (\<lambda>(e, ev).
     Inr (eventset_from_mask (es_mask e OR push_bit (nat i) 1) ev)))"

definition add_event_group2 ::
  "EventSet option \<Rightarrow> int \<Rightarrow> int \<Rightarrow> event_tables \<Rightarrow> (EventSet option \<times> event_tables) cres" where
  "add_event_group2 es i1 i2 ev =
     cassert (group_id_ok i1) (
     cassert (group_id_ok i2) (
     cbind (set_or_empty es ev) (\<lambda>(e, ev).
     Inr (eventset_from_mask (es_mask e OR push_bit (nat i1) 1 OR push_bit (nat i2) 1) ev))))"

definition add_event_set ::
  "EventSet option \<Rightarrow> EventSet option \<Rightarrow> event_tables \<Rightarrow> (EventSet option \<times> event_tables) cres" where
  "add_event_set es1 es2 ev =
     cbind (set_or_empty es1 ev) (\<lambda>(e1, ev).
     cbind (set_or_empty es2 ev) (\<lambda>(e2, ev).
     Inr (eventset_from_mask (es_mask e1 OR es_mask e2) ev)))"

definition get_eventset_cost :: "EventSet \<Rightarrow> cost_chunks \<Rightarrow> ((nat \<times> nat) \<times> cost_chunks) cres" where
  "get_eventset_cost es = get_costarray (es_size es)"

section \<open>Costs\<close>

text \<open>
  A cost array or a null pointer. A loop over the entries of an event set applies a function to the
  entries it reaches and leaves the rest of the array.
\<close>

type_synonym cost = "ULong list option"

definition on_prefix :: "nat \<Rightarrow> ('a list \<Rightarrow> 'a list) \<Rightarrow> 'a list \<Rightarrow> 'a list cres" where
  "on_prefix n f c = (if n \<le> length c then Inr (f (take n c) @ drop n c) else Inl Out_of_bounds)"

definition init_cost :: "EventSet \<Rightarrow> cost \<Rightarrow> cost cres" where
  "init_cost es c =
     (case c of None \<Rightarrow> Inr None | Some a \<Rightarrow> cbind (on_prefix (es_size es) (\<lambda>_. replicate (es_size es) 0) a) (\<lambda>a. Inr (Some a)))"

definition zero_cost :: "EventSet \<Rightarrow> cost \<Rightarrow> cost cres" where
  "zero_cost es c =
     (case c of None \<Rightarrow> Inr None | Some a \<Rightarrow> cbind (on_prefix (es_size es) (\<lambda>_. replicate (es_size es) 0) a) (\<lambda>a. Inr (Some a)))"

text \<open>The functions that allocate when needed take the array that the allocator has for them.\<close>

definition init_cost_lz :: "ULong list \<Rightarrow> EventSet \<Rightarrow> cost \<Rightarrow> cost cres" where
  "init_cost_lz fresh es c =
     (let a = (case c of None \<Rightarrow> fresh | Some a \<Rightarrow> a)
      in cbind (on_prefix (es_size es) (\<lambda>_. replicate (es_size es) 0) a) (\<lambda>a. Inr (Some a)))"

definition is_zero_cost :: "EventSet \<Rightarrow> cost \<Rightarrow> bool cres" where
  "is_zero_cost es c =
     (case c of None \<Rightarrow> Inr True
      | Some a \<Rightarrow> if list_all (\<lambda>x. x = 0) (take (es_size es) a) \<and> length a < es_size es then Inl Out_of_bounds
                 else Inr (list_all (\<lambda>x. x = 0) (take (es_size es) a)))"

definition copy_cost :: "EventSet \<Rightarrow> cost \<Rightarrow> cost \<Rightarrow> cost cres" where
  "copy_cost es dst src =
     (case src of
        None \<Rightarrow> zero_cost es dst
      | Some s \<Rightarrow>
          (case dst of None \<Rightarrow> Inl Assert_fail
           | Some d \<Rightarrow> if length s < es_size es then Inl Out_of_bounds
               else cbind (on_prefix (es_size es) (\<lambda>_. take (es_size es) s) d) (\<lambda>a. Inr (Some a))))"

definition copy_cost_lz :: "ULong list \<Rightarrow> EventSet \<Rightarrow> cost \<Rightarrow> cost \<Rightarrow> cost cres" where
  "copy_cost_lz fresh es dst src =
     (case src of
        None \<Rightarrow> zero_cost es dst
      | Some s \<Rightarrow> copy_cost es (case dst of None \<Rightarrow> Some fresh | Some d \<Rightarrow> Some d) src)"

definition add_cost :: "EventSet \<Rightarrow> cost \<Rightarrow> cost \<Rightarrow> cost cres" where
  "add_cost es dst src =
     (case src of
        None \<Rightarrow> Inr dst
      | Some s \<Rightarrow>
          (case dst of None \<Rightarrow> Inl Assert_fail
           | Some d \<Rightarrow> if length s < es_size es then Inl Out_of_bounds
               else cbind (on_prefix (es_size es) (\<lambda>p. map2 (+) p (take (es_size es) s)) d) (\<lambda>a. Inr (Some a))))"

definition add_cost_lz :: "ULong list \<Rightarrow> EventSet \<Rightarrow> cost \<Rightarrow> cost \<Rightarrow> cost cres" where
  "add_cost_lz fresh es dst src =
     (case src of
        None \<Rightarrow> Inr dst
      | Some s \<Rightarrow>
          (case dst of None \<Rightarrow> copy_cost es (Some fresh) src
           | Some d \<Rightarrow> add_cost es dst src))"

text \<open>
  The loop \<open>if (src[j] == 0) continue; dst[j] += src[j]; src[j] = 0\<close> over \<open>n\<close> entries from the given
  offsets on, with whether an entry was moved.
\<close>

fun move_costs :: "nat \<Rightarrow> nat \<Rightarrow> nat \<Rightarrow> bool \<times> ULong list \<times> ULong list \<Rightarrow> (bool \<times> ULong list \<times> ULong list) cres" where
  "move_costs 0 i j st = Inr st"
| "move_costs (Suc n) i j (moved, dst, src) =
     (if j \<ge> length src then Inl Out_of_bounds
      else if src ! j = 0 then move_costs n (i + 1) (j + 1) (moved, dst, src)
      else if i \<ge> length dst then Inl Out_of_bounds
      else move_costs n (i + 1) (j + 1) (True, dst[i := dst ! i + src ! j], src[j := 0]))"

definition add_and_zero_cost ::
  "EventSet option \<Rightarrow> cost \<Rightarrow> cost \<Rightarrow> (bool \<times> cost \<times> cost) cres" where
  "add_and_zero_cost es dst src =
     cassert (es \<noteq> None \<and> dst \<noteq> None) (
     case src of
       None \<Rightarrow> Inr (False, dst, src)
     | Some s \<Rightarrow> cbind (move_costs (es_size (the es)) 0 0 (False, the dst, s)) (\<lambda>(moved, d, s).
         Inr (moved, Some d, Some s)))"

text \<open>The loop over the groups of \<open>add_and_zero_cost2\<close>, from group \<open>i\<close> on.\<close>

fun move_groups :: "EventSet \<Rightarrow> EventSet \<Rightarrow> nat \<Rightarrow> EventGroup option list \<Rightarrow>
    bool \<times> ULong list \<times> ULong list \<Rightarrow> (bool \<times> ULong list \<times> ULong list) cres" where
  "move_groups esD esS i [] st = Inr st"
| "move_groups esD esS i (g # gs) st =
     (if \<not> in_set (es_mask esS) i g then move_groups esD esS (i + 1) gs st
      else cassert (es_mask esD AND push_bit i 1 > 0) (
        cbind (move_costs (length (the g)) (es_offset esD ! i) (es_offset esS ! i) st)
          (move_groups esD esS (i + 1) gs)))"

definition add_and_zero_cost2 ::
  "EventSet option \<Rightarrow> cost \<Rightarrow> EventSet option \<Rightarrow> cost \<Rightarrow> event_tables \<Rightarrow> (bool \<times> cost \<times> cost) cres" where
  "add_and_zero_cost2 esD dst esS src ev =
     cassert (esD \<noteq> None \<and> dst \<noteq> None \<and> esS \<noteq> None) (
     case src of
       None \<Rightarrow> Inr (False, dst, src)
     | Some s \<Rightarrow> cbind (move_groups (the esD) (the esS) 0 (eventGroup ev) (False, the dst, s)) (\<lambda>(moved, d, s).
         Inr (moved, Some d, Some s)))"

text \<open>The loop of \<open>add_diff_cost\<close>: the difference is added and the old entry becomes the new one.\<close>

fun diff_costs :: "nat \<Rightarrow> nat \<Rightarrow> ULong list \<Rightarrow> bool \<times> ULong list \<times> ULong list \<Rightarrow> (bool \<times> ULong list \<times> ULong list) cres" where
  "diff_costs 0 i new_cost st = Inr st"
| "diff_costs (Suc n) i new_cost (changed, dst, old) =
     (if i \<ge> length new_cost \<or> i \<ge> length old then Inl Out_of_bounds
      else if new_cost ! i = old ! i then diff_costs n (i + 1) new_cost (changed, dst, old)
      else if i \<ge> length dst then Inl Out_of_bounds
      else diff_costs n (i + 1) new_cost
        (True, dst[i := dst ! i + (new_cost ! i - old ! i)], old[i := new_cost ! i]))"

definition add_diff_cost ::
  "EventSet option \<Rightarrow> cost \<Rightarrow> cost \<Rightarrow> cost \<Rightarrow> (bool \<times> cost \<times> cost) cres" where
  "add_diff_cost es dst old new_cost =
     cassert (es \<noteq> None \<and> dst \<noteq> None) (
     cassert (old \<noteq> None \<and> new_cost \<noteq> None) (
     cbind (diff_costs (es_size (the es)) 0 (the new_cost) (False, the dst, the old)) (\<lambda>(changed, d, old).
     Inr (changed, Some d, Some old))))"

definition add_diff_cost_lz ::
  "ULong list \<Rightarrow> EventSet option \<Rightarrow> cost \<Rightarrow> cost \<Rightarrow> cost \<Rightarrow> (bool \<times> cost \<times> cost) cres" where
  "add_diff_cost_lz fresh es dst old new_cost =
     cassert (es \<noteq> None) (
     cassert (old \<noteq> None \<and> new_cost \<noteq> None) (
     cbind (case dst of None \<Rightarrow> zero_cost (the es) (Some fresh) | Some d \<Rightarrow> Inr dst) (\<lambda>dst.
     cbind (diff_costs (es_size (the es)) 0 (the new_cost) (False, the dst, the old)) (\<lambda>(changed, d, old).
     Inr (changed, Some d, Some old)))))"

section \<open>Event mappings\<close>

record EventMappingEntry =
  em_group :: nat
  em_index :: nat
  em_off :: nat

record EventMapping =
  em_es :: EventSet
  em_capacity :: nat
  em_entry :: "EventMappingEntry list"

definition get_eventmapping :: "EventSet option \<Rightarrow> EventMapping cres" where
  "get_eventmapping es =
     (case es of None \<Rightarrow> Inl Assert_fail
      | Some e \<Rightarrow> Inr \<lparr>em_es = e, em_capacity = es_size e, em_entry = []\<rparr>)"

text \<open>The search of \<open>append_event\<close> for a name: group, index in the group and offset.\<close>

fun find_name :: "string \<Rightarrow> nat \<Rightarrow> nat \<Rightarrow> nat \<Rightarrow> string list \<Rightarrow> EventMappingEntry option" where
  "find_name n i j offset [] = None"
| "find_name n i j offset (m # ms) =
     (if VG_strcmp n m \<noteq> 0 then find_name n i (j + 1) (offset + 1) ms
      else Some \<lparr>em_group = i, em_index = j, em_off = offset\<rparr>)"

fun find_event :: "UInt \<Rightarrow> string \<Rightarrow> nat \<Rightarrow> nat \<Rightarrow> EventGroup option list \<Rightarrow> EventMappingEntry option" where
  "find_event m n i offset [] = None"
| "find_event m n i offset (g # gs) =
     (if \<not> in_set m i g then find_event m n (i + 1) offset gs
      else case find_name n i 0 offset (the g) of
          Some e \<Rightarrow> Some e
        | None \<Rightarrow> find_event m n (i + 1) (offset + length (the g)) gs)"

definition clg_append_event :: "event_tables \<Rightarrow> string \<Rightarrow> EventMapping \<Rightarrow> EventMapping cres" where
  "clg_append_event ev n em =
     (case find_event (es_mask (em_es em)) n 0 0 (eventGroup ev) of
        None \<Rightarrow> Inr em
      | Some e \<Rightarrow> cassert (em_capacity em > length (em_entry em)) (Inr (em\<lparr>em_entry := em_entry em @ [e]\<rparr>)))"

text \<open>The two printing functions; the blank goes before every entry but the first.\<close>

fun entry_names :: "event_tables \<Rightarrow> EventMappingEntry list \<Rightarrow> string list cres" where
  "entry_names ev [] = Inr []"
| "entry_names ev (e # es) =
     cassert (eventGroup ev ! em_group e \<noteq> None) (
     if em_index e \<ge> length (the (eventGroup ev ! em_group e)) then Inl Out_of_bounds
     else cbind (entry_names ev es) (\<lambda>ns. Inr (the (eventGroup ev ! em_group e) ! em_index e # ns)))"

fun join_blank :: "string list \<Rightarrow> string" where
  "join_blank [] = []"
| "join_blank [n] = n"
| "join_blank (n # ns) = n @ '' '' @ join_blank ns"

definition eventmapping_as_string :: "event_tables \<Rightarrow> EventMapping \<Rightarrow> string cres" where
  "eventmapping_as_string ev em = cbind (entry_names ev (em_entry em)) (\<lambda>ns. Inr (join_blank ns))"

fun cost_loop :: "ULong list \<Rightarrow> nat \<Rightarrow> EventMappingEntry list \<Rightarrow> string cres" where
  "cost_loop c skipped [] = Inr []"
| "cost_loop c skipped (e # es) =
     (if em_off e \<ge> length c then Inl Out_of_bounds
      else if c ! em_off e = 0 then cost_loop c (skipped + 1) es
      else cbind (cost_loop c 0 es) (\<lambda>s.
        Inr (concat (replicate skipped '' 0'') @ '' '' @ show_nat (unat (c ! em_off e)) @ s)))"

definition mappingcost_as_string :: "EventMapping \<Rightarrow> cost \<Rightarrow> string cres" where
  "mappingcost_as_string em c =
     (case (c, em_entry em) of
        (None, _) \<Rightarrow> Inr []
      | (_, []) \<Rightarrow> Inr []
      | (Some a, e # es) \<Rightarrow>
          if em_off e \<ge> length a then Inl Out_of_bounds
          else cbind (cost_loop a 0 es) (\<lambda>s. Inr (show_nat (unat (a ! em_off e)) @ s)))"

text \<open>
  The reader of such a line in \<open>callgrind_annotate\<close>: Perl's \<open>split /\s+/\<close>, which drops the empty
  fields at the end, and the check of the number of fields.
\<close>

definition is_ws :: "char \<Rightarrow> bool" where
  "is_ws c \<longleftrightarrow> c \<in> {CHR '' '', CHR 0x09, CHR 0x0A, CHR 0x0B, CHR 0x0C, CHR 0x0D}"

function split_ws :: "string \<Rightarrow> string \<Rightarrow> string list" where
  "split_ws field [] = [field]"
| "split_ws field (c # cs) =
     (if is_ws c then field # split_ws [] (dropWhile is_ws cs) else split_ws (field @ [c]) cs)"
  by pat_completeness auto
termination
  by (relation "measure (length \<circ> snd)") (auto simp: le_imp_less_Suc length_dropWhile_le)

definition perl_split :: "string \<Rightarrow> string list" where
  "perl_split s = rev (dropWhile (\<lambda>f. f = []) (rev (split_ws [] s)))"

definition line_to_CC :: "nat \<Rightarrow> string \<Rightarrow> string list cres" where
  "line_to_CC n_events line =
     (let CC = perl_split line
      in if length CC \<le> n_events then Inr CC else Inl (Exit_with ''too many event counts''))"

section \<open>Cost arrays do not overlap\<close>

text \<open>Arrays of the given sizes, allocated one after the other, as chunk, first entry and size.\<close>

fun alloc_arrays :: "nat list \<Rightarrow> cost_chunks \<Rightarrow> ((nat \<times> nat \<times> nat) list \<times> cost_chunks) cres" where
  "alloc_arrays [] cs = Inr ([], cs)"
| "alloc_arrays (n # ns) cs =
     cbind (get_costarray n cs) (\<lambda>((k, off), cs).
     cbind (alloc_arrays ns cs) (\<lambda>(rs, cs). Inr ((k, off, n) # rs, cs)))"

definition cells :: "nat \<times> nat \<times> nat \<Rightarrow> (nat \<times> nat) set" where
  "cells = (\<lambda>(k, off, n). {k} \<times> {off..<off + n})"

definition in_use :: "cost_chunks \<Rightarrow> (nat \<times> nat) set" where
  "in_use cs = {(k, i). k < length (chunks_used cs) \<and> i < chunks_used cs ! k}"

definition chunks_ok :: "cost_chunks \<Rightarrow> bool" where
  "chunks_ok cs \<longleftrightarrow> (\<forall>u \<in> set (chunks_used cs). u \<le> COSTCHUNK_SIZE)"

definition chunk_cells :: "cost_chunks \<Rightarrow> (nat \<times> nat) set" where
  "chunk_cells cs = {..<length (chunks_used cs)} \<times> {..<COSTCHUNK_SIZE}"

lemma in_use_chunk_cells: "chunks_ok cs \<Longrightarrow> in_use cs \<subseteq> chunk_cells cs"
proof
  fix x assume ok: "chunks_ok cs" and x: "x \<in> in_use cs"
  obtain k i where ki: "x = (k, i)" "k < length (chunks_used cs)" "i < chunks_used cs ! k"
    using x by (auto simp: in_use_def)
  then have "chunks_used cs ! k \<le> COSTCHUNK_SIZE"
    using ok by (simp add: chunks_ok_def)
  then show "x \<in> chunk_cells cs"
    using ki by (simp add: chunk_cells_def)
qed

lemma chunks_ok_last: "chunks_ok cs \<Longrightarrow> chunks_used cs \<noteq> [] \<Longrightarrow> last (chunks_used cs) \<le> COSTCHUNK_SIZE"
  by (simp add: chunks_ok_def)

text \<open>The current chunk gives its next entries; a new one has the same cells in use.\<close>

lemma use_current:
  assumes "chunks_used cs \<noteq> []" and "chunks_used cs' = (chunks_used cs)[length (chunks_used cs) - 1 := last (chunks_used cs) + n]"
  shows "in_use cs' = in_use cs \<union> cells (length (chunks_used cs) - 1, last (chunks_used cs), n)"
    and "in_use cs \<inter> cells (length (chunks_used cs) - 1, last (chunks_used cs), n) = {}"
  using assms by (auto simp: in_use_def cells_def last_conv_nth nth_list_update split: if_splits)

lemma in_use_new_chunk: "chunks_used cs' = chunks_used cs @ [0] \<Longrightarrow> in_use cs' = in_use cs"
  by (auto simp: in_use_def nth_append split: if_splits)

lemma get_costarray_fresh:
  assumes "chunks_ok cs" and "n < COSTCHUNK_SIZE"
  obtains k off cs' where "get_costarray n cs = Inr ((k, off), cs')" and "chunks_ok cs'"
    and "in_use cs' = in_use cs \<union> cells (k, off, n)" and "in_use cs \<inter> cells (k, off, n) = {}"
proof -
  let ?new = "chunks_used cs = [] \<or> COSTCHUNK_SIZE - last (chunks_used cs) < n"
  define c1 where "c1 = (if ?new then cs\<lparr>chunks_used := chunks_used cs @ [0], costarray_chunks := costarray_chunks cs + 1\<rparr> else cs)"
  define c2 where "c2 = c1\<lparr>chunks_used := (chunks_used c1)[length (chunks_used c1) - 1 := last (chunks_used c1) + n],
     costarray_entries := costarray_entries c1 + of_nat n\<rparr>"
  let ?k = "length (chunks_used c1) - 1" and ?off = "last (chunks_used c1)"
  have ne: "chunks_used c1 \<noteq> []" and same: "in_use c1 = in_use cs"
    by (simp_all add: c1_def in_use_new_chunk)
  have ok1: "chunks_ok c1"
    using assms(1) by (auto simp: c1_def chunks_ok_def)
  have fits: "?off + n \<le> COSTCHUNK_SIZE"
    using assms chunks_ok_last [OF assms(1)] by (auto simp: c1_def)
  have "get_costarray n cs = Inr ((?k, ?off), c2)"
    using assms(2) by (simp add: get_costarray_def c1_def c2_def Let_def)
  moreover have "chunks_ok c2"
    using ok1 fits by (auto simp: c2_def chunks_ok_def dest!: set_update_subset_insert [THEN subsetD])
  moreover have "in_use c2 = in_use cs \<union> cells (?k, ?off, n)" "in_use cs \<inter> cells (?k, ?off, n) = {}"
    using use_current [OF ne, of c2 n] by (simp_all add: c2_def same)
  ultimately show thesis
    by (rule that)
qed

lemma alloc_arrays_disjoint:
  assumes "chunks_ok cs" and "\<forall>n\<in>set ns. n < COSTCHUNK_SIZE"
  shows "\<exists>rs cs'. alloc_arrays ns cs = Inr (rs, cs') \<and> map (snd \<circ> snd) rs = ns \<and> chunks_ok cs' \<and>
    in_use cs' = in_use cs \<union> (\<Union>r\<in>set rs. cells r) \<and> in_use cs \<inter> (\<Union>r\<in>set rs. cells r) = {} \<and>
    (\<forall>i j. i < j \<and> j < length rs \<longrightarrow> cells (rs ! i) \<inter> cells (rs ! j) = {})"
  using assms
proof (induction ns arbitrary: cs)
  case (Cons n ns)
  obtain k off c1 where one: "get_costarray n cs = Inr ((k, off), c1)" "chunks_ok c1"
      "in_use c1 = in_use cs \<union> cells (k, off, n)" "in_use cs \<inter> cells (k, off, n) = {}"
    using get_costarray_fresh [of cs n] Cons.prems by auto
  obtain rs c2 where rest: "alloc_arrays ns c1 = Inr (rs, c2)" "map (snd \<circ> snd) rs = ns" "chunks_ok c2"
      "in_use c2 = in_use c1 \<union> (\<Union>r\<in>set rs. cells r)" "in_use c1 \<inter> (\<Union>r\<in>set rs. cells r) = {}"
      "\<forall>i j. i < j \<and> j < length rs \<longrightarrow> cells (rs ! i) \<inter> cells (rs ! j) = {}"
    using Cons.IH [OF one(2)] Cons.prems(2) by auto
  have "cells (((k, off, n) # rs) ! i) \<inter> cells (((k, off, n) # rs) ! j) = {}"
    if "i < j" "j < Suc (length rs)" for i j
  proof (cases i)
    case 0
    then have "cells (((k, off, n) # rs) ! j) \<subseteq> (\<Union>r\<in>set rs. cells r)"
      using that by (cases j) (auto intro: nth_mem)
    then show ?thesis
      using rest(5) one(3) 0 by auto
  next
    case (Suc l)
    then show ?thesis
      using that rest(6) by (cases j) auto
  qed
  then show ?case
    using one rest
    by (intro exI [of _ "(k, off, n) # rs"] exI [of _ c2]) auto
qed simp

text \<open>
  C23: Whatever sizes below the size of a chunk are asked for, the allocator of cost arrays never
  fails, and the arrays it returns lie inside their chunks and do not overlap.
\<close>

theorem costarrays_disjoint:
  assumes "\<forall>n\<in>set ns. n < COSTCHUNK_SIZE"
  shows "\<exists>rs cs. alloc_arrays ns no_chunks = Inr (rs, cs) \<and> map (snd \<circ> snd) rs = ns \<and>
    (\<forall>r\<in>set rs. cells r \<subseteq> chunk_cells cs) \<and>
    (\<forall>i j. i < j \<and> j < length rs \<longrightarrow> cells (rs ! i) \<inter> cells (rs ! j) = {})"
proof -
  have "chunks_ok no_chunks"
    by (simp add: chunks_ok_def no_chunks_def)
  from alloc_arrays_disjoint [OF this assms] obtain rs cs
    where rs: "alloc_arrays ns no_chunks = Inr (rs, cs)" "map (snd \<circ> snd) rs = ns" "chunks_ok cs"
      "in_use cs = in_use no_chunks \<union> (\<Union>r\<in>set rs. cells r)"
      "\<forall>i j. i < j \<and> j < length rs \<longrightarrow> cells (rs ! i) \<inter> cells (rs ! j) = {}"
    by (elim exE conjE)
  then have "\<forall>r\<in>set rs. cells r \<subseteq> chunk_cells cs"
    using in_use_chunk_cells [of cs] by blast
  then show ?thesis
    using rs(1,2,5) by (intro exI conjI)
qed

theorem costarrays_disjoint_witness:
  "\<exists>rs cs. alloc_arrays [99999, 9, 9] no_chunks = Inr (rs, cs) \<and> length rs = 3 \<and>
     cells (rs ! 1) \<inter> cells (rs ! 2) = {}"
proof -
  obtain rs cs where rs: "alloc_arrays [99999, 9, 9] no_chunks = Inr (rs, cs)" "map (snd \<circ> snd) rs = [99999, 9, 9]"
      "\<forall>i j. i < j \<and> j < length rs \<longrightarrow> cells (rs ! i) \<inter> cells (rs ! j) = {}"
    using costarrays_disjoint [of "[99999, 9, 9]"] by (auto simp: COSTCHUNK_SIZE_def)
  moreover have "length rs = 3"
    using arg_cong [OF rs(2), of length] by simp
  ultimately show ?thesis
    by auto
qed

section \<open>Layout of event sets\<close>

text \<open>The entries that the groups before group \<open>i\<close> take, in closed form.\<close>

definition group_len :: "EventGroup option list \<Rightarrow> UInt \<Rightarrow> nat \<Rightarrow> nat" where
  "group_len gs m i = (if in_set m i (gs ! i) then length (the (gs ! i)) else 0)"

definition off :: "EventGroup option list \<Rightarrow> UInt \<Rightarrow> nat \<Rightarrow> nat" where
  "off gs m i = (\<Sum>l<i. group_len gs m l)"

lemma off_simps [simp]: "off gs m 0 = 0" "off gs m (Suc i) = off gs m i + group_len gs m i"
  by (simp_all add: off_def)

lemma off_mono: "i \<le> j \<Longrightarrow> off gs m i \<le> off gs m j"
  by (induction j) (auto simp: le_Suc_eq)

lemma off_next: "i < j \<Longrightarrow> off gs m i + group_len gs m i \<le> off gs m j"
  using off_mono [of "Suc i" j gs m] by simp

lemma es_loop_off:
  assumes "i \<le> length gs"
  shows "es_loop m i (off gs m i) count (drop i gs) =
    (map (off gs m) [i..<length gs], off gs m (length gs), count + card {l. i \<le> l \<and> l < length gs \<and> in_set m l (gs ! l)})"
  using assms
proof (induction "length gs - i" arbitrary: i count)
  case 0
  then show ?case by simp
next
  case (Suc k)
  then have i: "i < length gs" by simp
  then have d: "drop i gs = gs ! i # drop (Suc i) gs"
    by (simp add: Cons_nth_drop_Suc)
  let ?S = "\<lambda>i. {l. i \<le> l \<and> l < length gs \<and> in_set m l (gs ! l)}"
  have "?S i = (if in_set m i (gs ! i) then insert i (?S (Suc i)) else ?S (Suc i))"
    using i by (auto simp: Suc_le_eq le_less)
  moreover have "finite (?S (Suc i))" "i \<notin> ?S (Suc i)" by simp_all
  ultimately have c: "card (?S i) = (if in_set m i (gs ! i) then Suc (card (?S (Suc i))) else card (?S (Suc i)))"
    by simp
  show ?case
    using Suc.hyps(1) [of "Suc i"] Suc.hyps(2) i
    by (cases "in_set m i (gs ! i)") (simp_all add: d c upt_conv_Cons group_len_def Let_def)
qed

lemma make_eventset_layout:
  "es_mask (make_eventset gs m) = m"
  "es_size (make_eventset gs m) = off gs m (length gs)"
  "es_offset (make_eventset gs m) = map (off gs m) [0..<length gs]"
  "es_count (make_eventset gs m) = card {l. l < length gs \<and> in_set m l (gs ! l)}"
  using es_loop_off [of 0 gs m 0] by (simp_all add: make_eventset_def)

text \<open>The sets remembered in the table are those of the groups registered.\<close>

definition tables_current :: "event_tables \<Rightarrow> bool" where
  "tables_current ev \<longleftrightarrow>
     (eventSets_initialized ev \<longrightarrow>
        length (eventGroup ev) = MAX_EVENTGROUP_COUNT \<and> length (eventSetTable ev) = MAX_EVENTSET_COUNT \<and>
        (\<forall>m. unat m < MAX_EVENTSET_COUNT \<and> eventSetTable ev ! unat m \<noteq> None \<longrightarrow>
           eventSetTable ev ! unat m = Some (make_eventset (eventGroup ev) m)))"

lemma initialize_current: "tables_current ev \<Longrightarrow> tables_current (initialize_event_sets ev)"
  by (auto simp: tables_current_def initialize_event_sets_def)

lemma initialize_simps [simp]:
  "eventSets_initialized (initialize_event_sets ev)"
  "eventSets_initialized ev \<Longrightarrow> initialize_event_sets ev = ev"
  by (simp_all add: initialize_event_sets_def)

lemma eventset_from_mask_current:
  assumes "tables_current ev" and "unat m < MAX_EVENTSET_COUNT"
  defines "gs \<equiv> eventGroup (initialize_event_sets ev)"
  obtains ev' where "eventset_from_mask m ev = (Some (make_eventset gs m), ev')" and "tables_current ev'"
    and "eventGroup ev' = gs" and "eventSets_initialized ev'"
proof -
  let ?e = "initialize_event_sets ev"
  have cur: "tables_current ?e" by (rule initialize_current [OF assms(1)])
  show thesis
  proof (cases "eventSetTable ?e ! unat m = None")
    case True
    let ?e' = "?e\<lparr>eventSetTable := (eventSetTable ?e)[unat m := Some (make_eventset gs m)]\<rparr>"
    have "tables_current ?e'"
      using cur assms(2)
      by (auto simp: tables_current_def gs_def nth_list_update split: if_splits dest: word_unat_eq_iff [THEN iffD2])
    moreover have "eventset_from_mask m ev = (Some (make_eventset gs m), ?e')"
      using True assms(2) by (simp add: eventset_from_mask_def gs_def Let_def)
    ultimately show thesis
      by (intro that [of ?e']) (simp_all add: gs_def)
  next
    case False
    then have "eventset_from_mask m ev = (Some (make_eventset gs m), ?e)"
      using cur assms(2) by (auto simp: eventset_from_mask_def tables_current_def gs_def Let_def)
    then show thesis
      using cur by (intro that [of ?e]) (simp_all add: gs_def)
  qed
qed

text \<open>
  C21: An event set lays out its groups one after the other: the groups of the set take disjoint
  ranges in the order of their numbers that together are exactly the entries of the set. Asking
  again for the same groups gives the same set, and the table of sets stays true to the groups.
\<close>

theorem eventset_layout:
  assumes "tables_current ev" and "unat m < MAX_EVENTSET_COUNT"
  defines "gs \<equiv> eventGroup (initialize_event_sets ev)"
  shows "\<exists>es ev'. eventset_from_mask m ev = (Some es, ev') \<and> tables_current ev' \<and> es_mask es = m \<and>
    fst (eventset_from_mask m ev') = Some es \<and>
    (\<forall>i < length gs. es_offset es ! i = (\<Sum>l<i. group_len gs m l)) \<and>
    (\<forall>i j. i < j \<and> j < length gs \<longrightarrow> es_offset es ! i + group_len gs m i \<le> es_offset es ! j) \<and>
    es_size es = (\<Sum>l<length gs. group_len gs m l)"
proof -
  obtain ev' where ev': "eventset_from_mask m ev = (Some (make_eventset gs m), ev')" "tables_current ev'"
      "eventGroup ev' = gs" "eventSets_initialized ev'"
    using eventset_from_mask_current [OF assms(1,2)] unfolding gs_def .
  obtain ev2 where "eventset_from_mask m ev' = (Some (make_eventset (eventGroup ev') m), ev2)"
    using eventset_from_mask_current [OF ev'(2) assms(2)] ev'(4) by (metis initialize_simps(2))
  then show ?thesis
    using ev'(1-3) off_next [of _ _ gs m]
    by (intro exI [of _ "make_eventset gs m"] exI [of _ ev'])
      (auto simp: make_eventset_layout simp flip: off_def)
qed

text \<open>Before the first event set is made, registering groups keeps the tables true.\<close>

definition no_sets :: "event_tables \<Rightarrow> bool" where
  "no_sets ev \<longleftrightarrow> (eventSets_initialized ev \<longrightarrow>
     length (eventGroup ev) = MAX_EVENTGROUP_COUNT \<and> eventSetTable ev = replicate MAX_EVENTSET_COUNT None)"

lemma no_sets_current: "no_sets ev \<Longrightarrow> tables_current ev"
  by (auto simp: no_sets_def tables_current_def)

lemma new_event_group_no_sets:
  "no_sets ev \<Longrightarrow> new_event_group i names ev = Inr ev' \<Longrightarrow> no_sets ev'"
  by (auto simp: no_sets_def new_event_group_def initialize_event_sets_def cassert_def Let_def split: if_splits)

definition start_tables :: event_tables where
  "start_tables = \<lparr>eventGroup = [], eventSetTable = [], eventSets_initialized = False\<rparr>"

definition demo_tables :: event_tables where
  "demo_tables = (initialize_event_sets start_tables)\<lparr>eventGroup :=
     [None, Some [''Ir'', ''I1mr'', ''ILmr''], Some [''Dr'', ''D1mr'', ''DLmr''], None, None, None, None, None, None, None]\<rparr>"

lemma demo_tables_no_sets: "no_sets demo_tables"
  by (simp add: no_sets_def demo_tables_def initialize_event_sets_def start_tables_def MAX_EVENTGROUP_COUNT_def)

lemma demo_groups: "eventGroup (initialize_event_sets demo_tables) =
  [None, Some [''Ir'', ''I1mr'', ''ILmr''], Some [''Dr'', ''D1mr'', ''DLmr''], None, None, None, None, None, None, None]"
  by (simp add: demo_tables_def initialize_event_sets_def start_tables_def)

theorem eventset_layout_witness:
  "\<exists>es ev'. eventset_from_mask 6 demo_tables = (Some es, ev') \<and> es_mask es = 6 \<and>
     es_offset es ! 1 + 3 \<le> es_offset es ! 2 \<and> fst (eventset_from_mask 6 ev') = Some es"
proof -
  have len: "group_len (eventGroup (initialize_event_sets demo_tables)) 6 1 = 3"
    by (simp add: group_len_def demo_groups in_set_def)
  have "unat (6 :: UInt) < MAX_EVENTSET_COUNT"
    by (simp add: MAX_EVENTSET_COUNT_def)
  from eventset_layout [OF no_sets_current [OF demo_tables_no_sets] this] obtain es ev' where
    es: "eventset_from_mask 6 demo_tables = (Some es, ev')" "es_mask es = 6" "fst (eventset_from_mask 6 ev') = Some es"
    and next_off: "\<forall>i j. i < j \<and> j < length (eventGroup (initialize_event_sets demo_tables)) \<longrightarrow>
      es_offset es ! i + group_len (eventGroup (initialize_event_sets demo_tables)) 6 i \<le> es_offset es ! j"
    by (elim exE conjE)
  have "2 < length (eventGroup (initialize_event_sets demo_tables))"
    by (simp add: demo_groups)
  then have "es_offset es ! 1 + group_len (eventGroup (initialize_event_sets demo_tables)) 6 1 \<le> es_offset es ! 2"
    by (intro next_off [rule_format]) simp
  then show ?thesis
    using es by (simp only: len) blast
qed

section \<open>Moving costs between arrays\<close>

lemma move_costs_nth:
  assumes "i + n \<le> length dst" and "j + n \<le> length src"
  shows "\<exists>dst' src'. move_costs n i j (moved, dst, src) =
      Inr (moved \<or> (\<exists>l<n. src ! (j + l) \<noteq> 0), dst', src') \<and> length dst' = length dst \<and> length src' = length src \<and>
    (\<forall>l. dst' ! l = (if i \<le> l \<and> l < i + n then dst ! l + src ! (j + (l - i)) else dst ! l)) \<and>
    (\<forall>l. src' ! l = (if j \<le> l \<and> l < j + n then 0 else src ! l))"
  using assms
proof (induction n arbitrary: i j moved dst src)
  case (Suc n)
  let ?z = "src ! j = 0"
  define dst1 where "dst1 = (if ?z then dst else dst[i := dst ! i + src ! j])"
  define src1 where "src1 = (if ?z then src else src[j := 0])"
  have step: "move_costs (Suc n) i j (moved, dst, src) = move_costs n (Suc i) (Suc j) (moved \<or> \<not> ?z, dst1, src1)"
    using Suc.prems by (simp add: dst1_def src1_def)
  have nth1: "dst1 ! l = (if l = i then dst ! i + src ! j else dst ! l)" "src1 ! l = (if l = j then 0 else src ! l)"
    "length dst1 = length dst" "length src1 = length src" for l
    using Suc.prems by (auto simp: dst1_def src1_def nth_list_update)
  obtain dst' src' where IH: "move_costs n (Suc i) (Suc j) (moved \<or> \<not> ?z, dst1, src1) =
      Inr ((moved \<or> \<not> ?z) \<or> (\<exists>l<n. src1 ! (Suc j + l) \<noteq> 0), dst', src')"
      "length dst' = length dst" "length src' = length src"
      "\<forall>l. dst' ! l = (if Suc i \<le> l \<and> l < Suc i + n then dst1 ! l + src1 ! (Suc j + (l - Suc i)) else dst1 ! l)"
      "\<forall>l. src' ! l = (if Suc j \<le> l \<and> l < Suc j + n then 0 else src1 ! l)"
    using Suc.IH [of "Suc i" dst1 "Suc j" src1 "moved \<or> \<not> ?z"] Suc.prems nth1(3,4) by auto
  have "((moved \<or> \<not> ?z) \<or> (\<exists>l<n. src1 ! (Suc j + l) \<noteq> 0)) = (moved \<or> (\<exists>l<Suc n. src ! (j + l) \<noteq> 0))"
    by (auto simp: nth1 Ex_less_Suc2)
  then have "move_costs (Suc n) i j (moved, dst, src) = Inr (moved \<or> (\<exists>l<Suc n. src ! (j + l) \<noteq> 0), dst', src')"
    by (simp only: step IH(1))
  moreover have "dst' ! l = (if i \<le> l \<and> l < i + Suc n then dst ! l + src ! (j + (l - i)) else dst ! l)" for l
  proof -
    have far: "Suc j + (l - Suc i) = j + (l - i)" "j + (l - i) \<noteq> j" if "i < l"
      using that by arith+
    consider "l = i" | "i < l" | "l < i" by linarith
    then show ?thesis
    proof cases
      case 2
      then have "dst' ! l = (if l < Suc i + n then dst1 ! l + src1 ! (j + (l - i)) else dst1 ! l)"
        using IH(4) far(1) by (simp del: add_Suc)
      then show ?thesis
        using 2 far(2) by (simp only: nth1(1,2)) simp
    qed (simp_all add: IH(4) nth1)
  qed
  moreover have "src' ! l = (if j \<le> l \<and> l < j + Suc n then 0 else src ! l)" for l
    by (auto simp: IH(5) nth1)
  ultimately show ?case
    using IH(2,3) by blast
qed auto

text \<open>The entries of the groups from group \<open>i\<close> on, and what moving them has done.\<close>

definition entry_of :: "EventGroup option list \<Rightarrow> UInt \<Rightarrow> nat \<Rightarrow> nat \<Rightarrow> nat \<Rightarrow> bool" where
  "entry_of gs m i l j \<longleftrightarrow> i \<le> l \<and> l < length gs \<and> j < group_len gs m l"

definition moved_costs :: "EventGroup option list \<Rightarrow> UInt \<Rightarrow> UInt \<Rightarrow> nat \<Rightarrow> ULong list \<Rightarrow> ULong list \<Rightarrow> ULong list \<Rightarrow> ULong list \<Rightarrow> bool" where
  "moved_costs gs mD mS i dst src dst' src' \<longleftrightarrow>
     length dst' = length dst \<and> length src' = length src \<and>
     (\<forall>l j. entry_of gs mS i l j \<longrightarrow>
        dst' ! (off gs mD l + j) = dst ! (off gs mD l + j) + src ! (off gs mS l + j) \<and> src' ! (off gs mS l + j) = 0) \<and>
     (\<forall>x. (\<forall>l j. entry_of gs mS i l j \<longrightarrow> x \<noteq> off gs mD l + j) \<longrightarrow> dst' ! x = dst ! x) \<and>
     (\<forall>x. (\<forall>l j. entry_of gs mS i l j \<longrightarrow> x \<noteq> off gs mS l + j) \<longrightarrow> src' ! x = src ! x)"

lemma entry_of_Suc:
  "i < length gs \<Longrightarrow> entry_of gs m i l j \<longleftrightarrow> (l = i \<and> j < group_len gs m i) \<or> entry_of gs m (Suc i) l j"
  by (auto simp: entry_of_def Suc_le_eq le_less)

lemma entry_of_off: "entry_of gs m (Suc i) l j \<Longrightarrow> off gs m i + group_len gs m i \<le> off gs m l + j"
  using off_next [of i l gs m] by (auto simp: entry_of_def)

text \<open>Where a group of the source is in the destination too, it has the same length there.\<close>

definition sub_mask :: "EventGroup option list \<Rightarrow> UInt \<Rightarrow> UInt \<Rightarrow> bool" where
  "sub_mask gs mS mD \<longleftrightarrow> (\<forall>l<length gs. in_set mS l (gs ! l) \<longrightarrow> mD AND push_bit l 1 \<noteq> 0)"

lemma sub_mask_len:
  "sub_mask gs mS mD \<Longrightarrow> entry_of gs mS i l j \<Longrightarrow> group_len gs mD l = group_len gs mS l"
  by (auto simp: sub_mask_def entry_of_def group_len_def in_set_def split: if_splits)

lemma sub_mask_off:
  assumes "sub_mask gs mS mD" and "entry_of gs mS (Suc i) l j" and "i < length gs" and "in_set mS i (gs ! i)"
  shows "off gs mD i + group_len gs mS i \<le> off gs mD l + j"
proof -
  have "group_len gs mD i = group_len gs mS i"
    using assms(1,3,4) by (auto simp: sub_mask_def group_len_def in_set_def)
  then show ?thesis
    using off_next [of i l gs mD] assms(2) by (auto simp: entry_of_def)
qed

lemma moved_costs_step:
  assumes sub: "sub_mask gs mS mD" and i: "i < length gs" and ins: "in_set mS i (gs ! i)"
    and len: "length dst1 = length dst" "length src1 = length src"
    and d1: "\<forall>l. dst1 ! l = (if off gs mD i \<le> l \<and> l < off gs mD i + group_len gs mS i
      then dst ! l + src ! (off gs mS i + (l - off gs mD i)) else dst ! l)"
    and s1: "\<forall>l. src1 ! l = (if off gs mS i \<le> l \<and> l < off gs mS i + group_len gs mS i then 0 else src ! l)"
    and rest: "moved_costs gs mD mS (Suc i) dst1 src1 dst' src'"
  shows "moved_costs gs mD mS i dst src dst' src'"
proof -
  have far: "dst1 ! (off gs mD l + j) = dst ! (off gs mD l + j)" "src1 ! (off gs mS l + j) = src ! (off gs mS l + j)"
    if "entry_of gs mS (Suc i) l j" for l j
    using sub_mask_off [OF sub that i ins] entry_of_off [OF that] by (auto simp: d1 s1)
  have here: "dst' ! (off gs mD i + j) = dst1 ! (off gs mD i + j)" "src' ! (off gs mS i + j) = src1 ! (off gs mS i + j)"
    if "j < group_len gs mS i" for j
    using rest that sub_mask_off [OF sub _ i ins] entry_of_off [of gs mS i]
    unfolding moved_costs_def by (metis add_less_cancel_left leD)+
  show ?thesis
    unfolding moved_costs_def
  proof (intro conjI allI impI)
    show "length dst' = length dst" "length src' = length src"
      using rest len by (simp_all add: moved_costs_def)
  next
    fix l j assume "entry_of gs mS i l j"
    then have lj: "l = i \<and> j < group_len gs mS i \<or> entry_of gs mS (Suc i) l j"
      using entry_of_Suc [OF i] by blast
    show "dst' ! (off gs mD l + j) = dst ! (off gs mD l + j) + src ! (off gs mS l + j)"
      using lj here(1) d1 rest far by (elim disjE) (auto simp: moved_costs_def)
    show "src' ! (off gs mS l + j) = 0"
      using lj here(2) s1 rest by (elim disjE) (auto simp: moved_costs_def)
  next
    fix x assume "\<forall>l j. entry_of gs mS i l j \<longrightarrow> x \<noteq> off gs mD l + j"
    then have out: "\<forall>j < group_len gs mS i. x \<noteq> off gs mD i + j"
      and later: "\<forall>l j. entry_of gs mS (Suc i) l j \<longrightarrow> x \<noteq> off gs mD l + j"
      using entry_of_Suc [OF i] by blast+
    have "\<not> (off gs mD i \<le> x \<and> x < off gs mD i + group_len gs mS i)"
      using out by (auto dest!: le_Suc_ex)
    then have "dst1 ! x = dst ! x"
      using d1 by auto
    then show "dst' ! x = dst ! x"
      using rest later by (simp add: moved_costs_def)
  next
    fix x assume "\<forall>l j. entry_of gs mS i l j \<longrightarrow> x \<noteq> off gs mS l + j"
    then have out: "\<forall>j < group_len gs mS i. x \<noteq> off gs mS i + j"
      and later: "\<forall>l j. entry_of gs mS (Suc i) l j \<longrightarrow> x \<noteq> off gs mS l + j"
      using entry_of_Suc [OF i] by blast+
    have "\<not> (off gs mS i \<le> x \<and> x < off gs mS i + group_len gs mS i)"
      using out by (auto dest!: le_Suc_ex)
    then have "src1 ! x = src ! x"
      using s1 by auto
    then show "src' ! x = src ! x"
      using rest later by (simp add: moved_costs_def)
  qed
qed

lemma move_groups_moves:
  assumes "sub_mask gs mS mD" and "off gs mD (length gs) \<le> length dst" and "off gs mS (length gs) \<le> length src"
    and "i \<le> length gs"
  defines "esD \<equiv> make_eventset gs mD" and "esS \<equiv> make_eventset gs mS"
  shows "\<exists>dst' src'. move_groups esD esS i (drop i gs) (moved, dst, src) =
      Inr (moved \<or> (\<exists>l j. entry_of gs mS i l j \<and> src ! (off gs mS l + j) \<noteq> 0), dst', src') \<and>
    moved_costs gs mD mS i dst src dst' src'"
  using assms(2-4)
proof (induction "length gs - i" arbitrary: i moved dst src)
  case 0
  then show ?case
    by (auto simp: moved_costs_def entry_of_def)
next
  case (Suc k)
  then have i: "i < length gs" by simp
  then have d: "drop i gs = gs ! i # drop (Suc i) gs"
    by (simp add: Cons_nth_drop_Suc)
  have k: "k = length gs - Suc i" "Suc i \<le> length gs"
    using Suc.hyps(2) i by simp_all
  show ?case
  proof (cases "in_set mS i (gs ! i)")
    case False
    then have "entry_of gs mS i = entry_of gs mS (Suc i)"
      using entry_of_Suc [OF i] by (auto simp: fun_eq_iff group_len_def)
    then show ?thesis
      using Suc.hyps(1) [OF k(1) Suc.prems(1,2) k(2)] False
      by (simp add: d esS_def make_eventset_layout moved_costs_def)
  next
    case True
    let ?n = "group_len gs mS i"
    have same: "group_len gs mD i = ?n" and len: "?n = length (the (gs ! i))"
      using assms(1) i True by (auto simp: sub_mask_def group_len_def in_set_def)
    have "off gs mD i + ?n \<le> length dst" "off gs mS i + ?n \<le> length src"
      using off_next [OF i, of gs mD] off_next [OF i, of gs mS] Suc.prems(1,2) same by simp_all
    from move_costs_nth [OF this, of moved] obtain dst1 src1 where
      m1: "move_costs ?n (off gs mD i) (off gs mS i) (moved, dst, src) =
        Inr (moved \<or> (\<exists>l<?n. src ! (off gs mS i + l) \<noteq> 0), dst1, src1)"
      and lens: "length dst1 = length dst" "length src1 = length src"
      and d1: "\<forall>l. dst1 ! l = (if off gs mD i \<le> l \<and> l < off gs mD i + ?n
        then dst ! l + src ! (off gs mS i + (l - off gs mD i)) else dst ! l)"
      and s1: "\<forall>l. src1 ! l = (if off gs mS i \<le> l \<and> l < off gs mS i + ?n then 0 else src ! l)"
      by (elim exE conjE)
    from Suc.hyps(1) [OF k(1) _ _ k(2), of dst1 src1 "moved \<or> (\<exists>l<?n. src ! (off gs mS i + l) \<noteq> 0)"]
    obtain dst' src' where rest: "move_groups esD esS (Suc i) (drop (Suc i) gs)
          (moved \<or> (\<exists>l<?n. src ! (off gs mS i + l) \<noteq> 0), dst1, src1) =
        Inr ((moved \<or> (\<exists>l<?n. src ! (off gs mS i + l) \<noteq> 0)) \<or>
          (\<exists>l j. entry_of gs mS (Suc i) l j \<and> src1 ! (off gs mS l + j) \<noteq> 0), dst', src')"
      and mv: "moved_costs gs mD mS (Suc i) dst1 src1 dst' src'"
      using Suc.prems(1,2) lens by auto
    have flag: "((moved \<or> (\<exists>l<?n. src ! (off gs mS i + l) \<noteq> 0)) \<or>
          (\<exists>l j. entry_of gs mS (Suc i) l j \<and> src1 ! (off gs mS l + j) \<noteq> 0)) =
        (moved \<or> (\<exists>l j. entry_of gs mS i l j \<and> src ! (off gs mS l + j) \<noteq> 0))"
    proof -
      have "src1 ! (off gs mS l + j) = src ! (off gs mS l + j)" if "entry_of gs mS (Suc i) l j" for l j
        using entry_of_off [OF that] by (simp add: s1)
      then show ?thesis
        unfolding entry_of_Suc [OF i] by metis
    qed
    have mD: "0 < mD AND push_bit i 1"
      using assms(1) i True by (auto simp: sub_mask_def word_gt_0)
    have "move_groups esD esS i (drop i gs) (moved, dst, src) =
        Inr (moved \<or> (\<exists>l j. entry_of gs mS i l j \<and> src ! (off gs mS l + j) \<noteq> 0), dst', src')"
      using True i m1 rest [unfolded flag] mD
      by (simp add: d esD_def esS_def make_eventset_layout flip: len)
    then show ?thesis
      using moved_costs_step [OF assms(1) i True lens d1 s1 mv] by blast
  qed
qed

text \<open>
  C13: Adding the cost of an instruction to a total that has all its event groups moves every count:
  each entry of a group of the source is added to the entry of the same event in the destination and
  cleared, every other entry of the two arrays is unchanged, no assertion fails and no access is out
  of bounds. The result says whether there was anything to move.
\<close>

theorem add_and_zero_cost2_moves:
  assumes "sub_mask (eventGroup ev) mS mD"
  defines "gs \<equiv> eventGroup ev" and "esD \<equiv> make_eventset (eventGroup ev) mD"
    and "esS \<equiv> make_eventset (eventGroup ev) mS"
  assumes "es_size esD \<le> length dst" and "es_size esS \<le> length src"
  shows "\<exists>dst' src'. add_and_zero_cost2 (Some esD) (Some dst) (Some esS) (Some src) ev =
      Inr (\<exists>l j. entry_of gs mS 0 l j \<and> src ! (es_offset esS ! l + j) \<noteq> 0, Some dst', Some src') \<and>
    (\<forall>l j. entry_of gs mS 0 l j \<longrightarrow>
       dst' ! (es_offset esD ! l + j) = dst ! (es_offset esD ! l + j) + src ! (es_offset esS ! l + j) \<and>
       src' ! (es_offset esS ! l + j) = 0) \<and>
    (\<forall>x. (\<forall>l j. entry_of gs mS 0 l j \<longrightarrow> x \<noteq> es_offset esD ! l + j) \<longrightarrow> dst' ! x = dst ! x) \<and>
    (\<forall>x. (\<forall>l j. entry_of gs mS 0 l j \<longrightarrow> x \<noteq> es_offset esS ! l + j) \<longrightarrow> src' ! x = src ! x)"
proof -
  have offs: "es_offset esD ! l = off gs mD l" "es_offset esS ! l = off gs mS l" if "l < length gs" for l
    using that by (simp_all add: esD_def esS_def gs_def make_eventset_layout)
  have "sub_mask gs mS mD" "off gs mD (length gs) \<le> length dst" "off gs mS (length gs) \<le> length src"
    using assms(1,5,6) by (simp_all add: esD_def esS_def gs_def make_eventset_layout)
  from move_groups_moves [OF this, of 0 False] obtain dst' src' where
    "move_groups esD esS 0 gs (False, dst, src) =
        Inr (\<exists>l j. entry_of gs mS 0 l j \<and> src ! (off gs mS l + j) \<noteq> 0, dst', src')"
    and "moved_costs gs mD mS 0 dst src dst' src'"
    by (auto simp: esD_def esS_def gs_def)
  then have "add_and_zero_cost2 (Some esD) (Some dst) (Some esS) (Some src) ev =
      Inr (\<exists>l j. entry_of gs mS 0 l j \<and> src ! (off gs mS l + j) \<noteq> 0, Some dst', Some src')"
    and "moved_costs gs mD mS 0 dst src dst' src'"
    by (simp_all add: add_and_zero_cost2_def gs_def)
  then show ?thesis
    by - (rule exI [where x = dst'], rule exI [where x = src'],
      simp add: moved_costs_def entry_of_def offs cong: conj_cong)
qed

theorem add_and_zero_cost2_moves_witness:
  "\<exists>dst' src'. add_and_zero_cost2 (Some (make_eventset (eventGroup demo_tables) 6)) (Some [1, 2, 3, 4, 5, 6])
      (Some (make_eventset (eventGroup demo_tables) 4)) (Some [7, 0, 9]) demo_tables = Inr (True, Some dst', Some src') \<and>
    dst' ! 3 = 11 \<and> dst' ! 0 = 1 \<and> src' ! 0 = 0"
proof -
  let ?gs = "eventGroup demo_tables"
  have gs: "?gs = [None, Some [''Ir'', ''I1mr'', ''ILmr''], Some [''Dr'', ''D1mr'', ''DLmr''],
      None, None, None, None, None, None, None]"
    by (simp add: demo_tables_def)
  have sets: "es_offset (make_eventset ?gs 6) ! 2 = 3" "es_offset (make_eventset ?gs 4) ! 2 = 0"
    "es_size (make_eventset ?gs 6) = 6" "es_size (make_eventset ?gs 4) = 3"
    by (simp_all add: make_eventset_def gs in_set_def Let_def)
  have ent: "entry_of ?gs 4 0 l j \<longleftrightarrow> l = 2 \<and> j < 3" for l j
    by (auto simp: entry_of_def gs group_len_def in_set_def less_Suc_eq split: if_splits)
  have sub: "sub_mask ?gs 4 6"
    by (auto simp: sub_mask_def gs in_set_def less_Suc_eq)
  have len: "es_size (make_eventset ?gs 6) \<le> length [1, 2, 3, 4, 5, 6 :: ULong]"
    "es_size (make_eventset ?gs 4) \<le> length [7, 0, 9 :: ULong]"
    by (simp_all add: sets)
  from add_and_zero_cost2_moves [OF sub len] obtain dst' src' where
    r: "add_and_zero_cost2 (Some (make_eventset ?gs 6)) (Some [1, 2, 3, 4, 5, 6]) (Some (make_eventset ?gs 4))
        (Some [7, 0, 9]) demo_tables = Inr (\<exists>l j. entry_of ?gs 4 0 l j \<and>
        [7, 0, 9] ! (es_offset (make_eventset ?gs 4) ! l + j) \<noteq> (0 :: ULong), Some dst', Some src')"
    and moved: "\<forall>l j. entry_of ?gs 4 0 l j \<longrightarrow> dst' ! (es_offset (make_eventset ?gs 6) ! l + j) =
        [1, 2, 3, 4, 5, 6] ! (es_offset (make_eventset ?gs 6) ! l + j) + [7, 0, 9] ! (es_offset (make_eventset ?gs 4) ! l + j) \<and>
        src' ! (es_offset (make_eventset ?gs 4) ! l + j) = 0"
    and kept: "\<forall>x. (\<forall>l j. entry_of ?gs 4 0 l j \<longrightarrow> x \<noteq> es_offset (make_eventset ?gs 6) ! l + j) \<longrightarrow>
        dst' ! x = [1, 2, 3, 4, 5, 6] ! x"
    by (elim exE conjE)
  have "\<exists>l j. entry_of ?gs 4 0 l j \<and> [7, 0, 9] ! (es_offset (make_eventset ?gs 4) ! l + j) \<noteq> (0 :: ULong)"
    by (rule exI [of _ 2], rule exI [of _ 0]) (simp add: ent sets)
  moreover have "dst' ! 3 = 11" "src' ! 0 = 0"
    using moved [rule_format, of 2 0] by (simp_all add: ent sets)
  moreover have "dst' ! 0 = 1"
    using kept [rule_format, of 0] by (simp add: ent sets)
  ultimately show ?thesis
    using r by simp
qed

section \<open>Printing costs\<close>

definition dec :: "string \<Rightarrow> nat" where
  "dec s = foldl (\<lambda>n c. 10 * n + (of_char c - 48)) 0 s"

lemma dec_show_nat: "dec (show_nat n) = n"
proof (induction n rule: show_nat.induct)
  case (1 n)
  have digit: "of_char (show_digit d) - 48 = d" if "d < 10" for d :: nat
    using that by (simp add: show_digit_def)
  show ?case
  proof (cases "n < 10")
    case True
    then show ?thesis using digit by (simp add: show_nat.simps [of n] dec_def)
  next
    case False
    then show ?thesis
      using 1 digit [of "n mod 10"] by (simp add: show_nat.simps [of n] dec_def)
  qed
qed

lemma show_nat_no_ws: "c \<in> set (show_nat n) \<Longrightarrow> \<not> is_ws c"
proof (induction n rule: show_nat.induct)
  case (1 n)
  have "of_char x \<le> (32 :: nat)" if "is_ws x" for x
    using that by (auto simp: is_ws_def)
  moreover have "of_char (show_digit d) = 48 + d" if "d < 10" for d
    using that by (simp add: show_digit_def)
  ultimately have digit: "\<not> is_ws (show_digit d)" if "d < 10" for d
    using that by force
  show ?case
    using 1 digit by (cases "n < 10") (auto simp: show_nat.simps [of n])
qed

text \<open>The fields that the loop prints, each after a blank.\<close>

fun cost_fields :: "ULong list \<Rightarrow> nat \<Rightarrow> EventMappingEntry list \<Rightarrow> string list" where
  "cost_fields c k [] = []"
| "cost_fields c k (e # es) =
     (if c ! em_off e = 0 then cost_fields c (k + 1) es
      else replicate k ''0'' @ show_nat (unat (c ! em_off e)) # cost_fields c 0 es)"

lemma cost_loop_fields:
  "\<forall>e \<in> set es. em_off e < length c \<Longrightarrow>
   cost_loop c k es = Inr (concat (map ((#) (CHR '' '')) (cost_fields c k es)))"
proof (induction es arbitrary: k)
  case (Cons e es)
  have "concat (replicate k '' 0'') = concat (map ((#) (CHR '' '')) (replicate k ''0''))"
    by simp
  then show ?case using Cons by simp
qed simp

lemma cost_fields_length: "length (cost_fields c k es) \<le> k + length es"
proof (induction es arbitrary: k)
  case (Cons e es)
  then show ?case using Cons [of "k + 1"] Cons [of 0] by simp
qed simp

lemma cost_fields_words: "f \<in> set (cost_fields c k es) \<Longrightarrow> f \<noteq> [] \<and> (\<forall>x \<in> set f. \<not> is_ws x)"
proof (induction es arbitrary: k)
  case (Cons e es)
  have num: "show_nat n \<noteq> [] \<and> (\<forall>x \<in> set (show_nat n). \<not> is_ws x)" for n
    using show_nat_Cons [of n] show_nat_no_ws by fastforce
  have "''0'' = show_nat 0"
    by code_simp
  then show ?case
    using Cons num by (auto split: if_splits)
qed simp

lemma cost_fields_read:
  "i < k + length es \<Longrightarrow>
   (if i < length (cost_fields c k es) then dec (cost_fields c k es ! i) else 0) =
   (if i < k then 0 else unat (c ! em_off (es ! (i - k))))"
proof (induction es arbitrary: k i)
  case Nil
  then show ?case by simp
next
  case (Cons e es)
  show ?case
  proof (cases "c ! em_off e = 0")
    case True
    then show ?thesis
      using Cons.IH [of i "k + 1"] Cons.prems by (cases "i = k") (auto simp: nth_Cons' split: if_splits)
  next
    case False
    have "dec ''0'' = 0" by (simp add: dec_def)
    moreover have "i < k \<or> i = k \<or> (\<exists>l. i = Suc (k + l))"
      using less_imp_Suc_add [of k i] by (cases i k rule: linorder_cases) auto
    ultimately show ?thesis
      using False Cons.IH [of "i - Suc k" 0] Cons.prems
      by (auto simp: nth_append dec_show_nat simp del: diff_Suc_Suc split: if_splits)
  qed
qed

lemma split_ws_word: "\<forall>x \<in> set f. \<not> is_ws x \<Longrightarrow> split_ws g (f @ s) = split_ws (g @ f) s"
  by (induction f arbitrary: g) auto

lemma split_ws_fields:
  assumes "\<forall>f \<in> set fs. f \<noteq> [] \<and> (\<forall>x \<in> set f. \<not> is_ws x)"
  shows "split_ws g (concat (map ((#) (CHR '' '')) fs)) = g # fs"
  using assms
proof (induction fs arbitrary: g)
  case (Cons f fs)
  obtain x xs where f: "f = x # xs" and x: "\<not> is_ws x"
    using Cons.prems by (cases f) auto
  have "dropWhile is_ws (f @ s) = f @ s" for s
    using x by (simp add: f)
  then show ?case
    using Cons split_ws_word [of f "[]"] by (simp add: is_ws_def)
qed simp

lemma perl_split_fields:
  assumes "\<forall>f \<in> set (f # fs). f \<noteq> [] \<and> (\<forall>x \<in> set f. \<not> is_ws x)"
  shows "perl_split (f @ concat (map ((#) (CHR '' '')) fs)) = f # fs"
proof -
  have "split_ws [] (f @ concat (map ((#) (CHR '' '')) fs)) = f # fs"
    using assms by (simp add: split_ws_word split_ws_fields)
  moreover obtain gs g where "f # fs = gs @ [g]"
    by (metis append_butlast_last_id list.distinct(1))
  moreover from this have "g \<noteq> []"
    using assms by (metis in_set_conv_decomp)
  ultimately show ?thesis
    by (simp add: perl_split_def)
qed

text \<open>
  C17: The line of counts that Callgrind prints for a cost array, read by \<open>callgrind_annotate\<close>, has at
  most one field for each event of the mapping, and the field of each event is its count; a field that
  is missing stands for a count of zero.
\<close>

theorem mappingcost_roundtrip:
  assumes "\<forall>e \<in> set (em_entry em). em_off e < length c"
  shows "\<exists>line CC. mappingcost_as_string em (Some c) = Inr line \<and>
    line_to_CC (length (em_entry em)) line = Inr CC \<and>
    (\<forall>i < length (em_entry em).
       unat (c ! em_off (em_entry em ! i)) = (if i < length CC then dec (CC ! i) else 0))"
proof (cases "em_entry em")
  case Nil
  then show ?thesis
    by (simp add: mappingcost_as_string_def line_to_CC_def perl_split_def)
next
  case (Cons e es)
  let ?f = "show_nat (unat (c ! em_off e))" and ?fs = "cost_fields c 0 es"
  have line: "mappingcost_as_string em (Some c) = Inr (?f @ concat (map ((#) (CHR '' '')) ?fs))"
    using assms Cons by (simp add: mappingcost_as_string_def cost_loop_fields)
  have "?f \<noteq> []"
    using show_nat_Cons [of "unat (c ! em_off e)"] by auto
  then have "perl_split (?f @ concat (map ((#) (CHR '' '')) ?fs)) = ?f # ?fs"
    using show_nat_no_ws cost_fields_words by (intro perl_split_fields) auto
  then have CC: "line_to_CC (length (em_entry em)) (?f @ concat (map ((#) (CHR '' '')) ?fs)) = Inr (?f # ?fs)"
    using cost_fields_length [of c 0 es] Cons by (simp add: line_to_CC_def)
  have "unat (c ! em_off (em_entry em ! i)) = (if i < length (?f # ?fs) then dec ((?f # ?fs) ! i) else 0)"
    if "i < length (em_entry em)" for i
    using that cost_fields_read [of "i - 1" 0 es c] Cons
    by (cases i) (auto simp: dec_show_nat split: if_splits)
  then show ?thesis
    using line CC by blast
qed

definition demo_mapping :: EventMapping where
  "demo_mapping = \<lparr>em_es = make_eventset (eventGroup demo_tables) 6, em_capacity = 6,
     em_entry = map (\<lambda>i. \<lparr>em_group = 1, em_index = i, em_off = i\<rparr>) [0, 1, 2]\<rparr>"

theorem mappingcost_roundtrip_witness:
  "\<exists>line CC. mappingcost_as_string demo_mapping (Some [5, 0, 12, 0, 0, 0]) = Inr line \<and>
    line_to_CC 3 line = Inr CC \<and> (if 2 < length CC then dec (CC ! 2) else 0) = 12"
proof -
  have "\<forall>e \<in> set (em_entry demo_mapping). em_off e < length [5, 0, 12, 0, 0, 0 :: ULong]"
    by (simp add: demo_mapping_def)
  from mappingcost_roundtrip [OF this] obtain line CC where
    "mappingcost_as_string demo_mapping (Some [5, 0, 12, 0, 0, 0]) = Inr line"
    "line_to_CC (length (em_entry demo_mapping)) line = Inr CC"
    and counts: "\<forall>i < length (em_entry demo_mapping). unat ([5, 0, 12, 0, 0, 0 :: ULong] ! em_off (em_entry demo_mapping ! i)) =
      (if i < length CC then dec (CC ! i) else 0)"
    by (elim exE conjE)
  moreover have "length (em_entry demo_mapping) = 3" "em_off (em_entry demo_mapping ! 2) = 2"
    by (simp_all add: demo_mapping_def)
  ultimately show ?thesis
    using counts [rule_format, of 2] by simp
qed

end
