(* ===== verification/CacheAnnotate.thy ===== *)
theory CacheAnnotate
  imports CacheFini CallgrindEvents "HOL-Library.Sublist"
begin

text \<open>
  The reader of Cachegrind's output file: \<open>read_input_file\<close> of the Perl script
  \<open>valgrind/cachegrind/cg_annotate.in\<close>, as it runs without the options \<open>--show\<close> and \<open>--sort\<close>. The
  theory shows that the script, given the text that \<open>cg_main.c\<close> writes, has for every event the
  counts of every line, function and of the whole program under the name of that event.

  A file is its text. A match of a regular expression gives what it captures and what it leaves. A
  hash is a map, and a reference to an array or a hash inside another hash is the key it has there.
  A number of Perl is an integer; Perl computes exactly with integers below \<open>2 ^ 64\<close>.
\<close>

section \<open>Lines and matches\<close>

text \<open>\<open>\<langle>INPUTFILE\<rangle>\<close>: the lines, each with its newline.\<close>

fun perl_lines :: "string \<Rightarrow> string \<Rightarrow> string list" where
  "perl_lines l [] = (if l = [] then [] else [l])"
| "perl_lines l (c # cs) = (if c = CHR 0x0A then (l @ [c]) # perl_lines [] cs else perl_lines (l @ [c]) cs)"

text \<open>\<open>s/^k\s+//\<close>, and the same without the anchor: the first position that matches.\<close>

definition strip_word :: "string \<Rightarrow> string \<Rightarrow> string option" where
  "strip_word k s =
     (if take (length k) s = k then
        (case drop (length k) s of
           [] \<Rightarrow> None
         | c # cs \<Rightarrow> if is_ws c then Some (dropWhile is_ws cs) else None)
      else None)"

fun strip_first :: "string \<Rightarrow> string \<Rightarrow> string option" where
  "strip_first k [] = strip_word k []"
| "strip_first k (c # cs) =
     (case strip_word k (c # cs) of
        Some rest \<Rightarrow> Some rest
      | None \<Rightarrow> map_option ((#) c) (strip_first k cs))"

text \<open>\<open>s/^(-?\d+)\s+//\<close>: the text of the number and what follows it.\<close>

definition perl_digit :: "char \<Rightarrow> bool" where
  "perl_digit c \<longleftrightarrow> is_dec_digit c \<noteq> None"

definition strip_number :: "string \<Rightarrow> (string \<times> string) option" where
  "strip_number s =
     (let sign = (if take 1 s = ''-'' then ''-'' else '''');
          ds = takeWhile perl_digit (drop (length sign) s);
          rest = dropWhile perl_digit (drop (length sign) s)
      in if ds = [] then None
         else case rest of
             [] \<Rightarrow> None
           | c # cs \<Rightarrow> if is_ws c then Some (sign @ ds, dropWhile is_ws cs) else None)"

text \<open>\<open>s/^k(.*)$//\<close> on a line: what is captured.\<close>

definition strip_key :: "string \<Rightarrow> string \<Rightarrow> string option" where
  "strip_key k s =
     (if take (length k) s = k then Some (takeWhile (\<lambda>c. c \<noteq> CHR 0x0A) (drop (length k) s)) else None)"

definition chomp :: "string \<Rightarrow> string" where
  "chomp s = (if s \<noteq> [] \<and> last s = CHR 0x0A then butlast s else s)"

text \<open>
  The number that a field stands for in an addition: the longest prefix that is an integer. No count
  has a fraction or an exponent.
\<close>

definition perl_int :: "string \<Rightarrow> int" where
  "perl_int s =
     (if take 1 s = ''-'' then - int (dec (takeWhile perl_digit (drop 1 s)))
      else int (dec (takeWhile perl_digit s)))"

section \<open>Counts\<close>

text \<open>An array of counts has undefined entries where only dots were added.\<close>

type_synonym CC = "int option list"

definition array_get :: "CC \<Rightarrow> nat \<Rightarrow> int" where
  "array_get a i = (if i < length a then (case a ! i of Some n \<Rightarrow> n | None \<Rightarrow> 0) else 0)"

definition array_put :: "nat \<Rightarrow> int \<Rightarrow> CC \<Rightarrow> CC" where
  "array_put i n a =
     (if i < length a then a[i := Some n] else a @ replicate (i - length a) None @ [Some n])"

definition add_array_a_to_b :: "string list \<Rightarrow> CC \<Rightarrow> CC" where
  "add_array_a_to_b a1 a2 =
     fold (\<lambda>i a2. if i < length a1 \<and> a1 ! i \<noteq> ''.'' then array_put i (array_get a2 i + perl_int (a1 ! i)) a2 else a2)
       [0..<max (length a1) (length a2)] a2"

definition cg_line_to_CC :: "nat \<Rightarrow> string list \<Rightarrow> string \<Rightarrow> string list cres" where
  "cg_line_to_CC line_no evs s =
     (let CC = perl_split s
      in if length CC \<le> length evs then Inr CC
         else Inl (Exit_with (''Line '' @ show_nat line_no @ '': too many event counts'' @ [CHR 0x0A])))"

section \<open>Reading the file\<close>

text \<open>
  The variables of the script. \<open>currFuncCC\<close> refers to an array of \<open>fn_totals\<close>, which it is named by;
  \<open>currFileCCs\<close> refers to the hash of \<open>currFileName\<close> in \<open>allCCs\<close>, or to one outside it before the
  first file.
\<close>

record annotate =
  ann_desc :: string
  ann_cmd :: string
  ann_events :: "string list"
  summary_CC :: "string list option"
  fn_totals :: "string \<Rightarrow> CC option"
  allCCs :: "string \<Rightarrow> (string \<Rightarrow> CC option) option"
  currFileName :: "string option"
  currFuncCC :: "string option"

text \<open>The options: whether to annotate all files, and the files named on the command line.\<close>

record ann_opts =
  auto_annotate :: bool
  user_ann_files :: "string list"

definition cell :: "(string \<Rightarrow> CC option) \<Rightarrow> string \<Rightarrow> CC" where
  "cell m k = (case m k of Some a \<Rightarrow> a | None \<Rightarrow> [])"

definition read_count_line :: "ann_opts \<Rightarrow> nat \<Rightarrow> string \<Rightarrow> string \<Rightarrow> annotate \<Rightarrow> annotate cres" where
  "read_count_line o1 line_no lineNum rest r =
     cbind (cg_line_to_CC line_no (ann_events r) rest) (\<lambda>CC.
     case currFuncCC r of
       None \<Rightarrow> Inl (Exit_with ''Died'')
     | Some k \<Rightarrow>
         let r = r\<lparr>fn_totals := (fn_totals r)(k \<mapsto> add_array_a_to_b CC (cell (fn_totals r) k))\<rparr>
         in case currFileName r of
             None \<Rightarrow> Inr r
           | Some f \<Rightarrow>
               if auto_annotate o1 \<or> f \<in> set (user_ann_files o1) then
                 let currFileCCs = (case allCCs r f of Some m \<Rightarrow> m | None \<Rightarrow> Map.empty)
                 in Inr (r\<lparr>allCCs := (allCCs r)(f \<mapsto>
                      currFileCCs(lineNum \<mapsto> add_array_a_to_b CC (cell currFileCCs lineNum)))\<rparr>)
               else Inr r)"

definition read_fn_line :: "string \<Rightarrow> annotate \<Rightarrow> annotate" where
  "read_fn_line fn r =
     (let k = (case currFileName r of Some f \<Rightarrow> f | None \<Rightarrow> []) @ '':'' @ fn
      in r\<lparr>currFuncCC := Some k,
           fn_totals := (if fn_totals r k = None then (fn_totals r)(k \<mapsto> []) else fn_totals r)\<rparr>)"

definition read_fl_line :: "string \<Rightarrow> annotate \<Rightarrow> annotate" where
  "read_fl_line f r =
     r\<lparr>currFileName := Some f,
       allCCs := (if allCCs r f = None then (allCCs r)(f \<mapsto> Map.empty) else allCCs r)\<rparr>"

definition read_body_line :: "ann_opts \<Rightarrow> nat \<Rightarrow> string \<Rightarrow> annotate \<Rightarrow> annotate cres" where
  "read_body_line o1 line_no l r =
     (if list_all is_ws l \<or> take 1 l = ''#'' then Inr r
      else case strip_number l of
          Some (lineNum, rest) \<Rightarrow> read_count_line o1 line_no lineNum rest r
        | None \<Rightarrow>
      (case strip_key ''fn='' l of
          Some fn \<Rightarrow> Inr (read_fn_line fn r)
        | None \<Rightarrow>
      (case strip_key ''fl='' l of
          Some f \<Rightarrow> Inr (read_fl_line f r)
        | None \<Rightarrow>
      (case strip_word ''summary:'' l of
          Some rest \<Rightarrow>
            cbind (cg_line_to_CC line_no (ann_events r) rest) (\<lambda>CC.
            if length CC = length (ann_events r) then Inr (r\<lparr>summary_CC := Some CC\<rparr>)
            else Inl (Exit_with (''Line '' @ show_nat line_no @ '': summary event and total event mismatch'' @ [CHR 0x0A])))
        | None \<Rightarrow> Inr r))))"

fun read_body :: "ann_opts \<Rightarrow> nat \<Rightarrow> string list \<Rightarrow> annotate \<Rightarrow> annotate cres" where
  "read_body o1 n [] r = Inr r"
| "read_body o1 n (l # ls) r = cbind (read_body_line o1 n l r) (read_body o1 (Suc n) ls)"

text \<open>
  The loop over the \<open>desc:\<close> lines gives their texts, the line that ended it, and the rest; the number
  counts the lines read.
\<close>

fun read_desc :: "nat \<Rightarrow> string list \<Rightarrow> string \<times> string \<times> nat \<times> string list" where
  "read_desc n [] = ('''', '''', n, [])"
| "read_desc n (l # ls) =
     (case strip_first ''desc:'' l of
        Some d \<Rightarrow> (case read_desc (Suc n) ls of (ds, rest) \<Rightarrow> (d @ ds, rest))
      | None \<Rightarrow> ('''', l, Suc n, ls))"

definition read_input_file :: "ann_opts \<Rightarrow> string \<Rightarrow> annotate cres" where
  "read_input_file o1 file =
     (case read_desc 0 (perl_lines [] file) of (desc, line, n, ls) \<Rightarrow>
      case strip_word ''cmd:'' line of
        None \<Rightarrow> Inl (Exit_with (''Line '' @ show_nat n @ '': missing command line'' @ [CHR 0x0A]))
      | Some cmd \<Rightarrow>
      (case ls of
         [] \<Rightarrow> Inl (Exit_with (''Line '' @ show_nat n @ '': missing events line'' @ [CHR 0x0A]))
       | line # ls \<Rightarrow>
      (case strip_word ''events:'' line of
         None \<Rightarrow> Inl (Exit_with (''Line '' @ show_nat (Suc n) @ '': missing events line'' @ [CHR 0x0A]))
       | Some evs \<Rightarrow>
           cbind (read_body o1 (Suc (Suc n)) ls
             \<lparr>ann_desc = desc, ann_cmd = chomp cmd, ann_events = perl_split evs, summary_CC = None,
              fn_totals = Map.empty, allCCs = Map.empty, currFileName = None, currFuncCC = None\<rparr>) (\<lambda>r.
           if summary_CC r = None then Inl (Exit_with (''missing final summary line, aborting'' @ [CHR 0x0A]))
           else Inr r))))"

section \<open>What a file should tell\<close>

text \<open>The events that the options turn on, and the counter that each name stands for.\<close>

definition event_names :: "CgOpts \<Rightarrow> string list" where
  "event_names opts = [''Ir''] @
     (if clo_cache_sim opts then [''I1mr'', ''ILmr'', ''Dr'', ''D1mr'', ''DLmr'', ''Dw'', ''D1mw'', ''DLmw''] else []) @
     (if clo_branch_sim opts then [''Bc'', ''Bcm'', ''Bi'', ''Bim''] else [])"

definition event_count :: "string \<Rightarrow> LineCC \<Rightarrow> ULong" where
  "event_count e l =
     (if e = ''Ir'' then cc_a (line_Ir l) else if e = ''I1mr'' then cc_m1 (line_Ir l)
      else if e = ''ILmr'' then cc_mL (line_Ir l)
      else if e = ''Dr'' then cc_a (line_Dr l) else if e = ''D1mr'' then cc_m1 (line_Dr l)
      else if e = ''DLmr'' then cc_mL (line_Dr l)
      else if e = ''Dw'' then cc_a (line_Dw l) else if e = ''D1mw'' then cc_m1 (line_Dw l)
      else if e = ''DLmw'' then cc_mL (line_Dw l)
      else if e = ''Bc'' then cc_b (line_Bc l) else if e = ''Bcm'' then cc_mp (line_Bc l)
      else if e = ''Bi'' then cc_b (line_Bi l) else if e = ''Bim'' then cc_mp (line_Bi l)
      else 0)"

text \<open>The sums of the counts over the lines of the table with a property, event by event.\<close>

definition event_sum :: "cg \<Rightarrow> (CodeLoc \<Rightarrow> bool) \<Rightarrow> string \<Rightarrow> int" where
  "event_sum st P e = (\<Sum>l\<leftarrow>filter P (elements (CC_table st)). int (unat (event_count e (ccs st l))))"

text \<open>The name of a function in the script, and the counts of a line of a file.\<close>

definition fn_key :: "CodeLoc \<Rightarrow> string" where
  "fn_key l = loc_file l @ '':'' @ loc_fn l"

definition line_CC :: "annotate \<Rightarrow> string \<Rightarrow> string \<Rightarrow> CC option" where
  "line_CC r f n = (case allCCs r f of None \<Rightarrow> None | Some m \<Rightarrow> m n)"

text \<open>
  Names that the format can carry: without a newline, and a command line without the word that the
  script takes for the start of a description wherever it stands.
\<close>

definition no_newline :: "string \<Rightarrow> bool" where
  "no_newline s \<longleftrightarrow> CHR 0x0A \<notin> set s"

definition header_ok :: "cachesim \<Rightarrow> string \<Rightarrow> string list \<Rightarrow> bool" where
  "header_ok s exename args \<longleftrightarrow>
     no_newline (c2_desc_line (sim_I1 s)) \<and> no_newline (c2_desc_line (sim_D1 s)) \<and>
     no_newline (c2_desc_line (sim_LL s)) \<and> no_newline (cmd_line exename args) \<and>
     \<not> sublist ''desc:'' (cmd_line exename args)"

section \<open>Reading lines\<close>

abbreviation nl :: "string \<Rightarrow> string" where
  "nl l \<equiv> l @ [CHR 0x0A]"

lemma perl_lines_line: "no_newline l \<Longrightarrow> perl_lines a (l @ CHR 0x0A # s) = (a @ nl l) # perl_lines [] s"
  by (induction l arbitrary: a) (auto simp: no_newline_def)

lemma perl_lines_text:
  "\<forall>l \<in> set ls. no_newline l \<Longrightarrow> perl_lines [] (concat (map nl ls) @ s) = map nl ls @ perl_lines [] s"
  by (induction ls) (simp_all add: perl_lines_line)

lemma read_body_append:
  "read_body o1 n (xs @ ys) r = cbind (read_body o1 n xs r) (read_body o1 (n + length xs) ys)"
proof (induction xs arbitrary: n r)
  case (Cons x xs)
  then show ?case by (cases "read_body_line o1 n x r") simp_all
qed simp

lemma strip_first_sublist: "strip_first k s = Some rest \<Longrightarrow> sublist k s"
proof (induction s arbitrary: rest)
  case Nil
  then show ?case by (auto simp: strip_word_def split: if_splits)
next
  case (Cons c s)
  show ?case
  proof (cases "strip_word k (c # s)")
    case None
    then show ?thesis using Cons by (auto intro: sublist_Cons_right [THEN iffD2])
  next
    case (Some t)
    then have "prefix k (c # s)"
      by (metis option.distinct(1) strip_word_def take_is_prefix)
    then show ?thesis by (rule prefix_imp_sublist)
  qed
qed

lemma strip_first_none:
  assumes "\<not> sublist k l" and "no_newline k"
  shows "strip_first k (nl l) = None"
proof (rule ccontr)
  assume "strip_first k (nl l) \<noteq> None"
  then have "sublist k (nl l)"
    using strip_first_sublist by blast
  then obtain u v where uv: "nl l = u @ k @ v"
    by (auto simp: sublist_def)
  show False
  proof (cases v rule: rev_cases)
    case Nil
    then have "k = [] \<or> k \<noteq> [] \<and> last k = CHR 0x0A"
      using uv by (cases k rule: rev_cases) auto
    then show False
      using assms by (auto simp: no_newline_def dest: last_in_set)
  next
    case (snoc v' x)
    then have "l = u @ k @ v'" using uv by simp
    then show False using assms(1) by (auto simp: sublist_def)
  qed
qed

section \<open>Numbers and fields\<close>

lemma perl_digit_show_nat: "c \<in> set (show_nat n) \<Longrightarrow> perl_digit c"
proof (induction n rule: show_nat.induct)
  case (1 n)
  show ?case
    using 1 by (cases "n < 10") (auto simp: show_nat.simps [of n] perl_digit_def)
qed

lemma perl_digit_plain: "perl_digit c \<Longrightarrow> \<not> is_ws c \<and> c \<noteq> CHR ''-'' \<and> c \<noteq> CHR ''.'' \<and> c \<noteq> CHR ''#''"
  by (auto simp: perl_digit_def is_dec_digit_def is_ws_def)

lemma show_nat_not_Nil [simp]: "show_nat n \<noteq> []"
  using show_nat_Cons [of n] by auto

lemma takeWhile_show_nat:
  assumes "s = [] \<or> \<not> perl_digit (hd s)"
  shows "takeWhile perl_digit (show_nat n @ s) = show_nat n" "dropWhile perl_digit (show_nat n @ s) = s"
  using assms perl_digit_show_nat
  by (cases s; auto simp: takeWhile_append2 dropWhile_append2 takeWhile_eq_all_conv)+

lemma hd_show_nat: "take 1 (show_nat n @ s) \<noteq> ''-''"
  using perl_digit_show_nat [of "hd (show_nat n)" n] perl_digit_plain [of "hd (show_nat n)"]
  by (cases "show_nat n") auto

lemma takeWhile_show_nat_all [simp]: "takeWhile perl_digit (show_nat n) = show_nat n"
  by (simp add: takeWhile_eq_all_conv perl_digit_show_nat)

lemma perl_int_show_nat [simp]: "perl_int (show_nat n) = int n"
  using hd_show_nat [of n "[]"] by (simp add: perl_int_def dec_show_nat)

lemma perl_int_show_Int [simp]: "perl_int (show_Int n) = n"
  by (simp add: show_Int_def) (simp add: perl_int_def dec_show_nat)

lemma show_Int_inject [simp]: "show_Int m = show_Int n \<longleftrightarrow> m = n"
  by (metis perl_int_show_Int)

lemma strip_number_show_Int:
  "strip_number (show_Int n @ CHR '' '' # s) = Some (show_Int n, dropWhile is_ws s)"
proof -
  have blank: "\<not> perl_digit CHR '' ''" "is_ws CHR '' ''"
    by (simp_all add: perl_digit_def is_dec_digit_def is_ws_def)
  show ?thesis
    using takeWhile_show_nat [of "CHR '' '' # s"] hd_show_nat [of "nat n" "CHR '' '' # s"] blank
    by (simp add: strip_number_def show_Int_def)
qed

text \<open>Fields with blanks between them and a newline at the end.\<close>

lemma split_ws_fields_nl:
  assumes "\<forall>f \<in> set fs. f \<noteq> [] \<and> (\<forall>x \<in> set f. \<not> is_ws x)"
  shows "split_ws g (concat (map ((#) (CHR '' '')) fs) @ [CHR 0x0A]) = g # fs @ [[]]"
  using assms
proof (induction fs arbitrary: g)
  case Nil
  then show ?case by (simp add: is_ws_def)
next
  case (Cons f fs)
  obtain x xs where f: "f = x # xs" and x: "\<not> is_ws x"
    using Cons.prems by (cases f) auto
  have "dropWhile is_ws (f @ s) = f @ s" for s
    using x by (simp add: f)
  then show ?case
    using Cons split_ws_word [of f "[]"] by (simp add: is_ws_def)
qed

lemma show_ULongs_fields: "show_ULongs cs = concat (map ((#) (CHR '' '')) (map (show_nat \<circ> unat) cs))"
  by (simp add: show_ULongs_def comp_def)

lemma perl_split_ULongs:
  "perl_split (show_nat (unat c) @ show_ULongs cs @ [CHR 0x0A]) = map (show_nat \<circ> unat) (c # cs)"
proof -
  let ?fs = "map (show_nat \<circ> unat) cs"
  have "split_ws [] (show_nat (unat c) @ show_ULongs cs @ [CHR 0x0A]) = show_nat (unat c) # ?fs @ [[]]"
    using show_nat_no_ws
    by (simp add: split_ws_word show_ULongs_fields split_ws_fields_nl del: map_map)
  moreover obtain gs g where g: "map (show_nat \<circ> unat) (c # cs) = gs @ [g]"
    by (metis append_butlast_last_id list.distinct(1) list.simps(9))
  moreover have "g \<noteq> []"
    using g by (metis (no_types, lifting) comp_apply ex_map_conv in_set_conv_decomp show_nat_not_Nil)
  ultimately have "perl_split (show_nat (unat c) @ show_ULongs cs @ [CHR 0x0A]) = gs @ [g]"
    unfolding perl_split_def by (simp only: rev_append list.map comp_apply append_Cons flip: append_Cons) simp
  then show ?thesis using g by simp
qed

lemma dropWhile_show_nat: "dropWhile is_ws (show_nat n @ s) = show_nat n @ s"
  using show_nat_no_ws [of "hd (show_nat n)" n] by (cases "show_nat n") auto

section \<open>Adding counts\<close>

lemma add_array_fields:
  assumes "length a = 0 \<or> length a = length fs" and "''.'' \<notin> set fs"
  shows "add_array_a_to_b fs a = map (\<lambda>i. Some (array_get a i + perl_int (fs ! i))) [0..<length fs]"
proof -
  let ?g = "\<lambda>i. Some (array_get a i + perl_int (fs ! i))"
  let ?step = "\<lambda>i a2. if i < length fs \<and> fs ! i \<noteq> ''.'' then array_put i (array_get a2 i + perl_int (fs ! i)) a2 else a2"
  have "fold ?step [0..<k] a = map ?g [0..<k] @ drop k a" if "k \<le> length fs" for k
    using that
  proof (induction k)
    case (Suc k)
    then have k: "k < length fs" "fs ! k \<noteq> ''.''"
      using assms(2) by (auto simp: in_set_conv_nth)
    have "array_get (map ?g [0..<k] @ drop k a) k = array_get a k"
      by (simp add: array_get_def nth_append)
    moreover have "array_put k n (map ?g [0..<k] @ drop k a) = map ?g [0..<k] @ Some n # drop (Suc k) a" for n
    proof (cases "length a = 0")
      case False
      then have "drop k a = a ! k # drop (Suc k) a"
        using assms(1) k(1) by (simp add: Cons_nth_drop_Suc)
      then show ?thesis by (simp add: array_put_def list_update_append)
    qed (simp add: array_put_def)
    ultimately show ?case
      using Suc k by simp
  qed simp
  moreover have "max (length fs) (length a) = length fs"
    using assms(1) by auto
  ultimately show ?thesis
    using assms(1) by (simp add: add_array_a_to_b_def del: upt_Suc)
qed

text \<open>
  A table of sums: the entry of a key is the sum, event by event, of the counts of the lines with
  that key; there is one only when there is such a line.
\<close>

definition count_sums :: "string list \<Rightarrow> (CodeLoc \<Rightarrow> LineCC) \<Rightarrow> CodeLoc list \<Rightarrow> CC" where
  "count_sums evs cc locs = map (\<lambda>e. Some (\<Sum>l\<leftarrow>locs. int (unat (event_count e (cc l))))) evs"

definition sum_table :: "string list \<Rightarrow> (CodeLoc \<Rightarrow> LineCC) \<Rightarrow> CodeLoc list \<Rightarrow> (CodeLoc \<Rightarrow> 'k) \<Rightarrow> 'k \<Rightarrow> CC option" where
  "sum_table evs cc locs key k =
     (if k \<in> key ` set locs then Some (count_sums evs cc (filter (\<lambda>l. key l = k) locs)) else None)"

definition count_fields :: "string list \<Rightarrow> LineCC \<Rightarrow> string list" where
  "count_fields evs l = map (\<lambda>e. show_nat (unat (event_count e l))) evs"

lemma dot_not_number: "''.'' \<notin> set (count_fields evs l)"
proof
  assume "''.'' \<in> set (count_fields evs l)"
  then obtain n where "show_nat n = ''.''"
    by (auto simp: count_fields_def)
  then show False
    using perl_digit_show_nat [of "CHR ''.''" n] perl_digit_plain by auto
qed

lemma sums_snoc:
  "add_array_a_to_b (count_fields evs (cc l)) (count_sums evs cc locs) = count_sums evs cc (locs @ [l])"
  "add_array_a_to_b (count_fields evs (cc l)) [] = count_sums evs cc [l]"
proof -
  let ?fs = "count_fields evs (cc l)"
  have fs: "length ?fs = length evs" "\<And>i. i < length evs \<Longrightarrow> perl_int (?fs ! i) = int (unat (event_count (evs ! i) (cc l)))"
    by (simp_all add: count_fields_def)
  show "add_array_a_to_b ?fs (count_sums evs cc locs) = count_sums evs cc (locs @ [l])"
    using add_array_fields [of "count_sums evs cc locs" ?fs] dot_not_number fs
    by (intro nth_equalityI) (simp_all add: count_sums_def array_get_def)
  show "add_array_a_to_b ?fs [] = count_sums evs cc [l]"
    using add_array_fields [of "[]" ?fs] dot_not_number fs
    by (intro nth_equalityI) (simp_all add: count_sums_def array_get_def)
qed

lemma sum_table_snoc:
  "(sum_table evs cc locs key)(key l \<mapsto>
      add_array_a_to_b (count_fields evs (cc l)) (case sum_table evs cc locs key (key l) of Some a \<Rightarrow> a | None \<Rightarrow> [])) =
   sum_table evs cc (locs @ [l]) key"
proof
  fix k
  have "filter (\<lambda>x. key x = key l) locs = []" if "key l \<notin> key ` set locs"
    using that by (auto simp: filter_empty_conv image_iff)
  then show "((sum_table evs cc locs key)(key l \<mapsto> add_array_a_to_b (count_fields evs (cc l))
      (case sum_table evs cc locs key (key l) of Some a \<Rightarrow> a | None \<Rightarrow> []))) k = sum_table evs cc (locs @ [l]) key k"
    by (auto simp: sum_table_def sums_snoc)
qed

section \<open>Reading what was printed\<close>

lemma line_counts_events: "line_counts opts l = map (\<lambda>e. event_count e l) (event_names opts)"
  by (simp add: line_counts_def event_names_def event_count_def)

lemma read_ULongs:
  assumes "cs = map (\<lambda>e. event_count e l) (event_names opts)"
  obtains c cs' where "cs = c # cs'" and
    "cg_line_to_CC n (event_names opts) (show_nat (unat c) @ show_ULongs cs' @ [CHR 0x0A]) = Inr (count_fields (event_names opts) l)"
proof -
  obtain c cs' where cs: "cs = c # cs'"
    using assms by (simp add: event_names_def)
  have fs: "count_fields (event_names opts) l = map (show_nat \<circ> unat) (c # cs')"
    unfolding cs [symmetric] assms by (simp add: count_fields_def)
  then have "length (c # cs') = length (event_names opts)"
    unfolding count_fields_def by (metis length_map)
  then show ?thesis
    by (intro that [OF cs]) (simp only: cg_line_to_CC_def perl_split_ULongs fs Let_def length_map order_refl if_True)
qed

lemma read_LineCC:
  assumes "ann_events r = event_names opts"
  shows "read_body_line o1 n (print_LineCC opts line l) r =
    (case currFuncCC r of None \<Rightarrow> Inl (Exit_with ''Died'')
     | Some k \<Rightarrow>
       let CC = count_fields (event_names opts) l;
           r = r\<lparr>fn_totals := (fn_totals r)(k \<mapsto> add_array_a_to_b CC (cell (fn_totals r) k))\<rparr>
       in case currFileName r of
           None \<Rightarrow> Inr r
         | Some f \<Rightarrow>
             if auto_annotate o1 \<or> f \<in> set (user_ann_files o1) then
               let m = (case allCCs r f of Some m \<Rightarrow> m | None \<Rightarrow> Map.empty)
               in Inr (r\<lparr>allCCs := (allCCs r)(f \<mapsto> m(show_Int line \<mapsto> add_array_a_to_b CC (cell m (show_Int line))))\<rparr>)
             else Inr r)"
proof -
  obtain c cs where cs: "line_counts opts l = c # cs" and
    CC: "cg_line_to_CC n (event_names opts) (show_nat (unat c) @ show_ULongs cs @ [CHR 0x0A]) = Inr (count_fields (event_names opts) l)"
    using read_ULongs [OF line_counts_events] .
  have l: "print_LineCC opts line l = show_Int line @ CHR '' '' # show_nat (unat c) @ show_ULongs cs @ [CHR 0x0A]"
    by (simp add: print_LineCC_def cs show_ULongs_def)
  obtain x xs where x: "show_Int line = x # xs" "x = CHR ''-'' \<or> perl_digit x"
    using perl_digit_show_nat [of "hd (show_nat (nat line))" "nat line"]
    by (cases "line < 0"; cases "show_nat (nat line)") (auto simp: show_Int_def)
  have "strip_number (print_LineCC opts line l) = Some (show_Int line, show_nat (unat c) @ show_ULongs cs @ [CHR 0x0A])"
    by (simp only: l strip_number_show_Int dropWhile_show_nat)
  moreover have "\<not> list_all is_ws (print_LineCC opts line l)" "take 1 (print_LineCC opts line l) \<noteq> ''#''"
    using x perl_digit_plain [of x] by (auto simp: l is_ws_def)
  ultimately show ?thesis
    by (cases "currFuncCC r"; cases "currFileName r") (simp_all add: read_body_line_def read_count_line_def assms CC Let_def)
qed

lemma not_number: "\<not> perl_digit c \<Longrightarrow> c \<noteq> CHR ''-'' \<Longrightarrow> strip_number (c # s) = None"
  by (simp add: strip_number_def)

lemma read_fl_fn:
  assumes "no_newline s"
  shows "read_body_line o1 n (''fl='' @ s @ [CHR 0x0A]) r = Inr (read_fl_line s r)"
    "read_body_line o1 n (''fn='' @ s @ [CHR 0x0A]) r = Inr (read_fn_line s r)"
proof -
  have "\<not> perl_digit CHR ''f''" "\<not> is_ws CHR ''f''"
    by (simp_all add: perl_digit_def is_dec_digit_def is_ws_def)
  moreover have "takeWhile (\<lambda>c. c \<noteq> CHR 0x0A) (s @ [CHR 0x0A]) = s"
    using assms by (subst takeWhile_append2) (auto simp: no_newline_def)
  ultimately show "read_body_line o1 n (''fl='' @ s @ [CHR 0x0A]) r = Inr (read_fl_line s r)"
    "read_body_line o1 n (''fn='' @ s @ [CHR 0x0A]) r = Inr (read_fn_line s r)"
    by (simp_all add: read_body_line_def not_number strip_key_def)
qed

text \<open>The lines that the traversal prints for one location, after what it printed before.\<close>

definition new_lines :: "CgOpts \<Rightarrow> (CodeLoc \<Rightarrow> LineCC) \<Rightarrow> CodeLoc \<Rightarrow> printer \<Rightarrow> string list" where
  "new_lines opts cc l p =
     (if Some (loc_file l) \<noteq> currFile p then [''fl='' @ loc_file l] else []) @
     (if Some (loc_file l) \<noteq> currFile p \<or> Some (loc_fn l) \<noteq> currFn p then [''fn='' @ loc_fn l] else []) @
     [show_Int (loc_line l) @ show_ULongs (line_counts opts (cc l))]"

lemma print_line_out:
  "pr_out (print_line opts cc l p) = pr_out p @ concat (map nl (new_lines opts cc l p))"
  by (simp add: print_line_def new_lines_def print_LineCC_def Let_def)

lemma show_no_newline: "no_newline (show_nat n)" "no_newline (show_Int i)" "no_newline (show_ULongs cs)"
proof -
  have n: "CHR 0x0A \<notin> set (show_nat n)" for n
    using show_nat_no_ws [of "CHR 0x0A" n] by (auto simp: is_ws_def)
  then show "no_newline (show_nat n)" "no_newline (show_Int i)" "no_newline (show_ULongs cs)"
    by (auto simp: no_newline_def show_Int_def show_ULongs_def)
qed

lemma new_lines_no_newline:
  assumes "no_newline (loc_file l)" and "no_newline (loc_fn l)" and "x \<in> set (new_lines opts cc l p)"
  shows "no_newline x"
  using assms show_no_newline(2) [of "loc_line l"] show_no_newline(3) [of "line_counts opts (cc l)"]
  by (auto simp: new_lines_def no_newline_def split: if_splits)

definition remembered :: "ann_opts \<Rightarrow> string \<Rightarrow> bool" where
  "remembered o1 f \<longleftrightarrow> auto_annotate o1 \<or> f \<in> set (user_ann_files o1)"

text \<open>The reader in the file and the function of the printer.\<close>

definition at_printer :: "printer \<Rightarrow> annotate \<Rightarrow> bool" where
  "at_printer p r \<longleftrightarrow> currFileName r = currFile p \<and>
     (\<forall>f. currFile p = Some f \<longrightarrow> (\<exists>fn. currFn p = Some fn \<and> currFuncCC r = Some (f @ '':'' @ fn)))"

lemma read_fl_line_simps:
  "currFileName (read_fl_line f r) = Some f" "line_CC (read_fl_line f r) = line_CC r"
  "fn_totals (read_fl_line f r) = fn_totals r" "ann_events (read_fl_line f r) = ann_events r"
  "ann_cmd (read_fl_line f r) = ann_cmd r"
  by (auto simp: read_fl_line_def line_CC_def fun_eq_iff)

lemma read_fn_line_simps:
  assumes "currFileName r = Some f"
  shows "currFuncCC (read_fn_line fn r) = Some (f @ '':'' @ fn)" "line_CC (read_fn_line fn r) = line_CC r"
    "cell (fn_totals (read_fn_line fn r)) = cell (fn_totals r)"
    "(fn_totals (read_fn_line fn r))(f @ '':'' @ fn \<mapsto> a) = (fn_totals r)(f @ '':'' @ fn \<mapsto> a)"
    "currFileName (read_fn_line fn r) = Some f" "ann_events (read_fn_line fn r) = ann_events r"
    "ann_cmd (read_fn_line fn r) = ann_cmd r"
  using assms by (auto simp: read_fn_line_def line_CC_def cell_def fun_eq_iff Let_def)

text \<open>The lines \<open>fl=\<close> and \<open>fn=\<close> of a location take the reader to it.\<close>

lemma read_position:
  assumes "at_printer p r" and "no_newline (loc_file l)" and "no_newline (loc_fn l)"
  obtains r' where "read_body o1 n (map nl (butlast (new_lines opts cc l p))) r = Inr r'"
    and "currFileName r' = Some (loc_file l)" and "currFuncCC r' = Some (fn_key l)"
    and "line_CC r' = line_CC r" and "cell (fn_totals r') = cell (fn_totals r)"
    and "\<forall>a. (fn_totals r')(fn_key l \<mapsto> a) = (fn_totals r)(fn_key l \<mapsto> a)"
    and "ann_events r' = ann_events r" and "ann_cmd r' = ann_cmd r"
proof (cases "Some (loc_file l) \<noteq> currFile p")
  case True
  let ?r = "read_fn_line (loc_fn l) (read_fl_line (loc_file l) r)"
  have "read_body o1 n (map nl (butlast (new_lines opts cc l p))) r = Inr ?r"
    using True assms by (simp add: new_lines_def read_fl_fn [simplified])
  then show ?thesis
    using that [of ?r] read_fn_line_simps [of "read_fl_line (loc_file l) r" "loc_file l" "loc_fn l"]
    by (simp add: read_fl_line_simps fn_key_def)
next
  case same: False
  show ?thesis
  proof (cases "Some (loc_fn l) \<noteq> currFn p")
    case True
    let ?r = "read_fn_line (loc_fn l) r"
    have "read_body o1 n (map nl (butlast (new_lines opts cc l p))) r = Inr ?r"
      using True same assms by (simp add: new_lines_def read_fl_fn [simplified])
    moreover have "currFileName r = Some (loc_file l)"
      using same assms(1) by (simp add: at_printer_def)
    ultimately show ?thesis
      using that [of ?r] read_fn_line_simps [of r "loc_file l" "loc_fn l"] by (simp add: fn_key_def)
  next
    case False
    then have "read_body o1 n (map nl (butlast (new_lines opts cc l p))) r = Inr r"
      using same by (simp add: new_lines_def)
    moreover have p: "currFile p = Some (loc_file l)" "currFn p = Some (loc_fn l)"
      using same False by (metis)+
    have "currFileName r = Some (loc_file l)" "currFuncCC r = Some (fn_key l)"
      using assms(1) by (simp_all add: at_printer_def fn_key_def p)
    ultimately show ?thesis
      using that [of r] by simp
  qed
qed

text \<open>The tables of the reader hold the sums over the locations read.\<close>

definition read_inv :: "ann_opts \<Rightarrow> string list \<Rightarrow> (CodeLoc \<Rightarrow> LineCC) \<Rightarrow> CodeLoc list \<Rightarrow> annotate \<Rightarrow> bool" where
  "read_inv o1 evs cc locs r \<longleftrightarrow> ann_events r = evs \<and> fn_totals r = sum_table evs cc locs fn_key \<and>
     (\<lambda>(f, n). line_CC r f n) =
       sum_table evs cc (filter (\<lambda>l. remembered o1 (loc_file l)) locs) (\<lambda>l. (loc_file l, show_Int (loc_line l)))"

lemma read_count:
  assumes "ann_events r = event_names opts" and "currFileName r = Some f" and "currFuncCC r = Some k"
  obtains r' where "read_body_line o1 n (print_LineCC opts line l) r = Inr r'"
    and "currFileName r' = Some f" and "currFuncCC r' = Some k"
    and "ann_events r' = ann_events r" and "ann_cmd r' = ann_cmd r"
    and "fn_totals r' = (fn_totals r)(k \<mapsto> add_array_a_to_b (count_fields (event_names opts) l) (cell (fn_totals r) k))"
    and "(\<lambda>(f, n). line_CC r' f n) = (if remembered o1 f
      then (\<lambda>(f, n). line_CC r f n)((f, show_Int line) \<mapsto> add_array_a_to_b (count_fields (event_names opts) l)
             (case line_CC r f (show_Int line) of Some a \<Rightarrow> a | None \<Rightarrow> []))
      else (\<lambda>(f, n). line_CC r f n))"
proof -
  let ?CC = "count_fields (event_names opts) l" and ?n = "show_Int line"
  let ?m = "case allCCs r f of Some m \<Rightarrow> m | None \<Rightarrow> Map.empty"
  define r1 where "r1 = r\<lparr>fn_totals := (fn_totals r)(k \<mapsto> add_array_a_to_b ?CC (cell (fn_totals r) k))\<rparr>"
  define r2 where "r2 = (if remembered o1 f
    then r1\<lparr>allCCs := (allCCs r)(f \<mapsto> ?m(?n \<mapsto> add_array_a_to_b ?CC (cell ?m ?n)))\<rparr> else r1)"
  have "read_body_line o1 n (print_LineCC opts line l) r = Inr r2"
    unfolding read_LineCC [OF assms(1)] using assms(2,3)
    by (simp add: r1_def r2_def remembered_def Let_def)
  moreover have "line_CC r f n' = ?m n'" for n'
    by (simp add: line_CC_def split: option.splits)
  then have "cell ?m ?n = (case line_CC r f ?n of Some a \<Rightarrow> a | None \<Rightarrow> [])"
    by (simp add: cell_def)
  then have "(\<lambda>(f, n). line_CC r2 f n) = (if remembered o1 f
      then (\<lambda>(f, n). line_CC r f n)((f, ?n) \<mapsto> add_array_a_to_b ?CC (case line_CC r f ?n of Some a \<Rightarrow> a | None \<Rightarrow> []))
      else (\<lambda>(f, n). line_CC r f n))"
    by (auto simp: r1_def r2_def line_CC_def fun_eq_iff split: option.splits)
  ultimately show ?thesis
    using assms by (intro that [of r2]) (simp_all add: r1_def r2_def)
qed

lemma read_new_lines:
  assumes "at_printer p r" and "read_inv o1 (event_names opts) cc locs r"
    and "no_newline (loc_file l)" and "no_newline (loc_fn l)"
  obtains r' where "read_body o1 n (map nl (new_lines opts cc l p)) r = Inr r'"
    and "at_printer (print_line opts cc l p) r'" and "read_inv o1 (event_names opts) cc (locs @ [l]) r'"
    and "ann_cmd r' = ann_cmd r"
proof -
  let ?evs = "event_names opts" and ?key = "\<lambda>l. (loc_file l, show_Int (loc_line l))"
  obtain r1 where r1: "read_body o1 n (map nl (butlast (new_lines opts cc l p))) r = Inr r1"
    "currFileName r1 = Some (loc_file l)" "currFuncCC r1 = Some (fn_key l)" "line_CC r1 = line_CC r"
    "cell (fn_totals r1) = cell (fn_totals r)" "\<forall>a. (fn_totals r1)(fn_key l \<mapsto> a) = (fn_totals r)(fn_key l \<mapsto> a)"
    "ann_events r1 = ann_events r" "ann_cmd r1 = ann_cmd r"
    by (rule read_position [OF assms(1,3,4), of o1 n opts cc])
  have inv: "ann_events r = ?evs" "fn_totals r = sum_table ?evs cc locs fn_key"
    "(\<lambda>(f, n). line_CC r f n) = sum_table ?evs cc (filter (\<lambda>l. remembered o1 (loc_file l)) locs) ?key"
    using assms(2) by (simp_all add: read_inv_def)
  have "ann_events r1 = ?evs" using r1(7) inv(1) by simp
  then obtain r2 where r2: "read_body_line o1 (n + length (butlast (new_lines opts cc l p))) (print_LineCC opts (loc_line l) (cc l)) r1 = Inr r2"
    "currFileName r2 = Some (loc_file l)" "currFuncCC r2 = Some (fn_key l)" "ann_events r2 = ann_events r1" "ann_cmd r2 = ann_cmd r1"
    "fn_totals r2 = (fn_totals r1)(fn_key l \<mapsto> add_array_a_to_b (count_fields ?evs (cc l)) (cell (fn_totals r1) (fn_key l)))"
    "(\<lambda>(f, n). line_CC r2 f n) = (if remembered o1 (loc_file l)
      then (\<lambda>(f, n). line_CC r1 f n)(?key l \<mapsto> add_array_a_to_b (count_fields ?evs (cc l))
             (case line_CC r1 (loc_file l) (show_Int (loc_line l)) of Some a \<Rightarrow> a | None \<Rightarrow> []))
      else (\<lambda>(f, n). line_CC r1 f n))"
    by (rule read_count [OF _ r1(2,3)])
  have split: "new_lines opts cc l p = butlast (new_lines opts cc l p) @ [show_Int (loc_line l) @ show_ULongs (line_counts opts (cc l))]"
    by (simp add: new_lines_def)
  have "read_body o1 n (map nl (new_lines opts cc l p)) r = Inr r2"
    using r1(1) r2(1)
    by (subst split) (simp add: read_body_append print_LineCC_def del: butlast_append)
  moreover have "fn_totals r2 = sum_table ?evs cc (locs @ [l]) fn_key"
    unfolding r2(6) r1(5) r1(6) [rule_format] inv(2) by (simp add: cell_def sum_table_snoc)
  moreover have lines: "(\<lambda>(f, n). line_CC r1 f n) = sum_table ?evs cc (filter (\<lambda>l. remembered o1 (loc_file l)) locs) ?key"
    unfolding r1(4) by (rule inv(3))
  have "line_CC r1 f n = sum_table ?evs cc (filter (\<lambda>l. remembered o1 (loc_file l)) locs) ?key (f, n)" for f n
    using fun_cong [OF lines, of "(f, n)"] by simp
  then have "(\<lambda>(f, n). line_CC r2 f n) =
      sum_table ?evs cc (filter (\<lambda>l. remembered o1 (loc_file l)) (locs @ [l])) ?key"
    unfolding r2(7) lines
    using sum_table_snoc [of ?evs cc "filter (\<lambda>l. remembered o1 (loc_file l)) locs" ?key l] by simp
  moreover have "at_printer (print_line opts cc l p) r2"
    using r2(2,3) by (simp add: at_printer_def print_line_distinct fn_key_def)
  ultimately show ?thesis
    using that [of r2] r2(4,5) r1(7,8) inv(1) by (simp add: read_inv_def)
qed

lemma read_traversal:
  assumes "\<forall>l \<in> set locs. no_newline (loc_file l) \<and> no_newline (loc_fn l)"
    and "at_printer (start_printer hdr) r" and "read_inv o1 (event_names opts) cc [] r"
  shows "\<exists>ls r'. pr_out (fold (print_line opts cc) locs (start_printer hdr)) = hdr @ concat (map nl ls) \<and>
    (\<forall>x \<in> set ls. no_newline x) \<and> read_body o1 n (map nl ls) r = Inr r' \<and>
    at_printer (fold (print_line opts cc) locs (start_printer hdr)) r' \<and>
    read_inv o1 (event_names opts) cc locs r' \<and> ann_cmd r' = ann_cmd r"
  using assms
proof (induction locs rule: rev_induct)
  case Nil
  then show ?case
    by (intro exI [of _ "[]"] exI [of _ r]) (simp add: start_printer_def)
next
  case (snoc l locs)
  let ?p = "fold (print_line opts cc) locs (start_printer hdr)"
  obtain ls r1 where 1: "pr_out ?p = hdr @ concat (map nl ls)" "\<forall>x \<in> set ls. no_newline x"
    "read_body o1 n (map nl ls) r = Inr r1" "at_printer ?p r1" "read_inv o1 (event_names opts) cc locs r1" "ann_cmd r1 = ann_cmd r"
    using snoc by auto
  have l: "no_newline (loc_file l)" "no_newline (loc_fn l)" using snoc.prems(1) by simp_all
  obtain r2 where 2: "read_body o1 (n + length ls) (map nl (new_lines opts cc l ?p)) r1 = Inr r2"
    "at_printer (print_line opts cc l ?p) r2" "read_inv o1 (event_names opts) cc (locs @ [l]) r2" "ann_cmd r2 = ann_cmd r1"
    using read_new_lines [OF 1(4,5) l] by metis
  show ?case
    using 1 2 new_lines_no_newline [OF l]
    by (intro exI [of _ "ls @ new_lines opts cc l ?p"] exI [of _ r2])
      (auto simp: print_line_out read_body_append)
qed

section \<open>Totals and header\<close>

lemma total_counts_add:
  "total_counts opts (add_line l t) = map2 (+) (total_counts opts t) (line_counts opts l)"
  by (simp add: total_counts_def line_counts_def add_line_def add_cache_def add_branch_def)

lemma total_counts_distinct [simp]:
  "total_counts opts (t\<lparr>distinct_files := x\<rparr>) = total_counts opts t"
  "total_counts opts (t\<lparr>distinct_fns := x\<rparr>) = total_counts opts t"
  by (simp_all add: total_counts_def)

lemma fold_print_line_totals:
  "total_counts opts (pr_totals (fold (print_line opts cc) locs (start_printer hdr))) =
     map (\<lambda>e. \<Sum>l\<leftarrow>locs. event_count e (cc l)) (event_names opts)"
proof (induction locs rule: rev_induct)
  case Nil
  then show ?case
    by (simp add: start_printer_def zero_totals_def total_counts_def zero_cache_def zero_branch_def event_names_def)
next
  case (snoc l locs)
  have "total_counts opts (pr_totals (print_line opts cc l p)) =
      map2 (+) (total_counts opts (pr_totals p)) (line_counts opts (cc l))" for p
    by (simp add: print_line_def Let_def total_counts_add)
  then show ?case
    using snoc by (simp add: line_counts_events zip_map_map zip_same_conv_map)
qed

lemma unat_sum_list:
  fixes f :: "'a \<Rightarrow> ULong"
  shows "(\<Sum>x\<leftarrow>xs. int (unat (f x))) < 2 ^ 64 \<Longrightarrow> int (unat (\<Sum>x\<leftarrow>xs. f x)) = (\<Sum>x\<leftarrow>xs. int (unat (f x)))"
proof (induction xs)
  case (Cons x xs)
  have "(\<Sum>y\<leftarrow>x # xs. int (unat (f y))) = int (unat (f x)) + (\<Sum>y\<leftarrow>xs. int (unat (f y)))" by simp
  then have "(\<Sum>y\<leftarrow>xs. int (unat (f y))) < 2 ^ 64" using Cons.prems by linarith
  then have "int (unat (\<Sum>x\<leftarrow>xs. f x)) = (\<Sum>x\<leftarrow>xs. int (unat (f x)))" by (rule Cons.IH)
  moreover from this have "uint (f x) + uint (\<Sum>x\<leftarrow>xs. f x) < 2 ^ LENGTH(64)"
    using Cons.prems by simp
  then have "uint (f x + (\<Sum>x\<leftarrow>xs. f x)) = uint (f x) + uint (\<Sum>x\<leftarrow>xs. f x)"
    by (simp only: uint_add_lem)
  ultimately show ?case
    by simp
qed simp

lemma read_summary:
  assumes "ann_events r = event_names opts" and "length (total_counts opts t) = length (event_names opts)"
  shows "read_body_line o1 n (print_summary opts t) r =
    Inr (r\<lparr>summary_CC := Some (map (show_nat \<circ> unat) (total_counts opts t))\<rparr>)"
proof -
  obtain c cs where cs: "total_counts opts t = c # cs"
    using assms(2) by (cases "total_counts opts t") (simp_all add: event_names_def)
  have s: "print_summary opts t = ''summary:'' @ CHR '' '' # show_nat (unat c) @ show_ULongs cs @ [CHR 0x0A]"
    by (simp add: print_summary_def cs show_ULongs_def)
  have ws: "\<not> perl_digit CHR ''s''" "\<not> is_ws CHR ''s''" "is_ws CHR '' ''"
    by (simp_all add: perl_digit_def is_dec_digit_def is_ws_def)
  have "strip_word ''summary:'' (print_summary opts t) = Some (show_nat (unat c) @ show_ULongs cs @ [CHR 0x0A])"
    using ws by (simp add: s strip_word_def dropWhile_show_nat)
  moreover have "strip_number (print_summary opts t) = None" "strip_key ''fn='' (print_summary opts t) = None"
    "strip_key ''fl='' (print_summary opts t) = None" "\<not> list_all is_ws (print_summary opts t)"
    "take 1 (print_summary opts t) \<noteq> ''#''"
    using ws by (simp_all add: s not_number strip_key_def)
  moreover have "cg_line_to_CC n (ann_events r) (show_nat (unat c) @ show_ULongs cs @ [CHR 0x0A]) =
      Inr (map (show_nat \<circ> unat) (total_counts opts t))"
    using assms by (simp only: cg_line_to_CC_def perl_split_ULongs Let_def cs length_map order_refl if_True)
  ultimately show ?thesis
    using assms by (simp add: read_body_line_def)
qed

definition events_text :: "CgOpts \<Rightarrow> string" where
  "events_text opts = butlast (tl (events_line opts))"

lemma events_line_read:
  "events_line opts = CHR 0x0A # nl (events_text opts)" "no_newline (events_text opts)"
  "\<exists>evs. strip_word ''events:'' (nl (events_text opts)) = Some evs \<and> perl_split evs = event_names opts"
proof -
  show "events_line opts = CHR 0x0A # nl (events_text opts)" "no_newline (events_text opts)"
    by (simp_all add: events_text_def events_line_def no_newline_def)
  consider "clo_cache_sim opts" "clo_branch_sim opts" | "clo_cache_sim opts" "\<not> clo_branch_sim opts"
    | "\<not> clo_cache_sim opts" "clo_branch_sim opts" | "\<not> clo_cache_sim opts" "\<not> clo_branch_sim opts"
    by blast
  then show "\<exists>evs. strip_word ''events:'' (nl (events_text opts)) = Some evs \<and> perl_split evs = event_names opts"
    by cases (simp_all add: events_text_def events_line_def event_names_def strip_word_def is_ws_def perl_split_def)
qed

lemma chomp_strip: "chomp (dropWhile is_ws (nl t)) = dropWhile is_ws t"
proof -
  have "chomp (nl u) = u" "chomp [] = []" "is_ws CHR 0x0A" for u
    by (simp_all add: chomp_def is_ws_def)
  then show ?thesis
    by (simp add: dropWhile_append) (metis dropWhile_eq_Nil_conv)
qed

section \<open>Properties\<close>

text \<open>The lines of the header.\<close>

definition header_strings :: "CgOpts \<Rightarrow> cachesim \<Rightarrow> string \<Rightarrow> string list \<Rightarrow> string list" where
  "header_strings opts s exename args =
     [''desc: I1 cache:         '' @ c2_desc_line (sim_I1 s), ''desc: D1 cache:         '' @ c2_desc_line (sim_D1 s),
      ''desc: LL cache:         '' @ c2_desc_line (sim_LL s), cmd_line exename args, events_text opts]"

lemma header_text_strings: "header_text opts s exename args = concat (map nl (header_strings opts s exename args))"
  by (simp add: header_text_def header_strings_def desc_lines_def events_line_read(1))

lemma header_strings_no_newline:
  "header_ok s exename args \<Longrightarrow> x \<in> set (header_strings opts s exename args) \<Longrightarrow> no_newline x"
  using events_line_read(2) [of opts] by (auto simp: header_strings_def header_ok_def no_newline_def)

text \<open>The variables of the script after the header.\<close>

definition after_header :: "CgOpts \<Rightarrow> cachesim \<Rightarrow> string \<Rightarrow> string list \<Rightarrow> annotate" where
  "after_header opts s exename args =
     \<lparr>ann_desc = nl (''I1 cache:         '' @ c2_desc_line (sim_I1 s)) @ nl (''D1 cache:         '' @ c2_desc_line (sim_D1 s)) @
        nl (''LL cache:         '' @ c2_desc_line (sim_LL s)),
      ann_cmd = dropWhile is_ws (exename @ concat (map (\<lambda>a. '' '' @ a) args)),
      ann_events = event_names opts, summary_CC = None,
      fn_totals = Map.empty, allCCs = Map.empty, currFileName = None, currFuncCC = None\<rparr>"

lemma read_header:
  assumes "header_ok s exename args" and "\<forall>x \<in> set ls. no_newline x"
  shows "read_input_file o1 (header_text opts s exename args @ concat (map nl ls)) =
    cbind (read_body o1 6 (map nl ls) (after_header opts s exename args)) (\<lambda>r.
    if summary_CC r = None then Inl (Exit_with (''missing final summary line, aborting'' @ [CHR 0x0A])) else Inr r)"
proof -
  let ?hs = "header_strings opts s exename args" and ?t = "exename @ concat (map (\<lambda>a. '' '' @ a) args)"
  have "perl_lines [] (concat (map nl (?hs @ ls)) @ []) = map nl (?hs @ ls) @ perl_lines [] []"
    using assms header_strings_no_newline by (intro perl_lines_text) auto
  then have lines: "perl_lines [] (header_text opts s exename args @ concat (map nl ls)) = map nl ?hs @ map nl ls"
    by (simp add: header_text_strings)
  have ws: "is_ws CHR '' ''" "\<not> is_ws CHR ''I''" "\<not> is_ws CHR ''D''" "\<not> is_ws CHR ''L''"
    by (simp_all add: is_ws_def)
  have cmd: "strip_first ''desc:'' (nl (cmd_line exename args)) = None"
    using assms(1) by (intro strip_first_none) (simp_all add: header_ok_def no_newline_def)
  have desc: "read_desc 0 (map nl ?hs @ map nl ls) =
      (ann_desc (after_header opts s exename args), nl (cmd_line exename args), 4, nl (events_text opts) # map nl ls)"
    using ws cmd by (simp add: header_strings_def strip_word_def after_header_def)
  have "strip_word ''cmd:'' (nl (cmd_line exename args)) = Some (dropWhile is_ws (nl ?t))"
    using ws by (simp add: cmd_line_def strip_word_def)
  moreover obtain evs where "strip_word ''events:'' (nl (events_text opts)) = Some evs" "perl_split evs = event_names opts"
    using events_line_read(3) by blast
  ultimately show ?thesis
    using chomp_strip [of ?t] by (simp add: read_input_file_def lines desc) (simp add: after_header_def)
qed

lemma read_output:
  fixes opts :: CgOpts and cc :: "CodeLoc \<Rightarrow> LineCC" and locs :: "CodeLoc list"
  assumes "header_ok s exename args"
    and "\<forall>l \<in> set locs. no_newline (loc_file l) \<and> no_newline (loc_fn l)"
  defines "p \<equiv> fold (print_line opts cc) locs (start_printer (header_text opts s exename args))"
  obtains r where "read_input_file o1 (pr_out p @ print_summary opts (pr_totals p)) = Inr r"
    and "read_inv o1 (event_names opts) cc locs r"
    and "summary_CC r = Some (map (\<lambda>e. show_nat (unat (\<Sum>l\<leftarrow>locs. event_count e (cc l)))) (event_names opts))"
proof -
  let ?hdr = "header_text opts s exename args" and ?evs = "event_names opts"
  let ?start = "after_header opts s exename args" and ?s = "''summary:'' @ show_ULongs (total_counts opts (pr_totals p))"
  have "at_printer (start_printer ?hdr) ?start" "read_inv o1 ?evs cc [] ?start"
    by (auto simp: after_header_def at_printer_def start_printer_def read_inv_def sum_table_def line_CC_def fun_eq_iff)
  then obtain ls r1 where ls: "pr_out p = ?hdr @ concat (map nl ls)" "\<forall>x \<in> set ls. no_newline x"
    and r1: "read_body o1 6 (map nl ls) ?start = Inr r1" "read_inv o1 ?evs cc locs r1"
    unfolding p_def using read_traversal [OF assms(2), of ?hdr ?start o1 opts cc 6] by blast
  have tot: "total_counts opts (pr_totals p) = map (\<lambda>e. \<Sum>l\<leftarrow>locs. event_count e (cc l)) ?evs"
    unfolding p_def by (rule fold_print_line_totals)
  let ?r = "r1\<lparr>summary_CC := Some (map (show_nat \<circ> unat) (total_counts opts (pr_totals p)))\<rparr>"
  have "read_body_line o1 n (nl ?s) r1 = Inr ?r" for n
    using read_summary [of r1 opts "pr_totals p" o1 n] r1(2)
    by (simp add: read_inv_def tot print_summary_def)
  then have "read_body o1 6 (map nl (ls @ [?s])) ?start = Inr ?r"
    using r1(1) by (simp add: read_body_append)
  moreover have "\<forall>x \<in> set (ls @ [?s]). no_newline x"
    using ls(2) show_no_newline(3) [of "total_counts opts (pr_totals p)"] by (auto simp: no_newline_def)
  ultimately have "read_input_file o1 (?hdr @ concat (map nl (ls @ [?s]))) = Inr ?r"
    by (simp only: read_header [OF assms(1)]) simp
  moreover have "pr_out p @ print_summary opts (pr_totals p) = ?hdr @ concat (map nl (ls @ [?s]))"
    by (simp add: ls(1) print_summary_def)
  moreover have "read_inv o1 ?evs cc locs ?r"
    using r1(2) by (simp add: read_inv_def line_CC_def)
  ultimately show ?thesis
    by (intro that [of ?r]) (simp_all add: tot)
qed

text \<open>
  C6: The output file of Cachegrind, read by \<open>cg_annotate\<close>, tells under the name of each event what was
  counted. For a table whose sums fit 64 bits, with names that the format can carry, the script reads
  the text without an error; it finds the events that the options turned on; and for every event the
  summary is the sum over the whole table, the total of a function is the sum over the lines with
  its name, and the count of a line of a source file that is to be annotated is the sum over the
  functions on that line. It has no entry for a function or a line that is not in the table.
\<close>

theorem fprint_roundtrip:
  assumes "tables_ok st" and "length (elements (CC_table st)) < 9227464"
    and "header_ok (sim st) exename args"
    and "\<forall>l \<in> set (elements (CC_table st)). no_newline (loc_file l) \<and> no_newline (loc_fn l)"
    and "\<forall>e \<in> set (event_names opts). event_sum st (\<lambda>l. True) e < 2 ^ 64"
  shows "\<exists>out t r. fprint_CC_table_and_calc_totals opts True exename args st = Inr (Some out, t) \<and>
    read_input_file o1 out = Inr r \<and> ann_events r = event_names opts \<and>
    map_option (map perl_int) (summary_CC r) = Some (map (event_sum st (\<lambda>l. True)) (event_names opts)) \<and>
    (\<forall>k. fn_totals r k =
       (if \<exists>l \<in> set (elements (CC_table st)). fn_key l = k
        then Some (map (\<lambda>e. Some (event_sum st (\<lambda>l. fn_key l = k) e)) (event_names opts)) else None)) \<and>
    (\<forall>f n. line_CC r f (show_Int n) =
       (if remembered o1 f \<and> (\<exists>l \<in> set (elements (CC_table st)). loc_file l = f \<and> loc_line l = n)
        then Some (map (\<lambda>e. Some (event_sum st (\<lambda>l. loc_file l = f \<and> loc_line l = n) e)) (event_names opts)) else None))"
proof -
  let ?L = "elements (CC_table st)" and ?evs = "event_names opts" and ?cc = "ccs st"
  let ?p = "fold (print_line opts ?cc) ?L (start_printer (header_text opts (sim st) exename args))"
  obtain r where r: "read_input_file o1 (pr_out ?p @ print_summary opts (pr_totals ?p)) = Inr r"
    "read_inv o1 ?evs ?cc ?L r"
    "summary_CC r = Some (map (\<lambda>e. show_nat (unat (\<Sum>l\<leftarrow>?L. event_count e (?cc l)))) ?evs)"
    by (rule read_output [OF assms(3,4)])
  have summary: "map_option (map perl_int) (summary_CC r) = Some (map (event_sum st (\<lambda>l. True)) ?evs)"
    using assms(5) unat_sum_list [of "\<lambda>l. event_count e (?cc l)" ?L for e] by (auto simp: r(3) event_sum_def)
  have sums: "count_sums ?evs ?cc (filter P ?L) = map (\<lambda>e. Some (event_sum st P e)) ?evs" for P
    by (simp add: count_sums_def event_sum_def)
  have fns: "fn_totals r k = (if \<exists>l \<in> set ?L. fn_key l = k
      then Some (map (\<lambda>e. Some (event_sum st (\<lambda>l. fn_key l = k) e)) ?evs) else None)" for k
    using r(2) sums [of "\<lambda>l. fn_key l = k"] by (auto simp: read_inv_def sum_table_def)
  have lines: "line_CC r f (show_Int n) = (if remembered o1 f \<and> (\<exists>l \<in> set ?L. loc_file l = f \<and> loc_line l = n)
      then Some (map (\<lambda>e. Some (event_sum st (\<lambda>l. loc_file l = f \<and> loc_line l = n) e)) ?evs) else None)" for f n
  proof -
    have "(\<lambda>(f, n). line_CC r f n) = sum_table ?evs ?cc (filter (\<lambda>l. remembered o1 (loc_file l)) ?L)
        (\<lambda>l. (loc_file l, show_Int (loc_line l)))"
      using r(2) by (simp add: read_inv_def)
    from fun_cong [OF this, of "(f, show_Int n)"]
    have "line_CC r f (show_Int n) = sum_table ?evs ?cc (filter (\<lambda>l. remembered o1 (loc_file l)) ?L)
        (\<lambda>l. (loc_file l, show_Int (loc_line l))) (f, show_Int n)"
      by simp
    moreover have "filter (\<lambda>l. (loc_file l, show_Int (loc_line l)) = (f, show_Int n)) (filter (\<lambda>l. remembered o1 (loc_file l)) ?L) =
        filter (\<lambda>l. loc_file l = f \<and> loc_line l = n) ?L" if "remembered o1 f"
      using that by (auto simp: intro: filter_cong)
    ultimately show ?thesis
      using sums [of "\<lambda>l. loc_file l = f \<and> loc_line l = n"] by (auto simp: sum_table_def)
  qed
  show ?thesis
    using fprint_out [OF assms(1,2)] r(1,2) summary fns lines by (auto simp: read_inv_def)
qed

definition demo_line :: LineCC where
  "demo_line = \<lparr>line_Ir = \<lparr>cc_a = 90, cc_m1 = 8, cc_mL = 7\<rparr>, line_Dr = \<lparr>cc_a = 60, cc_m1 = 5, cc_mL = 4\<rparr>,
     line_Dw = \<lparr>cc_a = 30, cc_m1 = 2, cc_mL = 1\<rparr>, line_Bc = \<lparr>cc_b = 12, cc_mp = 11\<rparr>, line_Bi = \<lparr>cc_b = 10, cc_mp = 9\<rparr>\<rparr>"

definition demo_info :: debuginfo where
  "demo_info = \<lparr>get_filename_linenum = (\<lambda>_. Some (''a.c'', ''/src'', 7)), get_fnname = (\<lambda>_. Some ''main'')\<rparr>"

abbreviation demo_loc :: CodeLoc where
  "demo_loc \<equiv> \<lparr>loc_file = ''/src/a.c'', loc_fn = ''main'', loc_line = 7\<rparr>"

lemma demo_table:
  obtains st where "get_lineCC demo_info 4096 (empty_cg demo_sim) = Inr (demo_loc, st)" and "tables_ok st"
    and "elements (CC_table st) = [demo_loc]" and "sim st = demo_sim"
proof -
  have l: "loc_of demo_info 4096 = demo_loc"
    by (simp add: loc_of_def demo_info_def absfile_def)
  obtain st where st: "get_lineCC demo_info 4096 (empty_cg demo_sim) = Inr (demo_loc, st)" "tables_ok st"
    "set (elements (CC_table st)) = insert demo_loc (set (elements (CC_table (empty_cg demo_sim))))" "sim st = sim (empty_cg demo_sim)"
    using get_lineCC_cases [OF empty_cg_tables, of demo_info 4096 demo_sim] unfolding l by metis
  have "ordered cmp_CodeLoc_LineCC id (elements (CC_table st))"
    using st(2) by (simp add: tables_ok_def oset_ok_def)
  then have "distinct (elements (CC_table st))" by (rule line_order.ordered_distinct)
  moreover have "set (elements (CC_table st)) = {demo_loc}"
    using st(3) by (simp add: empty_cg_def elements_def OSetGen_Create_def)
  ultimately have "elements (CC_table st) = [demo_loc]"
    by (cases "elements (CC_table st)"; cases "tl (elements (CC_table st))") auto
  then show ?thesis
    using that [OF st(1,2)] st(4) by (simp add: empty_cg_def)
qed

lemma demo_sums:
  assumes "elements (CC_table st) = [demo_loc]" and "P demo_loc" and "ccs st = (\<lambda>_. demo_line)"
  shows "map (event_sum st P) (event_names demo_opts) = [90, 8, 7, 60, 5, 4, 30, 2, 1, 12, 11, 10, 9]"
  using assms by (simp add: event_sum_def event_names_def demo_opts_def event_count_def demo_line_def)

theorem fprint_roundtrip_witness:
  "\<exists>st out t r. get_lineCC demo_info 4096 (empty_cg demo_sim) = Inr (demo_loc, st) \<and>
    fprint_CC_table_and_calc_totals demo_opts True ''prog'' [''-v''] (st\<lparr>ccs := \<lambda>_. demo_line\<rparr>) = Inr (Some out, t) \<and>
    read_input_file \<lparr>auto_annotate = True, user_ann_files = []\<rparr> out = Inr r \<and> ann_events r ! 6 = ''Dw'' \<and>
    fn_totals r ''/src/a.c:main'' = Some (map Some [90, 8, 7, 60, 5, 4, 30, 2, 1, 12, 11, 10, 9]) \<and>
    line_CC r ''/src/a.c'' (show_Int 7) = Some (map Some [90, 8, 7, 60, 5, 4, 30, 2, 1, 12, 11, 10, 9])"
proof -
  obtain st where st: "get_lineCC demo_info 4096 (empty_cg demo_sim) = Inr (demo_loc, st)" "tables_ok st"
    "elements (CC_table st) = [demo_loc]" "sim st = demo_sim"
    by (rule demo_table)
  define st' where "st' = st\<lparr>ccs := \<lambda>_. demo_line\<rparr>"
  have els: "elements (CC_table st') = [demo_loc]" and cc: "ccs st' = (\<lambda>_. demo_line)"
    using st(3) by (simp_all add: st'_def)
  have "\<forall>n \<in> set (map (event_sum st' (\<lambda>l. True)) (event_names demo_opts)). n < 2 ^ 64"
    unfolding demo_sums [where P = "\<lambda>l. True", OF els TrueI cc] by simp
  then have fits: "\<forall>e \<in> set (event_names demo_opts). event_sum st' (\<lambda>l. True) e < 2 ^ 64" by simp
  have ok: "tables_ok st'" "length (elements (CC_table st')) < 9227464" "header_ok (sim st') ''prog'' [''-v'']"
    "\<forall>l \<in> set (elements (CC_table st')). no_newline (loc_file l) \<and> no_newline (loc_fn l)"
    using st(2,4) els
    by (simp_all add: st'_def tables_ok_def header_ok_def demo_sim_def demo_cache_def no_newline_def cmd_line_def
        sublist_Cons_right)
  obtain out t r where r: "fprint_CC_table_and_calc_totals demo_opts True ''prog'' [''-v''] st' = Inr (Some out, t)"
    "read_input_file \<lparr>auto_annotate = True, user_ann_files = []\<rparr> out = Inr r" "ann_events r = event_names demo_opts"
    "fn_totals r ''/src/a.c:main'' = (if \<exists>l \<in> set (elements (CC_table st')). fn_key l = ''/src/a.c:main''
      then Some (map (\<lambda>e. Some (event_sum st' (\<lambda>l. fn_key l = ''/src/a.c:main'') e)) (event_names demo_opts)) else None)"
    "line_CC r ''/src/a.c'' (show_Int 7) =
      (if remembered \<lparr>auto_annotate = True, user_ann_files = []\<rparr> ''/src/a.c'' \<and>
         (\<exists>l \<in> set (elements (CC_table st')). loc_file l = ''/src/a.c'' \<and> loc_line l = 7)
       then Some (map (\<lambda>e. Some (event_sum st' (\<lambda>l. loc_file l = ''/src/a.c'' \<and> loc_line l = 7) e)) (event_names demo_opts)) else None)"
    using fprint_roundtrip [OF ok fits, of "\<lparr>auto_annotate = True, user_ann_files = []\<rparr>"] by blast
  have "map (\<lambda>e. Some (event_sum st' P e)) (event_names demo_opts) = map Some [90, 8, 7, 60, 5, 4, 30, 2, 1, 12, 11, 10, 9]"
    if "P demo_loc" for P
    unfolding demo_sums [where P = P, OF els that cc, symmetric] by simp
  then have "fn_totals r ''/src/a.c:main'' = Some (map Some [90, 8, 7, 60, 5, 4, 30, 2, 1, 12, 11, 10, 9])"
    "line_CC r ''/src/a.c'' (show_Int 7) = Some (map Some [90, 8, 7, 60, 5, 4, 30, 2, 1, 12, 11, 10, 9])"
    unfolding r(4,5) els by (simp_all add: fn_key_def remembered_def)
  moreover have "ann_events r ! 6 = ''Dw''"
    by (simp add: r(3) event_names_def demo_opts_def)
  ultimately show ?thesis
    using st(1) r(1,2) unfolding st'_def by blast
qed

lemma events_text_plain:
  "strip_first ''desc:'' (nl (events_text opts)) = None" "strip_word ''cmd:'' (nl (events_text opts)) = None"
proof -
  show "strip_first ''desc:'' (nl (events_text opts)) = None"
    by (rule strip_first_none) (simp_all add: events_text_def events_line_def no_newline_def sublist_Cons_right)
  show "strip_word ''cmd:'' (nl (events_text opts)) = None"
    by (simp add: events_text_def events_line_def strip_word_def)
qed

text \<open>
  The script looks for the word \<open>desc:\<close> anywhere in a line of the header. For a program that was run with
  an argument of that form it takes the line of the command for one more description, and gives up
  on a file that is otherwise in order.
\<close>

theorem annotate_desc_argument:
  assumes "strip_first ''desc:'' (nl (cmd_line exename args)) = Some d" and "no_newline (cmd_line exename args)"
    and "no_newline (c2_desc_line (sim_I1 s))" and "no_newline (c2_desc_line (sim_D1 s))"
    and "no_newline (c2_desc_line (sim_LL s))" and "\<forall>x \<in> set ls. no_newline x"
  shows "read_input_file o1 (header_text opts s exename args @ concat (map nl ls)) =
    Inl (Exit_with (''Line 5: missing command line'' @ [CHR 0x0A]))"
proof -
  let ?hs = "header_strings opts s exename args"
  have "perl_lines [] (concat (map nl (?hs @ ls)) @ []) = map nl (?hs @ ls) @ perl_lines [] []"
    using assms events_line_read(2) [of opts]
    by (intro perl_lines_text) (auto simp: header_strings_def no_newline_def)
  then have lines: "perl_lines [] (header_text opts s exename args @ concat (map nl ls)) = map nl ?hs @ map nl ls"
    by (simp add: header_text_strings)
  have ws: "is_ws CHR '' ''" "\<not> is_ws CHR ''I''" "\<not> is_ws CHR ''D''" "\<not> is_ws CHR ''L''"
    by (simp_all add: is_ws_def)
  obtain desc where "read_desc 0 (map nl ?hs @ map nl ls) = (desc, nl (events_text opts), 5, map nl ls)"
    using ws assms(1) events_text_plain(1) by (simp add: header_strings_def strip_word_def)
  moreover have "show_nat 5 = ''5''" by code_simp
  ultimately show ?thesis
    using events_text_plain(2) by (simp add: read_input_file_def lines)
qed

theorem annotate_desc_argument_witness:
  "read_input_file o1 (header_text demo_opts demo_sim ''prog'' [''desc:'', ''x''] @ concat (map nl [''summary: 0''])) =
    Inl (Exit_with (''Line 5: missing command line'' @ [CHR 0x0A]))"
proof -
  have "strip_first ''desc:'' (nl (cmd_line ''prog'' [''desc:'', ''x''])) = Some (''cmd: prog x'' @ [CHR 0x0A])"
    by (simp add: cmd_line_def strip_word_def is_ws_def)
  from annotate_desc_argument [OF this, of demo_sim "[''summary: 0'']"] show ?thesis
    by (simp add: cmd_line_def no_newline_def demo_sim_def demo_cache_def)
qed

end
