(* ===== verification/CallgrindSim.thy ===== *)
theory CallgrindSim
  imports CacheSim
begin

text \<open>
  The cache simulator of Callgrind, \<open>callgrind/sim.c\<close>, with the configuration of the caches that it
  shares with Cachegrind: the simple simulator, the one with write-back, and hardware prefetch. The
  theory shows that the simple simulator computes what the simulator of Cachegrind computes, so that
  the theorems on that one hold here.
\<close>

unbundle bit_operations_syntax

section \<open>Caches\<close>

text \<open>The fields the two simulators share are those of \<open>CacheSim\<close>.\<close>

record clg_cache = cache_t2 +
  k_sectored :: bool
  k_tag_mask :: UWord

datatype RefType = Read | Write
datatype CacheResult = Hit | Miss | MissDirty
datatype CacheModelResult = L1_Hit | LL_Hit | MemAccess | WriteBackMemAccess

definition CACHELINE_FLAGMASK :: UWord where
  "CACHELINE_FLAGMASK = 16 - 1"

definition CACHELINE_DIRTY :: UWord where
  "CACHELINE_DIRTY = 1"

definition ref_flag :: "RefType \<Rightarrow> UWord" where
  "ref_flag ref = (case ref of Read \<Rightarrow> 0 | Write \<Rightarrow> CACHELINE_DIRTY)"

text \<open>\<open>~((1u<<c->tag_shift)-1)\<close> is computed in 32 bits and then widened.\<close>

definition tag_mask_of :: "int \<Rightarrow> UWord" where
  "tag_mask_of tag_shift = ucast (NOT (push_bit (nat tag_shift) (1 :: UInt) - 1))"

definition clg_clearcache :: "clg_cache \<Rightarrow> clg_cache" where
  "clg_clearcache c = c\<lparr>c2_tags := replicate (length (c2_tags c)) 0\<rparr>"

definition clg_initcache :: "cache_t \<Rightarrow> clg_cache cres" where
  "clg_initcache config =
     cbind (div_Int (csize config) (cline_size config)) (\<lambda>q.
     cbind (div_Int q (cassoc config)) (\<lambda>sets.
     cbind (add_Int sets (- 1)) (\<lambda>sets_min_1.
     let line_size_bits = VG_log2 (word_of_int (cline_size config));
         tag_shift = line_size_bits + VG_log2 (word_of_int sets);
         tag_mask = tag_mask_of tag_shift in
     cassert (tag_mask AND CACHELINE_FLAGMASK = 0) (
     cbind (mul_Int sets (cassoc config)) (\<lambda>n.
     Inr (clg_clearcache \<lparr>c2_size = csize config, c2_assoc = cassoc config, c2_line_size = cline_size config,
          c2_sets = sets, c2_sets_min_1 = sets_min_1, c2_line_size_bits = line_size_bits,
          c2_tag_shift = tag_shift, c2_desc_line = desc_line_of config, c2_tags = replicate (nat n) 0,
          k_sectored = False, k_tag_mask = tag_mask\<rparr>))))))"

section \<open>Simple simulation\<close>

definition clg_base :: "clg_cache \<Rightarrow> UInt \<Rightarrow> nat" where
  "clg_base c set_no = unat (set_no * word_of_int (c2_assoc c))"

definition clg_setref :: "clg_cache \<Rightarrow> UInt \<Rightarrow> UWord \<Rightarrow> (CacheResult \<times> clg_cache) cres" where
  "clg_setref c set_no tag =
     (let b = clg_base c set_no; n = nat (c2_assoc c); tags = c2_tags c in
      if n = 0 \<or> length tags < b + n then Inl Out_of_bounds
      else if tag = tags ! b then Inr (Hit, c)
      else case find (\<lambda>i. tag = tags ! (b + i)) [1..<n] of
        Some i \<Rightarrow> Inr (Hit, c\<lparr>c2_tags := (shift_down b i tags)[b := tag]\<rparr>)
      | None \<Rightarrow> Inr (Miss, c\<lparr>c2_tags := (shift_down b (n - 1) tags)[b := tag]\<rparr>))"

definition clg_ref :: "clg_cache \<Rightarrow> Addr \<Rightarrow> UChar \<Rightarrow> (CacheResult \<times> clg_cache) cres" where
  "clg_ref c a sz =
     (let block1 = drop_bit (nat (c2_line_size_bits c)) a;
          block2 = drop_bit (nat (c2_line_size_bits c)) (a + ucast sz - 1);
          set1 = ucast (block1 AND word_of_int (c2_sets_min_1 c)) :: UInt
      in if block1 = block2 then clg_setref c set1 block1
         else if block1 + 1 = block2 then
           let set2 = ucast (block2 AND word_of_int (c2_sets_min_1 c)) :: UInt in
           cbind (clg_setref c set1 block1) (\<lambda>(res1, c).
           cbind (clg_setref c set2 block2) (\<lambda>(res2, c).
             Inr (if res1 = Miss \<or> res2 = Miss then Miss else Hit, c)))
         else Inl (Tool_panic ''item straddles more than two cache sets''))"

record clgsim =
  clg_I1 :: clg_cache
  clg_D1 :: clg_cache
  clg_LL :: clg_cache
  pf_lastblock :: "UInt list"
  pf_seqblocks :: "int list"
  prefetch_up :: ULong
  prefetch_down :: ULong

text \<open>A reference to the last level after a first level miss, without and with write-back.\<close>

definition LL_ref :: "Addr \<Rightarrow> UChar \<Rightarrow> clgsim \<Rightarrow> (CacheModelResult \<times> clgsim) cres" where
  "LL_ref a sz st =
     cbind (clg_ref (clg_LL st) a sz) (\<lambda>(res, ll).
     Inr (if res = Hit then LL_Hit else MemAccess, st\<lparr>clg_LL := ll\<rparr>))"

definition clg_I1_ref :: "Addr \<Rightarrow> UChar \<Rightarrow> clgsim \<Rightarrow> (CacheModelResult \<times> clgsim) cres" where
  "clg_I1_ref a sz st =
     cbind (clg_ref (clg_I1 st) a sz) (\<lambda>(res, i1).
     let st = st\<lparr>clg_I1 := i1\<rparr> in
     if res = Hit then Inr (L1_Hit, st) else LL_ref a sz st)"

definition clg_D1_ref :: "Addr \<Rightarrow> UChar \<Rightarrow> clgsim \<Rightarrow> (CacheModelResult \<times> clgsim) cres" where
  "clg_D1_ref a sz st =
     cbind (clg_ref (clg_D1 st) a sz) (\<lambda>(res, d1).
     let st = st\<lparr>clg_D1 := d1\<rparr> in
     if res = Hit then Inr (L1_Hit, st) else LL_ref a sz st)"

section \<open>Write-back simulation\<close>

definition clg_setref_wb :: "clg_cache \<Rightarrow> RefType \<Rightarrow> UInt \<Rightarrow> UWord \<Rightarrow> (CacheResult \<times> clg_cache) cres" where
  "clg_setref_wb c ref set_no tag =
     (let b = clg_base c set_no; n = nat (c2_assoc c); tags = c2_tags c in
      if n = 0 \<or> length tags < b + n then Inl Out_of_bounds
      else if tag = tags ! b AND NOT CACHELINE_DIRTY
      then Inr (Hit, c\<lparr>c2_tags := tags[b := tags ! b OR ref_flag ref]\<rparr>)
      else case find (\<lambda>i. tag = tags ! (b + i) AND NOT CACHELINE_DIRTY) [1..<n] of
        Some i \<Rightarrow> Inr (Hit, c\<lparr>c2_tags := (shift_down b i tags)[b := tags ! (b + i) OR ref_flag ref]\<rparr>)
      | None \<Rightarrow>
          Inr (if tags ! (b + (n - 1)) AND CACHELINE_DIRTY \<noteq> 0 then MissDirty else Miss,
               c\<lparr>c2_tags := (shift_down b (n - 1) tags)[b := tag OR ref_flag ref]\<rparr>))"

definition clg_ref_wb :: "clg_cache \<Rightarrow> RefType \<Rightarrow> Addr \<Rightarrow> UChar \<Rightarrow> (CacheResult \<times> clg_cache) cres" where
  "clg_ref_wb c ref a sz =
     (let set1 = ucast (drop_bit (nat (c2_line_size_bits c)) a AND word_of_int (c2_sets_min_1 c)) :: UInt;
          set2 = ucast (drop_bit (nat (c2_line_size_bits c)) (a + ucast sz - 1) AND word_of_int (c2_sets_min_1 c)) :: UInt;
          tag = a AND k_tag_mask c
      in if set1 = set2 then clg_setref_wb c ref set1 tag
         else if (set1 + 1) AND word_of_int (c2_sets_min_1 c) = set2 then
           let tag2 = (a + ucast sz - 1) AND k_tag_mask c in
           cbind (clg_setref_wb c ref set1 tag) (\<lambda>(res1, c).
           cbind (clg_setref_wb c ref set2 tag2) (\<lambda>(res2, c).
             Inr (if res1 = MissDirty \<or> res2 = MissDirty then MissDirty
                  else if res1 = Miss \<or> res2 = Miss then Miss else Hit, c)))
         else Inl (Tool_panic ''item straddles more than two cache sets''))"

definition LL_ref_wb :: "RefType \<Rightarrow> Addr \<Rightarrow> UChar \<Rightarrow> clgsim \<Rightarrow> (CacheModelResult \<times> clgsim) cres" where
  "LL_ref_wb ref a sz st =
     cbind (clg_ref_wb (clg_LL st) ref a sz) (\<lambda>(res, ll).
     Inr (case res of Hit \<Rightarrow> LL_Hit | Miss \<Rightarrow> MemAccess | MissDirty \<Rightarrow> WriteBackMemAccess, st\<lparr>clg_LL := ll\<rparr>))"

definition clg_I1_Read :: "Addr \<Rightarrow> UChar \<Rightarrow> clgsim \<Rightarrow> (CacheModelResult \<times> clgsim) cres" where
  "clg_I1_Read a sz st =
     cbind (clg_ref (clg_I1 st) a sz) (\<lambda>(res, i1).
     let st = st\<lparr>clg_I1 := i1\<rparr> in
     if res = Hit then Inr (L1_Hit, st) else LL_ref_wb Read a sz st)"

definition clg_D1_Read :: "Addr \<Rightarrow> UChar \<Rightarrow> clgsim \<Rightarrow> (CacheModelResult \<times> clgsim) cres" where
  "clg_D1_Read a sz st =
     cbind (clg_ref (clg_D1 st) a sz) (\<lambda>(res, d1).
     let st = st\<lparr>clg_D1 := d1\<rparr> in
     if res = Hit then Inr (L1_Hit, st) else LL_ref_wb Read a sz st)"

definition clg_D1_Write :: "Addr \<Rightarrow> UChar \<Rightarrow> clgsim \<Rightarrow> (CacheModelResult \<times> clgsim) cres" where
  "clg_D1_Write a sz st =
     cbind (clg_ref (clg_D1 st) a sz) (\<lambda>(res, d1).
     let st = st\<lparr>clg_D1 := d1\<rparr> in
     cbind (LL_ref_wb Write a sz st) (\<lambda>(r, st).
     Inr (if res = Hit then L1_Hit else r, st)))"

section \<open>Hardware prefetch\<close>

definition PF_STREAMS :: nat where "PF_STREAMS = 8"

definition prefetch_clear :: "clgsim \<Rightarrow> clgsim" where
  "prefetch_clear st = st\<lparr>pf_lastblock := replicate PF_STREAMS 0, pf_seqblocks := replicate PF_STREAMS 0\<rparr>"

text \<open>
  One stream per page. The count of a stream stays far below the width of its type, as a page of
  4096 bytes has at most 256 lines and the blocks of a stream are counted while they are adjacent.
\<close>

definition prefetch_LL_doref :: "Addr \<Rightarrow> clgsim \<Rightarrow> clgsim cres" where
  "prefetch_LL_doref a st =
     (let stream = unat (drop_bit 12 a mod of_nat PF_STREAMS);
          block = ucast (drop_bit (nat (c2_line_size_bits (clg_LL st))) a) :: UInt;
          lastblock = pf_lastblock st ! stream; seqblocks = pf_seqblocks st ! stream;
          line = word_of_int (c2_line_size (clg_LL st));
          note_seq = (\<lambda>n st. st\<lparr>pf_seqblocks := (pf_seqblocks st)[stream := n],
                          pf_lastblock := (pf_lastblock st)[stream := block]\<rparr>)
      in if block = lastblock then Inr st
         else if seqblocks = 0 then
           Inr (note_seq (if lastblock + 1 = block then 1 else if lastblock - 1 = block then - 1 else 0) st)
         else if seqblocks > 0 then
           (if lastblock + 1 = block then
              if seqblocks + 1 \<ge> 2 then
                cbind (clg_ref (clg_LL st) (a + 5 * line) 1) (\<lambda>(_, ll).
                Inr (note_seq (seqblocks + 1) (st\<lparr>prefetch_up := prefetch_up st + 1, clg_LL := ll\<rparr>)))
              else Inr (note_seq (seqblocks + 1) st)
            else Inr (note_seq 0 st))
         else
           (if lastblock - 1 = block then
              if seqblocks - 1 \<le> - 2 then
                cbind (clg_ref (clg_LL st) (a - 5 * line) 1) (\<lambda>(_, ll).
                Inr (note_seq (seqblocks - 1) (st\<lparr>prefetch_down := prefetch_down st + 1, clg_LL := ll\<rparr>)))
              else Inr (note_seq (seqblocks - 1) st)
            else Inr (note_seq 0 st)))"

definition prefetch_I1_ref :: "Addr \<Rightarrow> UChar \<Rightarrow> clgsim \<Rightarrow> (CacheModelResult \<times> clgsim) cres" where
  "prefetch_I1_ref a sz st =
     cbind (clg_ref (clg_I1 st) a sz) (\<lambda>(res, i1).
     let st = st\<lparr>clg_I1 := i1\<rparr> in
     if res = Hit then Inr (L1_Hit, st) else cbind (prefetch_LL_doref a st) (LL_ref a sz))"

definition prefetch_D1_ref :: "Addr \<Rightarrow> UChar \<Rightarrow> clgsim \<Rightarrow> (CacheModelResult \<times> clgsim) cres" where
  "prefetch_D1_ref a sz st =
     cbind (clg_ref (clg_D1 st) a sz) (\<lambda>(res, d1).
     let st = st\<lparr>clg_D1 := d1\<rparr> in
     if res = Hit then Inr (L1_Hit, st) else cbind (prefetch_LL_doref a st) (LL_ref a sz))"

definition prefetch_I1_Read :: "Addr \<Rightarrow> UChar \<Rightarrow> clgsim \<Rightarrow> (CacheModelResult \<times> clgsim) cres" where
  "prefetch_I1_Read a sz st =
     cbind (clg_ref (clg_I1 st) a sz) (\<lambda>(res, i1).
     let st = st\<lparr>clg_I1 := i1\<rparr> in
     if res = Hit then Inr (L1_Hit, st) else cbind (prefetch_LL_doref a st) (LL_ref_wb Read a sz))"

definition prefetch_D1_Read :: "Addr \<Rightarrow> UChar \<Rightarrow> clgsim \<Rightarrow> (CacheModelResult \<times> clgsim) cres" where
  "prefetch_D1_Read a sz st =
     cbind (clg_ref (clg_D1 st) a sz) (\<lambda>(res, d1).
     let st = st\<lparr>clg_D1 := d1\<rparr> in
     if res = Hit then Inr (L1_Hit, st) else cbind (prefetch_LL_doref a st) (LL_ref_wb Read a sz))"

definition prefetch_D1_Write :: "Addr \<Rightarrow> UChar \<Rightarrow> clgsim \<Rightarrow> (CacheModelResult \<times> clgsim) cres" where
  "prefetch_D1_Write a sz st = cbind (prefetch_LL_doref a st) (clg_D1_Write a sz)"

section \<open>Agreement with Cachegrind\<close>

text \<open>The state of the simulator of Cachegrind that a state of this one stands for.\<close>

definition cg_cache :: "clg_cache \<Rightarrow> cache_t2" where
  "cg_cache c = cache_t2.truncate c"

definition cg_sim :: "clgsim \<Rightarrow> cachesim" where
  "cg_sim st = \<lparr>sim_I1 = cg_cache (clg_I1 st), sim_D1 = cg_cache (clg_D1 st), sim_LL = cg_cache (clg_LL st)\<rparr>"

lemma cg_cache_simps [simp]:
  "c2_assoc (cg_cache c) = c2_assoc c" "c2_tags (cg_cache c) = c2_tags c"
  "c2_line_size_bits (cg_cache c) = c2_line_size_bits c" "c2_sets_min_1 (cg_cache c) = c2_sets_min_1 c"
  "cg_cache (c\<lparr>c2_tags := tags\<rparr>) = (cg_cache c)\<lparr>c2_tags := tags\<rparr>"
  by (simp_all add: cg_cache_def cache_t2.truncate_def)

definition as_miss :: "(CacheResult \<times> clg_cache) cres \<Rightarrow> (bool \<times> cache_t2) cres" where
  "as_miss r = cbind r (\<lambda>(res, c). Inr (res \<noteq> Hit, cg_cache c))"

lemma setref_agrees: "as_miss (clg_setref c set_no tag) = cachesim_setref_is_miss (cg_cache c) set_no tag"
  by (auto simp: as_miss_def clg_setref_def cachesim_setref_is_miss_def clg_base_def set_base_def Let_def
      split: option.splits)

lemma setref_not_dirty: "clg_setref c set_no tag = Inr (res, c') \<Longrightarrow> res = Hit \<or> res = Miss"
  by (auto simp: clg_setref_def Let_def split: if_splits option.splits)

lemma setref_keeps:
  "clg_setref c set_no tag = Inr (res, c') \<Longrightarrow> \<exists>tags. c' = c\<lparr>c2_tags := tags\<rparr>"
  by (auto simp: clg_setref_def Let_def split: if_splits option.splits intro: exI [of _ "c2_tags c"])

lemma ref_agrees: "as_miss (clg_ref c a sz) = cachesim_ref_is_miss (cg_cache c) a sz"
proof -
  have two: "as_miss (cbind (clg_setref c s1 t1) (\<lambda>(res1, c). cbind (clg_setref c s2 t2) (\<lambda>(res2, c).
        Inr (if res1 = Miss \<or> res2 = Miss then Miss else Hit, c)))) =
      cbind (cachesim_setref_is_miss (cg_cache c) s1 t1) (\<lambda>(miss1, c).
        if miss1 then cbind (cachesim_setref_is_miss c s2 t2) (\<lambda>(_, c). Inr (True, c))
        else cachesim_setref_is_miss c s2 t2)" for s1 t1 s2 t2
  proof (cases "clg_setref c s1 t1")
    case (Inl e)
    then show ?thesis
      using setref_agrees [of c s1 t1, symmetric] by (simp add: as_miss_def)
  next
    case (Inr p)
    obtain r1 c1 where p: "p = (r1, c1)" by (cases p)
    have one: "cachesim_setref_is_miss (cg_cache c) s1 t1 = Inr (r1 \<noteq> Hit, cg_cache c1)" "r1 = Hit \<or> r1 = Miss"
      using setref_agrees [of c s1 t1, symmetric] setref_not_dirty Inr by (auto simp: as_miss_def p)
    show ?thesis
      using one setref_agrees [of c1 s2 t2, symmetric] setref_not_dirty [of c1 s2 t2] Inr
      by (cases "clg_setref c1 s2 t2") (auto simp: as_miss_def p)
  qed
  show ?thesis
    using two setref_agrees
    by (simp add: clg_ref_def cachesim_ref_is_miss_def block_of_def set_of_block_def Let_def)
      (simp add: as_miss_def)
qed

text \<open>The results of a reference as increments of the two miss counters of Cachegrind.\<close>

definition as_counts :: "ULong \<Rightarrow> ULong \<Rightarrow> (CacheModelResult \<times> clgsim) cres \<Rightarrow> (cachesim \<times> ULong \<times> ULong) cres" where
  "as_counts m1 mL r = cbind r (\<lambda>(res, st).
     Inr (cg_sim st, if res = L1_Hit then m1 else m1 + 1, if res = L1_Hit \<or> res = LL_Hit then mL else mL + 1))"

lemma ref_cases:
  assumes "as_miss (clg_ref c a sz) = r"
  obtains e where "clg_ref c a sz = Inl e" and "r = Inl e"
  | res c' where "clg_ref c a sz = Inr (res, c')" and "r = Inr (res \<noteq> Hit, cg_cache c')"
  using assms by (cases "clg_ref c a sz") (auto simp: as_miss_def)

lemma LL_ref_agrees:
  "as_counts m1 mL (LL_ref a sz st) =
     cbind (cachesim_ref_is_miss (sim_LL (cg_sim st)) a sz) (\<lambda>(missL, ll).
       Inr ((cg_sim st)\<lparr>sim_LL := ll\<rparr>, m1 + 1, if missL then mL + 1 else mL))"
  using ref_agrees [of "clg_LL st" a sz]
  by (cases rule: ref_cases) (auto simp: LL_ref_def as_counts_def cg_sim_def)

lemma I1_ref_agrees:
  "as_counts m1 mL (clg_I1_ref a sz st) = cachesim_I1_doref_Gen a sz (cg_sim st) m1 mL"
  using ref_agrees [of "clg_I1 st" a sz]
proof (cases rule: ref_cases)
  case (1 e)
  then show ?thesis
    by (simp add: clg_I1_ref_def cachesim_I1_doref_Gen_def as_counts_def cg_sim_def)
next
  case (2 res c')
  then show ?thesis
    using LL_ref_agrees [of m1 mL a sz "st\<lparr>clg_I1 := c'\<rparr>"]
    by (cases "res = Hit") (simp_all add: clg_I1_ref_def cachesim_I1_doref_Gen_def cg_sim_def as_counts_def Let_def)
qed

lemma D1_ref_agrees:
  "as_counts m1 mL (clg_D1_ref a sz st) = cachesim_D1_doref a sz (cg_sim st) m1 mL"
  using ref_agrees [of "clg_D1 st" a sz]
proof (cases rule: ref_cases)
  case (1 e)
  then show ?thesis
    by (simp add: clg_D1_ref_def cachesim_D1_doref_def as_counts_def cg_sim_def)
next
  case (2 res c')
  then show ?thesis
    using LL_ref_agrees [of m1 mL a sz "st\<lparr>clg_D1 := c'\<rparr>"]
    by (cases "res = Hit") (simp_all add: clg_D1_ref_def cachesim_D1_doref_def cg_sim_def as_counts_def Let_def)
qed

text \<open>
  C9: The simple simulator of Callgrind computes what the simulator of Cachegrind computes, for every
  state and reference, panics included: after a reference the caches agree, and the results a
  reference can have stand for the same increments of the first and last level miss counts.
\<close>

theorem callgrind_agrees_with_cachegrind:
  "as_counts m1 mL (clg_I1_ref a sz st) = cachesim_I1_doref_Gen a sz (cg_sim st) m1 mL \<and>
   as_counts m1 mL (clg_D1_ref a sz st) = cachesim_D1_doref a sz (cg_sim st) m1 mL"
  using I1_ref_agrees D1_ref_agrees by blast

section \<open>Tags of the write-back simulation\<close>

definition clg_set_no :: "clg_cache \<Rightarrow> Addr \<Rightarrow> UInt" where
  "clg_set_no c a = ucast (drop_bit (nat (c2_line_size_bits c)) a AND word_of_int (c2_sets_min_1 c))"

lemma take_bit_4G:
  assumes "n \<le> 32"
  shows "take_bit n (a + 4294967296 :: UWord) = take_bit n a"
proof -
  have "(2 :: nat) ^ n dvd 2 ^ 64" "(2 :: nat) ^ n dvd 2 ^ 32"
    using le_imp_power_dvd [of n 64 "2 :: nat"] le_imp_power_dvd [of n 32 "2 :: nat"] assms by linarith+
  then obtain m where "(2 :: nat) ^ n dvd 2 ^ 64" "(4294967296 :: nat) = 2 ^ n * m"
    by (auto elim!: dvdE)
  then have "(unat a + 4294967296) mod 2 ^ 64 mod 2 ^ n = unat a mod 2 ^ n"
    by (simp only: mod_mod_cancel mod_mult_self2)
  moreover have "unat (a + 4294967296) = (unat a + 4294967296) mod 2 ^ 64"
    by (simp add: unat_word_ariths)
  moreover have "unat (take_bit n x) = unat x mod 2 ^ n" for x :: UWord
    by (subst unsigned_take_bit_eq) (rule take_bit_eq_mod)
  ultimately show ?thesis
    by (simp only: word_unat_eq_iff)
qed

lemma and_ucast_4G: "(a + 4294967296 :: UWord) AND ucast (m :: UInt) = a AND ucast m"
proof -
  have *: "x AND ucast m = take_bit 32 x AND ucast m" for x :: UWord
    by (rule bit_word_eqI) (auto simp: bit_simps dest: bit_imp_le_length)
  show ?thesis
    by (subst (1 2) *) (simp add: take_bit_4G)
qed

lemma clg_set_no_4G:
  assumes "cache_ok (cg_cache c)"
  shows "clg_set_no c (a + 4294967296) = clg_set_no c a"
proof -
  obtain j k where jk: "c2_line_size_bits c = int j" "c2_sets_min_1 c = 2 ^ k - 1" "j + k \<le> 32"
  proof -
    obtain j k where *: "c2_line_size_bits c = int j" "c2_sets_min_1 c = 2 ^ k - 1" "0 < c2_assoc c"
        "2 ^ k * c2_assoc c * 2 ^ j < (2 :: int) ^ 31"
      using assms by (auto simp: cache_ok_def)
    have "(2 :: int) ^ k * 1 * 2 ^ j \<le> 2 ^ k * c2_assoc c * 2 ^ j"
      using *(3) by (intro mult_right_mono mult_left_mono) simp_all
    then have "(2 :: int) ^ (k + j) < 2 ^ 31"
      using *(4) by (simp only: power_add mult_1_right)
    then have "k + j < 31"
      by (rule power_less_imp_less_exp [rotated]) simp
    then show thesis
      using that [OF *(1,2)] by simp
  qed
  have "(word_of_int (2 ^ k - 1) :: UWord) = mask k"
    by (simp add: mask_eq_exp_minus_1)
  then have "drop_bit j x AND word_of_int (2 ^ k - 1) = drop_bit j (take_bit (j + k) x)" for x :: UWord
    by (simp add: take_bit_drop_bit add.commute flip: take_bit_eq_mask)
  then show ?thesis
    using jk by (simp add: clg_set_no_def take_bit_4G)
qed

lemma tag_mask_even:
  assumes "0 < n"
  shows "(a AND tag_mask_of (int n)) AND NOT CACHELINE_DIRTY = a AND tag_mask_of (int n)"
proof -
  have "\<not> bit (NOT (push_bit n (1 :: UInt) - 1)) 0"
    using assms by (simp add: bit_simps flip: mask_eq_exp_minus_1 push_bit_eq_mult) 
  then show ?thesis
    by (intro bit_word_eqI) (auto simp: bit_simps tag_mask_of_def CACHELINE_DIRTY_def bit_1_iff
        intro: gr0I)
qed

text \<open>After a reference the most recent line of its set has the tag of the reference.\<close>

lemma setref_wb_installs:
  assumes "clg_setref_wb c ref s tag = Inr (res, c')" and "tag AND NOT CACHELINE_DIRTY = tag"
  shows "\<exists>tags. c' = c\<lparr>c2_tags := tags\<rparr> \<and> length tags = length (c2_tags c) \<and>
    tags ! clg_base c s AND NOT CACHELINE_DIRTY = tag"
proof -
  have "(t OR ref_flag ref) AND NOT CACHELINE_DIRTY = t AND NOT CACHELINE_DIRTY" for t
    by (rule bit_word_eqI) (auto simp: bit_simps ref_flag_def CACHELINE_DIRTY_def split: RefType.splits)
  then show ?thesis
    using assms
    by (auto simp: clg_setref_wb_def Let_def find_Some_iff split: if_splits option.splits)
qed

lemma setref_wb_hits:
  assumes "nat (c2_assoc c) \<noteq> 0" and "clg_base c s + nat (c2_assoc c) \<le> length (c2_tags c)"
    and "c2_tags c ! clg_base c s AND NOT CACHELINE_DIRTY = tag"
  shows "\<exists>c'. clg_setref_wb c ref s tag = Inr (Hit, c')"
  using assms by (simp add: clg_setref_wb_def Let_def)

lemma ref_wb_one_set:
  assumes "clg_set_no c (a + ucast sz - 1) = clg_set_no c a"
  shows "clg_ref_wb c ref a sz = clg_setref_wb c ref (clg_set_no c a) (a AND k_tag_mask c)"
  using assms by (simp add: clg_ref_wb_def clg_set_no_def Let_def)

lemma clg_set_no_tags [simp]: "clg_set_no (c\<lparr>c2_tags := tags\<rparr>) = clg_set_no c"
  "clg_base (c\<lparr>c2_tags := tags\<rparr>) = clg_base c"
  by (simp_all add: clg_set_no_def clg_base_def fun_eq_iff)

text \<open>
  The write-back simulation cannot tell apart addresses that differ in the upper half of a
  64 bit address: the mask of the tags is computed in 32 bits. After any reference inside a line, a
  reference to the line four gigabytes above it hits, although that line was never loaded.
\<close>

theorem write_back_aliases_4G:
  assumes "cache_ok (cg_cache c)" and "0 < n" and "k_tag_mask c = tag_mask_of (int n)"
    and "clg_set_no c (a + ucast sz - 1) = clg_set_no c a" and "clg_ref_wb c ref a sz = Inr (res, c1)"
  shows "\<exists>c2. clg_ref_wb c1 ref' (a + 2 ^ 32) sz = Inr (Hit, c2)"
proof -
  let ?s = "clg_set_no c a" and ?tag = "a AND k_tag_mask c"
  have first: "clg_setref_wb c ref ?s ?tag = Inr (res, c1)"
    using assms(4,5) by (simp add: ref_wb_one_set)
  have "?tag AND NOT CACHELINE_DIRTY = ?tag"
    using tag_mask_even [OF assms(2)] by (simp add: assms(3))
  from setref_wb_installs [OF first this] obtain tags where c1: "c1 = c\<lparr>c2_tags := tags\<rparr>"
    "length tags = length (c2_tags c)" "tags ! clg_base c ?s AND NOT CACHELINE_DIRTY = ?tag"
    by blast
  have bounds: "nat (c2_assoc c) \<noteq> 0" "clg_base c ?s + nat (c2_assoc c) \<le> length (c2_tags c)"
    using first by (auto simp: clg_setref_wb_def Let_def split: if_splits)
  have "a + 4294967296 + ucast sz - 1 = (a + ucast sz - 1) + 4294967296"
    by (simp add: algebra_simps)
  then have "clg_set_no c1 (a + 4294967296 + ucast sz - 1) = clg_set_no c1 (a + 4294967296)"
    by (simp only: c1(1) clg_set_no_tags clg_set_no_4G [OF assms(1)] assms(4))
  then have "clg_ref_wb c1 ref' (a + 4294967296) sz = clg_setref_wb c1 ref' ?s ?tag"
    using clg_set_no_4G [OF assms(1), of a]
    by (simp add: ref_wb_one_set c1(1)) (simp add: assms(3) tag_mask_of_def and_ucast_4G)
  then show ?thesis
    using setref_wb_hits [of c1 ?s ?tag ref'] bounds c1 by simp
qed

definition demo_LL :: clg_cache where
  "demo_LL = \<lparr>c2_size = 64, c2_assoc = 1, c2_line_size = 64, c2_sets = 1, c2_sets_min_1 = 0,
     c2_line_size_bits = 6, c2_tag_shift = 6, c2_desc_line = '''', c2_tags = [0], k_sectored = False,
     k_tag_mask = tag_mask_of 6\<rparr>"

theorem write_back_aliases_4G_witness:
  "\<exists>res c1 c2. clg_ref_wb demo_LL Read 4096 8 = Inr (res, c1) \<and> res = Miss \<and>
     clg_ref_wb c1 Read (4096 + 2 ^ 32) 8 = Inr (Hit, c2)"
proof -
  have "cache_ok (cg_cache demo_LL)"
    unfolding cache_ok_def
    by (intro exI [of _ 6] exI [of _ 0]) (simp add: demo_LL_def cg_cache_def cache_t2.truncate_def)
  moreover have "k_tag_mask demo_LL = tag_mask_of (int 6)"
    by (simp add: demo_LL_def)
  moreover have "clg_set_no demo_LL (4096 + ucast (8 :: UChar) - 1) = clg_set_no demo_LL 4096"
    by (simp add: clg_set_no_def demo_LL_def)
  moreover obtain c1 where c1: "clg_ref_wb demo_LL Read 4096 8 = Inr (Miss, c1)"
    by (simp add: clg_ref_wb_def clg_setref_wb_def demo_LL_def tag_mask_of_def clg_base_def
        CACHELINE_DIRTY_def push_bit_eq_mult Let_def)
  ultimately show ?thesis
    using write_back_aliases_4G [of demo_LL 6 4096 8 Read Miss c1 Read] by auto
qed

end
