(* ===== verification/CallgrindCost.thy ===== *)
theory CallgrindCost
  imports CacheFini CallgrindSim CallgrindEvents "HOL-Library.Sublist"
begin

text \<open>
  The part of Callgrind between the instrumented code and the cost arrays: the helpers that the
  instrumented code calls (\<open>callgrind/sim.c\<close>, \<open>callgrind/main.c\<close>), the choice of the simulator, the
  event sets of a run and the options of the simulator. The theory shows that the helpers add up
  exactly what the simulator of Cachegrind counts for the same references.
\<close>

unbundle bit_operations_syntax

section \<open>Options\<close>

datatype Collect_Systime = systime_no | systime_msec | systime_usec | systime_nsec

record clg_opts =
  simulate_cache :: bool
  simulate_branch :: bool
  collect_bus :: bool
  collect_alloc :: bool
  collect_systime :: Collect_Systime
  simulate_writeback :: bool
  simulate_hwpref :: bool
  simulate_sectors :: bool
  collect_cacheuse :: bool
  dump_instr :: bool
  clg_caches :: clo_caches

definition cachesim_parse_opt :: "string \<Rightarrow> clg_opts \<Rightarrow> (bool \<times> clg_opts) cres" where
  "cachesim_parse_opt arg o1 =
     cbind (VG_BOOL_CLO arg ''--simulate-wb'' (simulate_writeback o1)) (\<lambda>(here, b).
     if here then Inr (True, o1\<lparr>simulate_writeback := b\<rparr>) else
     cbind (VG_BOOL_CLO arg ''--simulate-hwpref'' (simulate_hwpref o1)) (\<lambda>(here, b).
     if here then Inr (True, o1\<lparr>simulate_hwpref := b\<rparr>) else
     cbind (VG_BOOL_CLO arg ''--simulate-sectors'' (simulate_sectors o1)) (\<lambda>(here, b).
     if here then Inr (True, o1\<lparr>simulate_sectors := b\<rparr>) else
     cbind (VG_BOOL_CLO arg ''--cacheuse'' (collect_cacheuse o1)) (\<lambda>(here, b).
     if here then Inr (True, o1\<lparr>collect_cacheuse := b, dump_instr := (b \<or> dump_instr o1)\<rparr>) else
     cbind (str_clo_cache_opt arg (clg_caches o1)) (\<lambda>(here, cc).
     if here then Inr (True, o1\<lparr>clg_caches := cc\<rparr>) else Inr (False, o1))))))"

section \<open>Choice of the simulator\<close>

text \<open>
  The functions the helpers call for a reference. The simulator of \<open>--cacheuse=yes\<close> is a parameter.
\<close>

record simulator =
  sim_I1_Read :: "Addr \<Rightarrow> UChar \<Rightarrow> clgsim \<Rightarrow> (CacheModelResult \<times> clgsim) cres"
  sim_D1_Read :: "Addr \<Rightarrow> UChar \<Rightarrow> clgsim \<Rightarrow> (CacheModelResult \<times> clgsim) cres"
  sim_D1_Write :: "Addr \<Rightarrow> UChar \<Rightarrow> clgsim \<Rightarrow> (CacheModelResult \<times> clgsim) cres"

definition choose_simulator :: "simulator \<Rightarrow> clg_opts \<Rightarrow> simulator" where
  "choose_simulator cacheuse o1 =
     (if collect_cacheuse o1 then cacheuse
      else if simulate_hwpref o1 then
        if simulate_writeback o1
        then \<lparr>sim_I1_Read = prefetch_I1_Read, sim_D1_Read = prefetch_D1_Read, sim_D1_Write = prefetch_D1_Write\<rparr>
        else \<lparr>sim_I1_Read = prefetch_I1_ref, sim_D1_Read = prefetch_D1_ref, sim_D1_Write = prefetch_D1_ref\<rparr>
      else if simulate_writeback o1
      then \<lparr>sim_I1_Read = clg_I1_Read, sim_D1_Read = clg_D1_Read, sim_D1_Write = clg_D1_Write\<rparr>
      else \<lparr>sim_I1_Read = clg_I1_ref, sim_D1_Read = clg_D1_ref, sim_D1_Write = clg_D1_ref\<rparr>)"

definition clg_too_small_msg :: "int \<Rightarrow> int \<Rightarrow> string" where
  "clg_too_small_msg mls largest =
     ''Callgrind: cannot continue: the minimum line size ('' @ show_Int mls @ '')'' @ [CHR 0x0A] @
     ''  must be equal to or larger than the maximum register size ('' @ show_Int largest @ '')'' @ [CHR 0x0A] @
     ''  but it is not.  Exiting now.'' @ [CHR 0x0A]"

text \<open>
  Without cache simulation there are no handlers. Otherwise the result has the minimum line size, the
  simulator, the caches and the options, which cache use changes.
\<close>

definition clg_cachesim_post_clo_init ::
  "VGA_arch \<Rightarrow> VexCacheInfo \<Rightarrow> int \<Rightarrow> simulator \<Rightarrow> clg_opts \<Rightarrow> ((int \<times> simulator \<times> clgsim) option \<times> clg_opts) cres" where
  "clg_cachesim_post_clo_init arch ci largest_load_or_store_size cacheuse o1 =
     (if \<not> simulate_cache o1 then Inr (None, o1)
      else
        cbind (post_clo_init_configure_caches arch ci (clg_caches o1)) (\<lambda>(I1c, D1c, LLc).
        let mls = (if cline_size I1c < cline_size D1c then cline_size I1c else cline_size D1c);
            mls = (if cline_size LLc < mls then cline_size LLc else mls)
        in if mls < largest_load_or_store_size
           then Inl (Exit_with (clg_too_small_msg mls largest_load_or_store_size))
           else
             cbind (clg_initcache I1c) (\<lambda>i1.
             cbind (clg_initcache D1c) (\<lambda>d1.
             cbind (clg_initcache LLc) (\<lambda>ll.
             let st = prefetch_clear \<lparr>clg_I1 = i1, clg_D1 = d1, clg_LL = ll, pf_lastblock = [], pf_seqblocks = [],
                        prefetch_up = 0, prefetch_down = 0\<rparr>;
                 o2 = (if collect_cacheuse o1 then o1\<lparr>simulate_hwpref := False, simulate_writeback := False\<rparr> else o1)
             in Inr (Some (mls, choose_simulator cacheuse o1, st), o2))))))"

definition clg_cachesim_clear :: "clgsim \<Rightarrow> clgsim" where
  "clg_cachesim_clear st = prefetch_clear
     (st\<lparr>clg_I1 := clg_clearcache (clg_I1 st), clg_D1 := clg_clearcache (clg_D1 st),
         clg_LL := clg_clearcache (clg_LL st)\<rparr>)"

section \<open>Event sets of a run\<close>

definition EG_USE :: nat where "EG_USE = 0"
definition EG_IR :: nat where "EG_IR = 1"
definition EG_DR :: nat where "EG_DR = 2"
definition EG_DW :: nat where "EG_DW = 3"
definition EG_BC :: nat where "EG_BC = 4"
definition EG_BI :: nat where "EG_BI = 5"
definition EG_BUS :: nat where "EG_BUS = 6"
definition EG_ALLOC :: nat where "EG_ALLOC = 7"
definition EG_SYS :: nat where "EG_SYS = 8"

lemmas EG_defs = EG_USE_def EG_IR_def EG_DR_def EG_DW_def EG_BC_def EG_BI_def EG_BUS_def EG_ALLOC_def EG_SYS_def

definition register_cache_groups :: "clg_opts \<Rightarrow> event_tables \<Rightarrow> event_tables cres" where
  "register_cache_groups o1 ev =
     cbind (if collect_cacheuse o1
            then register_event_group4 (int EG_USE) ''AcCost1'' ''SpLoss1'' ''AcCost2'' ''SpLoss2'' ev else Inr ev) (\<lambda>ev.
     if \<not> simulate_cache o1 then register_event_group (int EG_IR) ''Ir'' ev
     else if \<not> simulate_writeback o1 then
       cbind (register_event_group3 (int EG_IR) ''Ir'' ''I1mr'' ''ILmr'' ev) (\<lambda>ev.
       cbind (register_event_group3 (int EG_DR) ''Dr'' ''D1mr'' ''DLmr'' ev) (\<lambda>ev.
       register_event_group3 (int EG_DW) ''Dw'' ''D1mw'' ''DLmw'' ev))
     else
       cbind (register_event_group4 (int EG_IR) ''Ir'' ''I1mr'' ''ILmr'' ''ILdmr'' ev) (\<lambda>ev.
       cbind (register_event_group4 (int EG_DR) ''Dr'' ''D1mr'' ''DLmr'' ''DLdmr'' ev) (\<lambda>ev.
       register_event_group4 (int EG_DW) ''Dw'' ''D1mw'' ''DLmw'' ''DLdmw'' ev)))"

definition register_branch_groups :: "clg_opts \<Rightarrow> event_tables \<Rightarrow> event_tables cres" where
  "register_branch_groups o1 ev =
     (if simulate_branch o1 then
        cbind (register_event_group2 (int EG_BC) ''Bc'' ''Bcm'' ev) (register_event_group2 (int EG_BI) ''Bi'' ''Bim'')
      else Inr ev)"

definition register_sys_group :: "clg_opts \<Rightarrow> event_tables \<Rightarrow> event_tables cres" where
  "register_sys_group o1 ev =
     (if collect_systime o1 \<noteq> systime_no then
        if collect_systime o1 = systime_nsec
        then register_event_group3 (int EG_SYS) ''sysCount'' ''sysTime'' ''sysCpuTime'' ev
        else register_event_group2 (int EG_SYS) ''sysCount'' ''sysTime'' ev
      else Inr ev)"

definition register_groups :: "clg_opts \<Rightarrow> event_tables \<Rightarrow> event_tables cres" where
  "register_groups o1 ev =
     cbind (register_cache_groups o1 ev) (\<lambda>ev.
     cbind (register_branch_groups o1 ev) (\<lambda>ev.
     cbind (if collect_bus o1 then register_event_group (int EG_BUS) ''Ge'' ev else Inr ev) (\<lambda>ev.
     cbind (if collect_alloc o1 then register_event_group2 (int EG_ALLOC) ''allocCount'' ''allocSize'' ev else Inr ev)
       (register_sys_group o1))))"

definition make_sets :: "event_tables \<Rightarrow> ((EventSet option \<times> EventSet option) \<times> event_tables) cres" where
  "make_sets ev =
     cbind (get_event_set2 (int EG_USE) (int EG_IR) ev) (\<lambda>(base, ev).
     cbind (add_event_group2 base (int EG_DR) (int EG_DW) ev) (\<lambda>(full, ev).
     cbind (add_event_group2 full (int EG_BC) (int EG_BI) ev) (\<lambda>(full, ev).
     cbind (add_event_group full (int EG_BUS) ev) (\<lambda>(full, ev).
     cbind (add_event_group2 full (int EG_ALLOC) (int EG_SYS) ev) (\<lambda>(full, ev).
     Inr ((base, full), ev))))))"

definition dump_events :: "string list" where
  "dump_events = [''Ir'', ''Dr'', ''Dw'', ''I1mr'', ''D1mr'', ''D1mw'', ''ILmr'', ''DLmr'', ''DLmw'',
     ''ILdmr'', ''DLdmr'', ''DLdmw'', ''Bc'', ''Bcm'', ''Bi'', ''Bim'', ''AcCost1'', ''SpLoss1'', ''AcCost2'', ''SpLoss2'',
     ''Ge'', ''allocCount'', ''allocSize'', ''sysCount'', ''sysTime'', ''sysCpuTime'']"

fun append_events :: "event_tables \<Rightarrow> string list \<Rightarrow> EventMapping \<Rightarrow> EventMapping cres" where
  "append_events ev [] em = Inr em"
| "append_events ev (n # ns) em = cbind (clg_append_event ev n em) (append_events ev ns)"

definition init_eventsets ::
  "clg_opts \<Rightarrow> event_tables \<Rightarrow> ((EventSet option \<times> EventSet option \<times> EventMapping) \<times> event_tables) cres" where
  "init_eventsets o1 ev =
     cbind (register_groups o1 ev) (\<lambda>ev.
     cbind (make_sets ev) (\<lambda>((base, full), ev).
     cbind (get_eventmapping full) (\<lambda>em.
     cbind (append_events ev dump_events em) (\<lambda>em.
     Inr ((base, full, em), ev)))))"

section \<open>Helpers called by the instrumented code\<close>

record ClgInstrInfo =
  instr_offset :: UInt
  instr_size :: UInt
  cost_offset :: UInt
  eventset :: "EventSet option"

text \<open>
  The state the helpers work on: the simulator, the predictor, the base address and the cost array of
  the basic block, the cost of the running context and the one of skipped functions, where the
  context is in one. The arrays are separate, as the allocator gives them.
\<close>

record clg_state =
  cl_sim :: clgsim
  cl_pred :: branchpred
  bb_base :: Addr
  collect :: bool
  state_cost :: "ULong list"
  nonskipped :: "ULong list option"
  cost_base :: "ULong list"

record clg_config =
  cfg_sim :: simulator
  cfg_wb :: bool
  cfg_full :: EventSet
  cfg_arch :: VGA_arch

definition fullOffset :: "clg_config \<Rightarrow> nat \<Rightarrow> nat" where
  "fullOffset cfg g = es_offset (cfg_full cfg) ! g"

text \<open>Two counters are incremented together.\<close>

definition inc2 :: "nat \<Rightarrow> nat \<Rightarrow> ULong list \<times> ULong list \<Rightarrow> (ULong list \<times> ULong list) cres" where
  "inc2 i1 i2 = (\<lambda>(c1, c2).
     if i1 \<ge> length c1 \<or> i2 \<ge> length c2 then Inl Out_of_bounds
     else Inr (c1[i1 := c1 ! i1 + 1], c2[i2 := c2 ! i2 + 1]))"

definition inc_costs ::
  "bool \<Rightarrow> CacheModelResult \<Rightarrow> nat \<Rightarrow> nat \<Rightarrow> ULong list \<times> ULong list \<Rightarrow> (ULong list \<times> ULong list) cres" where
  "inc_costs wb r i1 i2 cs =
     cbind (if r = WriteBackMemAccess \<and> wb then inc2 (i1 + 3) (i2 + 3) cs else Inr cs) (\<lambda>cs.
     cbind (if r \<in> {WriteBackMemAccess, MemAccess} then inc2 (i1 + 2) (i2 + 2) cs else Inr cs) (\<lambda>cs.
     cbind (if r \<in> {WriteBackMemAccess, MemAccess, LL_Hit} then inc2 (i1 + 1) (i2 + 1) cs else Inr cs) (\<lambda>cs.
     inc2 i1 i2 cs)))"

text \<open>
  The cost of an event goes to the running context, and to the skipped functions or else to the
  instruction. The function \<open>inc\<close> increments the two, at the given positions.
\<close>

definition add_own ::
  "clg_config \<Rightarrow> ClgInstrInfo \<Rightarrow> nat \<Rightarrow>
   (nat \<Rightarrow> nat \<Rightarrow> ULong list \<times> ULong list \<Rightarrow> (ULong list \<times> ULong list) cres) \<Rightarrow> clg_state \<Rightarrow> clg_state cres" where
  "add_own cfg ii g inc st =
     (case nonskipped st of
        Some sk \<Rightarrow>
          cbind (inc (fullOffset cfg g) (fullOffset cfg g) (sk, state_cost st)) (\<lambda>(sk, c).
          Inr (st\<lparr>nonskipped := Some sk, state_cost := c\<rparr>))
      | None \<Rightarrow>
          (case eventset ii of
             None \<Rightarrow> Inl Null_deref
           | Some es \<Rightarrow>
               cbind (inc (unat (cost_offset ii) + es_offset es ! g) (fullOffset cfg g) (cost_base st, state_cost st)) (\<lambda>(b, c).
               Inr (st\<lparr>cost_base := b, state_cost := c\<rparr>))))"

definition add_costs :: "clg_config \<Rightarrow> ClgInstrInfo \<Rightarrow> nat \<Rightarrow> CacheModelResult \<Rightarrow> clg_state \<Rightarrow> clg_state cres" where
  "add_costs cfg ii g r = add_own cfg ii g (inc_costs (cfg_wb cfg) r)"

definition sim_fetch :: "clg_config \<Rightarrow> ClgInstrInfo \<Rightarrow> clg_state \<Rightarrow> (CacheModelResult \<times> clg_state) cres" where
  "sim_fetch cfg ii st =
     cbind (sim_I1_Read (cfg_sim cfg) (bb_base st + ucast (instr_offset ii)) (ucast (instr_size ii)) (cl_sim st)) (\<lambda>(r, s).
     Inr (r, st\<lparr>cl_sim := s\<rparr>))"

definition sim_load :: "clg_config \<Rightarrow> Addr \<Rightarrow> UWord \<Rightarrow> clg_state \<Rightarrow> (CacheModelResult \<times> clg_state) cres" where
  "sim_load cfg data_addr data_size st =
     cbind (sim_D1_Read (cfg_sim cfg) data_addr (ucast data_size) (cl_sim st)) (\<lambda>(r, s). Inr (r, st\<lparr>cl_sim := s\<rparr>))"

definition sim_store :: "clg_config \<Rightarrow> Addr \<Rightarrow> UWord \<Rightarrow> clg_state \<Rightarrow> (CacheModelResult \<times> clg_state) cres" where
  "sim_store cfg data_addr data_size st =
     cbind (sim_D1_Write (cfg_sim cfg) data_addr (ucast data_size) (cl_sim st)) (\<lambda>(r, s). Inr (r, st\<lparr>cl_sim := s\<rparr>))"

definition clg_log_1I0D :: "clg_config \<Rightarrow> ClgInstrInfo \<Rightarrow> clg_state \<Rightarrow> clg_state cres" where
  "clg_log_1I0D cfg ii st =
     cbind (sim_fetch cfg ii st) (\<lambda>(IrRes, st).
     if collect st then add_costs cfg ii EG_IR IrRes st else Inr st)"

definition clg_log_2I0D :: "clg_config \<Rightarrow> ClgInstrInfo \<Rightarrow> ClgInstrInfo \<Rightarrow> clg_state \<Rightarrow> clg_state cres" where
  "clg_log_2I0D cfg ii1 ii2 st =
     cbind (sim_fetch cfg ii1 st) (\<lambda>(Ir1Res, st).
     cbind (sim_fetch cfg ii2 st) (\<lambda>(Ir2Res, st).
     if \<not> collect st then Inr st
     else cbind (add_costs cfg ii1 EG_IR Ir1Res st) (add_costs cfg ii2 EG_IR Ir2Res)))"

definition clg_log_3I0D :: "clg_config \<Rightarrow> ClgInstrInfo \<Rightarrow> ClgInstrInfo \<Rightarrow> ClgInstrInfo \<Rightarrow> clg_state \<Rightarrow> clg_state cres" where
  "clg_log_3I0D cfg ii1 ii2 ii3 st =
     cbind (sim_fetch cfg ii1 st) (\<lambda>(Ir1Res, st).
     cbind (sim_fetch cfg ii2 st) (\<lambda>(Ir2Res, st).
     cbind (sim_fetch cfg ii3 st) (\<lambda>(Ir3Res, st).
     if \<not> collect st then Inr st
     else cbind (add_costs cfg ii1 EG_IR Ir1Res st) (\<lambda>st.
       cbind (add_costs cfg ii2 EG_IR Ir2Res st) (add_costs cfg ii3 EG_IR Ir3Res)))))"

definition clg_log_1I1Dr :: "clg_config \<Rightarrow> ClgInstrInfo \<Rightarrow> Addr \<Rightarrow> UWord \<Rightarrow> clg_state \<Rightarrow> clg_state cres" where
  "clg_log_1I1Dr cfg ii data_addr data_size st =
     cbind (sim_fetch cfg ii st) (\<lambda>(IrRes, st).
     cbind (sim_load cfg data_addr data_size st) (\<lambda>(DrRes, st).
     if collect st then cbind (add_costs cfg ii EG_IR IrRes st) (add_costs cfg ii EG_DR DrRes) else Inr st))"

definition clg_log_0I1Dr :: "clg_config \<Rightarrow> ClgInstrInfo \<Rightarrow> Addr \<Rightarrow> UWord \<Rightarrow> clg_state \<Rightarrow> clg_state cres" where
  "clg_log_0I1Dr cfg ii data_addr data_size st =
     cbind (sim_load cfg data_addr data_size st) (\<lambda>(DrRes, st).
     if collect st then add_costs cfg ii EG_DR DrRes st else Inr st)"

definition clg_log_1I1Dw :: "clg_config \<Rightarrow> ClgInstrInfo \<Rightarrow> Addr \<Rightarrow> UWord \<Rightarrow> clg_state \<Rightarrow> clg_state cres" where
  "clg_log_1I1Dw cfg ii data_addr data_size st =
     cbind (sim_fetch cfg ii st) (\<lambda>(IrRes, st).
     cbind (sim_store cfg data_addr data_size st) (\<lambda>(DwRes, st).
     if collect st then cbind (add_costs cfg ii EG_IR IrRes st) (add_costs cfg ii EG_DW DwRes) else Inr st))"

definition clg_log_0I1Dw :: "clg_config \<Rightarrow> ClgInstrInfo \<Rightarrow> Addr \<Rightarrow> UWord \<Rightarrow> clg_state \<Rightarrow> clg_state cres" where
  "clg_log_0I1Dw cfg ii data_addr data_size st =
     cbind (sim_store cfg data_addr data_size st) (\<lambda>(DwRes, st).
     if collect st then add_costs cfg ii EG_DW DwRes st else Inr st)"

text \<open>Bus events and branches.\<close>

definition clg_log_global_event :: "clg_config \<Rightarrow> ClgInstrInfo \<Rightarrow> clg_state \<Rightarrow> clg_state cres" where
  "clg_log_global_event cfg ii st =
     (if \<not> collect st then Inr st
      else case eventset ii of None \<Rightarrow> Inl Null_deref | Some es \<Rightarrow>
        cassert (es_mask es AND push_bit EG_BUS 1 > 0) (add_own cfg ii EG_BUS inc2 st))"

definition inc_branch :: "bool \<Rightarrow> nat \<Rightarrow> nat \<Rightarrow> ULong list \<times> ULong list \<Rightarrow> (ULong list \<times> ULong list) cres" where
  "inc_branch miss i1 i2 cs =
     cbind (inc2 i1 i2 cs) (\<lambda>cs. if miss then inc2 (i1 + 1) (i2 + 1) cs else Inr cs)"

definition clg_log_cond_branch :: "clg_config \<Rightarrow> ClgInstrInfo \<Rightarrow> int \<Rightarrow> clg_state \<Rightarrow> clg_state cres" where
  "clg_log_cond_branch cfg ii taken st =
     cbind (do_cond_branch_predict (cfg_arch cfg) (bb_base st + ucast (instr_offset ii)) taken (cl_pred st)) (\<lambda>(m, p).
     let miss = (1 AND m \<noteq> 0); st = st\<lparr>cl_pred := p\<rparr> in
     if \<not> collect st then Inr st
     else case eventset ii of None \<Rightarrow> Inl Null_deref | Some es \<Rightarrow>
       cassert (es_mask es AND push_bit EG_BC 1 > 0) (add_own cfg ii EG_BC (inc_branch miss) st))"

definition clg_log_ind_branch :: "clg_config \<Rightarrow> ClgInstrInfo \<Rightarrow> Addr \<Rightarrow> clg_state \<Rightarrow> clg_state cres" where
  "clg_log_ind_branch cfg ii actual_dst st =
     cbind (do_ind_branch_predict (cfg_arch cfg) (bb_base st + ucast (instr_offset ii)) actual_dst (cl_pred st)) (\<lambda>(m, p).
     let miss = (1 AND m \<noteq> 0); st = st\<lparr>cl_pred := p\<rparr> in
     if \<not> collect st then Inr st
     else case eventset ii of None \<Rightarrow> Inl Null_deref | Some es \<Rightarrow>
       cassert (es_mask es AND push_bit EG_BI 1 > 0) (add_own cfg ii EG_BI (inc_branch miss) st))"

text \<open>At dump time the cost of an instruction goes to the total.\<close>

definition cachesim_add_icost ::
  "clg_opts \<Rightarrow> EventSet \<Rightarrow> event_tables \<Rightarrow> ULong list \<Rightarrow> ULong list \<Rightarrow> ClgInstrInfo \<Rightarrow> ULong \<Rightarrow> (ULong list \<times> ULong list) cres" where
  "cachesim_add_icost o1 full ev tot bbcc_cost ii exe_count =
     (let i = es_offset full ! EG_IR; k = unat (cost_offset ii) in
      cbind (if simulate_cache o1 then Inr tot
             else if i \<ge> length tot then Inl Out_of_bounds else Inr (tot[i := tot ! i + exe_count])) (\<lambda>tot.
      if eventset ii = None then Inr (tot, bbcc_cost)
      else cbind (add_and_zero_cost2 (Some full) (Some tot) (eventset ii) (Some (drop k bbcc_cost)) ev) (\<lambda>(_, t, b).
        Inr (the t, take k bbcc_cost @ the b))))"

section \<open>What the helpers count\<close>

text \<open>A run of helper calls, and the references of a call in the order the helpers make them.\<close>

datatype clg_call =
    Call_1I0D ClgInstrInfo
  | Call_2I0D ClgInstrInfo ClgInstrInfo
  | Call_3I0D ClgInstrInfo ClgInstrInfo ClgInstrInfo
  | Call_1I1Dr ClgInstrInfo Addr UWord
  | Call_0I1Dr ClgInstrInfo Addr UWord
  | Call_1I1Dw ClgInstrInfo Addr UWord
  | Call_0I1Dw ClgInstrInfo Addr UWord

fun do_call :: "clg_config \<Rightarrow> clg_call \<Rightarrow> clg_state \<Rightarrow> clg_state cres" where
  "do_call cfg (Call_1I0D ii) = clg_log_1I0D cfg ii"
| "do_call cfg (Call_2I0D ii1 ii2) = clg_log_2I0D cfg ii1 ii2"
| "do_call cfg (Call_3I0D ii1 ii2 ii3) = clg_log_3I0D cfg ii1 ii2 ii3"
| "do_call cfg (Call_1I1Dr ii a sz) = clg_log_1I1Dr cfg ii a sz"
| "do_call cfg (Call_0I1Dr ii a sz) = clg_log_0I1Dr cfg ii a sz"
| "do_call cfg (Call_1I1Dw ii a sz) = clg_log_1I1Dw cfg ii a sz"
| "do_call cfg (Call_0I1Dw ii a sz) = clg_log_0I1Dw cfg ii a sz"

fun run_calls :: "clg_config \<Rightarrow> clg_call list \<Rightarrow> clg_state \<Rightarrow> clg_state cres" where
  "run_calls cfg [] st = Inr st"
| "run_calls cfg (c # cs) st = cbind (do_call cfg c st) (run_calls cfg cs)"

datatype cref = Fetch Addr UChar | Load Addr UChar | Store Addr UChar

definition fetch_ref :: "Addr \<Rightarrow> ClgInstrInfo \<Rightarrow> cref" where
  "fetch_ref base ii = Fetch (base + ucast (instr_offset ii)) (ucast (instr_size ii))"

fun refs_of :: "Addr \<Rightarrow> clg_call \<Rightarrow> cref list" where
  "refs_of base (Call_1I0D ii) = [fetch_ref base ii]"
| "refs_of base (Call_2I0D ii1 ii2) = [fetch_ref base ii1, fetch_ref base ii2]"
| "refs_of base (Call_3I0D ii1 ii2 ii3) = [fetch_ref base ii1, fetch_ref base ii2, fetch_ref base ii3]"
| "refs_of base (Call_1I1Dr ii a sz) = [fetch_ref base ii, Load a (ucast sz)]"
| "refs_of base (Call_0I1Dr ii a sz) = [Load a (ucast sz)]"
| "refs_of base (Call_1I1Dw ii a sz) = [fetch_ref base ii, Store a (ucast sz)]"
| "refs_of base (Call_0I1Dw ii a sz) = [Store a (ucast sz)]"

text \<open>
  The same references in the simulator of Cachegrind: its caches, and the accesses, first level and
  last level misses of fetches, loads and stores.
\<close>

type_synonym counts = "ULong \<times> ULong \<times> ULong"
type_synonym cg_counts = "cachesim \<times> counts \<times> counts \<times> counts"

fun cg_ref :: "cref \<Rightarrow> cg_counts \<Rightarrow> cg_counts cres" where
  "cg_ref (Fetch a sz) (s, (n, m1, mL), d, w) =
     cbind (cachesim_I1_doref_Gen a sz s m1 mL) (\<lambda>(s, m1, mL). Inr (s, (n + 1, m1, mL), d, w))"
| "cg_ref (Load a sz) (s, i, (n, m1, mL), w) =
     cbind (cachesim_D1_doref a sz s m1 mL) (\<lambda>(s, m1, mL). Inr (s, i, (n + 1, m1, mL), w))"
| "cg_ref (Store a sz) (s, i, d, n, m1, mL) =
     cbind (cachesim_D1_doref a sz s m1 mL) (\<lambda>(s, m1, mL). Inr (s, i, d, n + 1, m1, mL))"

fun cg_refs :: "cref list \<Rightarrow> cg_counts \<Rightarrow> cg_counts cres" where
  "cg_refs [] s = Inr s"
| "cg_refs (r # rs) s = cbind (cg_ref r s) (cg_refs rs)"

lemma cg_refs_append: "cg_refs (rs @ qs) s = cbind (cg_refs rs s) (cg_refs qs)"
  by (induction rs arbitrary: s) (auto simp: cbind_def split: sum.splits)

text \<open>The counts of a group in the cost of the running context, and how a result changes them.\<close>

definition group_counts :: "ULong list \<Rightarrow> nat \<Rightarrow> counts" where
  "group_counts c i = (c ! i, c ! (i + 1), c ! (i + 2))"

definition plus_res :: "CacheModelResult \<Rightarrow> counts \<Rightarrow> counts" where
  "plus_res r = (\<lambda>(n, m1, mL). (n + 1, if r = L1_Hit then m1 else m1 + 1, if r = L1_Hit \<or> r = LL_Hit then mL else mL + 1))"

definition clg_view :: "clg_config \<Rightarrow> clg_state \<Rightarrow> cg_counts" where
  "clg_view cfg st = (cg_sim (cl_sim st), group_counts (state_cost st) (fullOffset cfg EG_IR),
     group_counts (state_cost st) (fullOffset cfg EG_DR), group_counts (state_cost st) (fullOffset cfg EG_DW))"

lemma cg_ref_Fetch:
  "cg_ref (Fetch a sz) (cg_sim s, i, d, w) = cbind (clg_I1_ref a sz s) (\<lambda>(r, s). Inr (cg_sim s, plus_res r i, d, w))"
proof (cases i)
  case (fields n m1 mL)
  then show ?thesis
    by (simp flip: I1_ref_agrees) (auto simp: as_counts_def plus_res_def cbind_def split: sum.splits)
qed

lemma cg_ref_Load:
  "cg_ref (Load a sz) (cg_sim s, i, d, w) = cbind (clg_D1_ref a sz s) (\<lambda>(r, s). Inr (cg_sim s, i, plus_res r d, w))"
proof (cases d)
  case (fields n m1 mL)
  then show ?thesis
    by (simp flip: D1_ref_agrees) (auto simp: as_counts_def plus_res_def cbind_def split: sum.splits)
qed

lemma cg_ref_Store:
  "cg_ref (Store a sz) (cg_sim s, i, d, w) = cbind (clg_D1_ref a sz s) (\<lambda>(r, s). Inr (cg_sim s, i, d, plus_res r w))"
proof (cases w)
  case (fields n m1 mL)
  then show ?thesis
    by (simp flip: D1_ref_agrees) (auto simp: as_counts_def plus_res_def cbind_def split: sum.splits)
qed

text \<open>The lengths of the arrays, which the helpers keep, and what they require of them.\<close>

definition shape :: "clg_state \<Rightarrow> Addr \<times> bool \<times> nat \<times> nat option \<times> nat" where
  "shape st = (bb_base st, collect st, length (state_cost st), map_option length (nonskipped st), length (cost_base st))"

definition own_ok :: "clg_config \<Rightarrow> clg_state \<Rightarrow> ClgInstrInfo \<times> nat \<Rightarrow> bool" where
  "own_ok cfg st = (\<lambda>(ii, g).
     case nonskipped st of
       Some sk \<Rightarrow> fullOffset cfg g + 3 \<le> length sk
     | None \<Rightarrow> (case eventset ii of None \<Rightarrow> False
         | Some es \<Rightarrow> unat (cost_offset ii) + es_offset es ! g + 3 \<le> length (cost_base st)))"

fun uses :: "clg_call \<Rightarrow> (ClgInstrInfo \<times> nat) list" where
  "uses (Call_1I0D ii) = [(ii, EG_IR)]"
| "uses (Call_2I0D ii1 ii2) = [(ii1, EG_IR), (ii2, EG_IR)]"
| "uses (Call_3I0D ii1 ii2 ii3) = [(ii1, EG_IR), (ii2, EG_IR), (ii3, EG_IR)]"
| "uses (Call_1I1Dr ii a sz) = [(ii, EG_IR), (ii, EG_DR)]"
| "uses (Call_0I1Dr ii a sz) = [(ii, EG_DR)]"
| "uses (Call_1I1Dw ii a sz) = [(ii, EG_IR), (ii, EG_DW)]"
| "uses (Call_0I1Dw ii a sz) = [(ii, EG_DW)]"

definition layout_ok :: "clg_config \<Rightarrow> nat \<Rightarrow> bool" where
  "layout_ok cfg n \<longleftrightarrow> fullOffset cfg EG_IR + 3 \<le> fullOffset cfg EG_DR \<and>
     fullOffset cfg EG_DR + 3 \<le> fullOffset cfg EG_DW \<and> fullOffset cfg EG_DW + 3 \<le> n"

definition simple_sim :: "clg_config \<Rightarrow> bool" where
  "simple_sim cfg \<longleftrightarrow> \<not> cfg_wb cfg \<and> sim_I1_Read (cfg_sim cfg) = clg_I1_ref \<and>
     sim_D1_Read (cfg_sim cfg) = clg_D1_ref \<and> sim_D1_Write (cfg_sim cfg) = clg_D1_ref"

lemma own_ok_shape: "shape st' = shape st \<Longrightarrow> own_ok cfg st' = own_ok cfg st"
  by (auto simp: shape_def own_ok_def fun_eq_iff split: option.splits)

text \<open>One array after a result.\<close>

definition inc_res :: "CacheModelResult \<Rightarrow> nat \<Rightarrow> ULong list \<Rightarrow> ULong list" where
  "inc_res r i c =
     (let c = (if r \<in> {WriteBackMemAccess, MemAccess} then c[i + 2 := c ! (i + 2) + 1] else c);
          c = (if r \<noteq> L1_Hit then c[i + 1 := c ! (i + 1) + 1] else c)
      in c[i := c ! i + 1])"

lemma length_inc_res [simp]: "length (inc_res r i c) = length c"
  by (simp add: inc_res_def Let_def)

lemma inc_costs_res:
  "i1 + 3 \<le> length c1 \<Longrightarrow> i2 + 3 \<le> length c2 \<Longrightarrow>
   inc_costs False r i1 i2 (c1, c2) = Inr (inc_res r i1 c1, inc_res r i2 c2)"
  by (cases r) (simp_all add: inc_costs_def inc2_def inc_res_def Let_def)

lemma group_counts_inc_res:
  "i + 3 \<le> length c \<Longrightarrow> group_counts (inc_res r i c) i = plus_res r (group_counts c i)"
  by (cases r) (simp_all add: group_counts_def inc_res_def plus_res_def Let_def)

lemma group_counts_other:
  "i + 3 \<le> j \<or> j + 3 \<le> i \<Longrightarrow> group_counts (inc_res r i c) j = group_counts c j"
  by (cases r) (auto simp: group_counts_def inc_res_def Let_def)

lemma add_costs_ok:
  assumes "\<not> cfg_wb cfg" and "own_ok cfg st (ii, g)" and "fullOffset cfg g + 3 \<le> length (state_cost st)"
  shows "\<exists>st'. add_costs cfg ii g r st = Inr st' \<and> shape st' = shape st \<and> cl_sim st' = cl_sim st \<and>
    state_cost st' = inc_res r (fullOffset cfg g) (state_cost st)"
  using assms
  by (auto simp: add_costs_def add_own_def own_ok_def shape_def inc_costs_res split: option.splits)

text \<open>Every helper makes its references first and then adds their costs.\<close>

fun sims :: "cref list \<Rightarrow> clgsim \<Rightarrow> (CacheModelResult list \<times> clgsim) cres" where
  "sims [] s = Inr ([], s)"
| "sims (ref # refs) s =
     cbind (case ref of Fetch a sz \<Rightarrow> clg_I1_ref a sz s | Load a sz \<Rightarrow> clg_D1_ref a sz s | Store a sz \<Rightarrow> clg_D1_ref a sz s)
       (\<lambda>(r, s). cbind (sims refs s) (\<lambda>(res, s). Inr (r # res, s)))"

fun add_all :: "clg_config \<Rightarrow> (ClgInstrInfo \<times> nat) list \<Rightarrow> CacheModelResult list \<Rightarrow> clg_state \<Rightarrow> clg_state cres" where
  "add_all cfg (u # us) (r # res) st = cbind (add_costs cfg (fst u) (snd u) r st) (add_all cfg us res)"
| "add_all cfg us res st = Inr st"

definition plus_group :: "nat \<times> CacheModelResult \<Rightarrow> counts \<times> counts \<times> counts \<Rightarrow> counts \<times> counts \<times> counts" where
  "plus_group = (\<lambda>(g, r) (i, d, w).
     (if g = EG_IR then plus_res r i else i, if g = EG_DR then plus_res r d else d, if g = EG_DW then plus_res r w else w))"

fun group_of :: "cref \<Rightarrow> nat" where
  "group_of (Fetch a sz) = EG_IR"
| "group_of (Load a sz) = EG_DR"
| "group_of (Store a sz) = EG_DW"

lemma uses_groups: "map snd (uses c) = map group_of (refs_of base c)"
  by (cases c) (simp_all add: fetch_ref_def)

lemma do_call_sims:
  "simple_sim cfg \<Longrightarrow> do_call cfg c st =
     cbind (sims (refs_of (bb_base st) c) (cl_sim st)) (\<lambda>(res, s).
       if collect st then add_all cfg (uses c) res (st\<lparr>cl_sim := s\<rparr>) else Inr (st\<lparr>cl_sim := s\<rparr>))"
  by (cases c; auto simp: simple_sim_def fetch_ref_def sim_fetch_def sim_load_def sim_store_def clg_log_1I0D_def
      clg_log_2I0D_def clg_log_3I0D_def clg_log_1I1Dr_def clg_log_0I1Dr_def clg_log_1I1Dw_def clg_log_0I1Dw_def
      cbind_def split: sum.splits prod.splits)

lemma cg_refs_sims:
  "cg_refs refs (cg_sim s, c) =
     cbind (sims refs s) (\<lambda>(res, s). Inr (cg_sim s, fold plus_group (zip (map group_of refs) res) c))"
proof (induction refs arbitrary: s c)
  case (Cons ref refs)
  obtain i d w where c: "c = (i, d, w)" by (cases c)
  have ne: "EG_DR \<noteq> EG_IR" "EG_DW \<noteq> EG_IR" "EG_DW \<noteq> EG_DR" by (simp_all add: EG_defs)
  have "cg_ref ref (cg_sim s, c) =
      cbind (case ref of Fetch a sz \<Rightarrow> clg_I1_ref a sz s | Load a sz \<Rightarrow> clg_D1_ref a sz s | Store a sz \<Rightarrow> clg_D1_ref a sz s)
        (\<lambda>(r, s). Inr (cg_sim s, plus_group (group_of ref, r) c))"
    by (cases ref) (simp_all only: c cg_ref_Fetch cg_ref_Load cg_ref_Store cref.case group_of.simps,
      simp_all add: plus_group_def ne ne [symmetric])
  then show ?case
    using Cons by (auto simp: cbind_def split: sum.splits)
qed simp

lemma layout_groups:
  assumes "layout_ok cfg n" and "g \<in> {EG_IR, EG_DR, EG_DW}"
  shows "fullOffset cfg g + 3 \<le> n"
    and "h \<in> {EG_IR, EG_DR, EG_DW} \<Longrightarrow> h \<noteq> g \<Longrightarrow>
      fullOffset cfg g + 3 \<le> fullOffset cfg h \<or> fullOffset cfg h + 3 \<le> fullOffset cfg g"
  using assms by (auto simp: layout_ok_def)

definition cost_counts :: "clg_config \<Rightarrow> ULong list \<Rightarrow> counts \<times> counts \<times> counts" where
  "cost_counts cfg c = (group_counts c (fullOffset cfg EG_IR), group_counts c (fullOffset cfg EG_DR),
     group_counts c (fullOffset cfg EG_DW))"

lemma cost_counts_inc_res:
  assumes "layout_ok cfg (length c)" and "g \<in> {EG_IR, EG_DR, EG_DW}"
  shows "cost_counts cfg (inc_res r (fullOffset cfg g) c) = plus_group (g, r) (cost_counts cfg c)"
proof -
  have "group_counts (inc_res r (fullOffset cfg g) c) (fullOffset cfg h) =
      (if g = h then plus_res r (group_counts c (fullOffset cfg h)) else group_counts c (fullOffset cfg h))"
    if "h \<in> {EG_IR, EG_DR, EG_DW}" for h
    using layout_groups [OF assms] that group_counts_inc_res group_counts_other by auto
  then show ?thesis
    by (simp add: cost_counts_def plus_group_def)
qed

lemma add_all_counts:
  assumes "\<not> cfg_wb cfg" and "layout_ok cfg (length (state_cost st))" and "\<forall>u \<in> set us. own_ok cfg st u"
    and "\<forall>u \<in> set us. snd u \<in> {EG_IR, EG_DR, EG_DW}"
  shows "\<exists>st'. add_all cfg us res st = Inr st' \<and> shape st' = shape st \<and> cl_sim st' = cl_sim st \<and>
    cost_counts cfg (state_cost st') = fold plus_group (zip (map snd us) res) (cost_counts cfg (state_cost st))"
  using assms(2-4)
proof (induction us res arbitrary: st rule: list_induct2')
  case (4 u us r res)
  obtain ii g where u: "u = (ii, g)" by (cases u)
  have g: "g \<in> {EG_IR, EG_DR, EG_DW}" "own_ok cfg st (ii, g)"
    using 4(3,4) by (simp_all add: u)
  from add_costs_ok [OF assms(1) g(2) layout_groups(1) [OF 4(2) g(1)]] obtain st1 where
    st1: "add_costs cfg ii g r st = Inr st1" "shape st1 = shape st" "cl_sim st1 = cl_sim st"
      "state_cost st1 = inc_res r (fullOffset cfg g) (state_cost st)"
    by blast
  have "\<exists>st'. add_all cfg us res st1 = Inr st' \<and> shape st' = shape st1 \<and> cl_sim st' = cl_sim st1 \<and>
      cost_counts cfg (state_cost st') = fold plus_group (zip (map snd us) res) (cost_counts cfg (state_cost st1))"
    using 4(2-4) st1(4) by (intro "4.IH") (simp_all add: own_ok_shape [OF st1(2)])
  then show ?case
    by (auto simp: u st1 cost_counts_inc_res [OF 4(2) g(1)])
qed simp_all

text \<open>
  C3: A run of the helpers with the simple simulator, on arrays that have the event sets' sizes, adds
  to the cost of the running context exactly what the simulator of Cachegrind counts for the same
  references in the same order: the accesses and the misses in the first and in the last level of
  fetches, loads and stores. The two stop with the same fault where one does.
\<close>

theorem run_calls_counts:
  assumes "simple_sim cfg" and "layout_ok cfg (length (state_cost st))" and "collect st"
    and "\<forall>c \<in> set calls. \<forall>u \<in> set (uses c). own_ok cfg st u"
  shows "cbind (run_calls cfg calls st) (\<lambda>st'. Inr (clg_view cfg st')) =
    cg_refs (concat (map (refs_of (bb_base st)) calls)) (clg_view cfg st)"
  using assms(2-4)
proof (induction calls arbitrary: st)
  case (Cons c calls)
  have groups: "\<forall>u \<in> set (uses c). snd u \<in> {EG_IR, EG_DR, EG_DW}"
    by (cases c) simp_all
  have view: "clg_view cfg st = (cg_sim (cl_sim st), cost_counts cfg (state_cost st))" for st
    by (simp add: clg_view_def cost_counts_def)
  have refs: "cg_refs (refs_of (bb_base st) c) (cg_sim (cl_sim st), cost_counts cfg (state_cost st)) =
      cbind (sims (refs_of (bb_base st) c) (cl_sim st)) (\<lambda>(res, s). Inr (cg_sim s,
        fold plus_group (zip (map snd (uses c)) res) (cost_counts cfg (state_cost st))))"
    by (simp only: cg_refs_sims uses_groups [of c "bb_base st"])
  show ?case
  proof (cases "sims (refs_of (bb_base st) c) (cl_sim st)")
    case (Inl e)
    then show ?thesis
      by (simp add: do_call_sims [OF assms(1)] cg_refs_append view refs)
  next
    case (Inr p)
    obtain res s where p: "p = (res, s)" by (cases p)
    have wb: "\<not> cfg_wb cfg" using assms(1) by (simp add: simple_sim_def)
    have sh: "shape (st\<lparr>cl_sim := s\<rparr>) = shape st" by (simp add: shape_def)
    obtain st' where st': "add_all cfg (uses c) res (st\<lparr>cl_sim := s\<rparr>) = Inr st'" "shape st' = shape st" "cl_sim st' = s"
      "cost_counts cfg (state_cost st') = fold plus_group (zip (map snd (uses c)) res) (cost_counts cfg (state_cost st))"
      using add_all_counts [OF wb, of "st\<lparr>cl_sim := s\<rparr>" "uses c" res] Cons.prems groups sh
      by (auto simp: own_ok_shape [OF sh])
    have "bb_base st' = bb_base st" "collect st'" "layout_ok cfg (length (state_cost st'))"
      using st'(2) Cons.prems by (auto simp: shape_def)
    moreover from this have "cbind (run_calls cfg calls st') (\<lambda>st'. Inr (clg_view cfg st')) =
        cg_refs (concat (map (refs_of (bb_base st')) calls)) (clg_view cfg st')"
      using Cons.prems(3) by (intro Cons.IH) (simp_all add: own_ok_shape [OF st'(2)])
    ultimately show ?thesis
      using Cons.prems(2) st' Inr p by (simp add: do_call_sims [OF assms(1)] cg_refs_append view refs)
  qed
qed simp

definition demo_full :: EventSet where
  "demo_full = \<lparr>es_mask = 511, es_count = 3, es_size = 9, es_offset = [0, 0, 3, 6, 9, 9, 9, 9, 9, 9]\<rparr>"

definition demo_cfg :: clg_config where
  "demo_cfg = \<lparr>cfg_sim = \<lparr>sim_I1_Read = clg_I1_ref, sim_D1_Read = clg_D1_ref, sim_D1_Write = clg_D1_ref\<rparr>,
     cfg_wb = False, cfg_full = demo_full, cfg_arch = VGA_amd64\<rparr>"

definition demo_ii :: ClgInstrInfo where
  "demo_ii = \<lparr>instr_offset = 0, instr_size = 4, cost_offset = 0, eventset = Some demo_full\<rparr>"

definition demo_clg :: clg_state where
  "demo_clg = \<lparr>cl_sim = \<lparr>clg_I1 = demo_LL, clg_D1 = demo_LL, clg_LL = demo_LL, pf_lastblock = [], pf_seqblocks = [],
       prefetch_up = 0, prefetch_down = 0\<rparr>, cl_pred = branchpred_init, bb_base = 4096, collect = True,
     state_cost = replicate 9 0, nonskipped = None, cost_base = replicate 9 0\<rparr>"

theorem run_calls_counts_witness:
  "simple_sim demo_cfg \<and> layout_ok demo_cfg (length (state_cost demo_clg)) \<and> collect demo_clg \<and>
   cbind (run_calls demo_cfg [Call_1I1Dr demo_ii 8192 8, Call_0I1Dw demo_ii 8192 8] demo_clg) (\<lambda>st'. Inr (clg_view demo_cfg st')) =
   cg_refs [Fetch 4096 4, Load 8192 8, Store 8192 8] (clg_view demo_cfg demo_clg)"
proof -
  have "simple_sim demo_cfg" "layout_ok demo_cfg (length (state_cost demo_clg))" "collect demo_clg"
    by (simp_all add: simple_sim_def layout_ok_def demo_cfg_def demo_clg_def fullOffset_def demo_full_def EG_defs)
  moreover have "\<forall>c \<in> set [Call_1I1Dr demo_ii 8192 8, Call_0I1Dw demo_ii 8192 8]. \<forall>u \<in> set (uses c). own_ok demo_cfg demo_clg u"
    by (simp add: own_ok_def demo_ii_def demo_clg_def demo_full_def EG_defs)
  ultimately show ?thesis
    using run_calls_counts [of demo_cfg demo_clg "[Call_1I1Dr demo_ii 8192 8, Call_0I1Dw demo_ii 8192 8]"]
    by (simp add: fetch_ref_def demo_ii_def demo_clg_def)
qed

section \<open>Start of the simulation\<close>

text \<open>The options of \<open>--cache-sim=yes\<close> alone.\<close>

definition cache_sim_opts :: clg_opts where
  "cache_sim_opts = \<lparr>simulate_cache = True, simulate_branch = False, collect_bus = False, collect_alloc = False,
     collect_systime = systime_no, simulate_writeback = False, simulate_hwpref = False, simulate_sectors = False,
     collect_cacheuse = False, dump_instr = False, clg_caches = no_clo_caches\<rparr>"

lemma tag_mask_flags:
  assumes "4 \<le> n"
  shows "tag_mask_of (int n) AND CACHELINE_FLAGMASK = 0"
proof -
  have flags: "CACHELINE_FLAGMASK = mask 4"
    by (simp add: CACHELINE_FLAGMASK_def mask_eq_exp_minus_1)
  have "push_bit n (1 :: UInt) - 1 = mask n"
    by (simp add: mask_eq_exp_minus_1 push_bit_eq_mult)
  then show ?thesis
    unfolding flags tag_mask_of_def nat_int
    using assms by (intro bit_word_eqI) (auto simp: bit_simps)
qed

lemma initcache_agrees:
  assumes "Int_fields config" and "valid_cache config"
  obtains k c where "cachesim_initcache config = Inr c" "clg_initcache config = Inr k" "cg_cache k = c"
proof -
  obtain c where c: "cachesim_initcache config = Inr c" "cache_ok c"
    using initcache_valid [OF assms] .
  obtain q sets m n where d: "div_Int (csize config) (cline_size config) = Inr q" "div_Int q (cassoc config) = Inr sets"
    "add_Int sets (- 1) = Inr m" "mul_Int sets (cassoc config) = Inr n"
    and eq: "c = \<lparr>c2_size = csize config, c2_assoc = cassoc config, c2_line_size = cline_size config,
          c2_sets = sets, c2_sets_min_1 = m, c2_line_size_bits = VG_log2 (word_of_int (cline_size config)),
          c2_tag_shift = VG_log2 (word_of_int (cline_size config)) + VG_log2 (word_of_int sets),
          c2_desc_line = desc_line_of config, c2_tags = replicate (nat n) 0\<rparr>"
    using c(1) by (auto simp: cachesim_initcache_def cbind_eq_Inr Let_def)
  obtain j k where j: "4 \<le> j" "VG_log2 (word_of_int (cline_size config)) = int j" and k: "sets = 2 ^ k"
    "2 ^ k * cassoc config * 2 ^ j < 2 ^ 31" "0 < cassoc config"
    using c(2) by (auto simp: cache_ok_def eq)
  have "(2 :: int) ^ k * 1 \<le> 2 ^ k * (cassoc config * 2 ^ j)"
    using k(3) by (intro mult_left_mono) (simp_all add: int_one_le_iff_zero_less)
  then have "(2 :: int) ^ k < 2 ^ 31"
    using k(2) by (simp only: mult.assoc mult_1_right)
  then have "k < 31" by (rule pow2_less_31)
  then have "VG_log2 (word_of_int sets) = int k"
    by (simp add: k(1) VG_log2_eq_iff)
  then have "tag_mask_of (int j + VG_log2 (word_of_int sets)) AND CACHELINE_FLAGMASK = 0"
    using tag_mask_flags [of "j + k"] j(1) by simp
  then show thesis
    using c(1) d j(2) by (intro that) (auto simp: clg_initcache_def clg_clearcache_def eq cg_cache_def
      cache_t2.truncate_def Let_def)
qed

text \<open>
  C15: For the same cache options, start-up of Callgrind with cache simulation succeeds where start-up
  of Cachegrind does, with the same minimum line size and the same caches, and with the simple
  simulator unless another one is asked for.
\<close>

theorem callgrind_starts_as_cachegrind:
  assumes "caches_ok clo" and "cg_post_clo_init arch ci largest clo = Inr (opts, st)"
    and "simulate_cache o1" and "clg_caches o1 = clo_cache clo" and "\<not> collect_cacheuse o1"
  shows "\<exists>s. clg_cachesim_post_clo_init arch ci largest cacheuse o1 =
      Inr (Some (min_line_size opts, choose_simulator cacheuse o1, s), o1) \<and> cg_sim s = sim st \<and>
    (\<not> simulate_hwpref o1 \<and> \<not> simulate_writeback o1 \<longrightarrow>
       simple_sim \<lparr>cfg_sim = choose_simulator cacheuse o1, cfg_wb = simulate_writeback o1, cfg_full = full, cfg_arch = arch\<rparr>)"
proof -
  obtain i d l where c: "post_clo_init_configure_caches arch ci (clo_cache clo) = Inr (i, d, l)"
    using assms(2) by (auto simp: cg_post_clo_init_def cbind_eq_Inr)
  have ok: "Int_fields i" "valid_cache i" "Int_fields d" "valid_cache d" "Int_fields l" "valid_cache l"
    using configured_valid [OF _ _ _ c] assms(1) by (auto simp: caches_ok_def)
  obtain ki ci' where i: "cachesim_initcache i = Inr ci'" "clg_initcache i = Inr ki" "cg_cache ki = ci'"
    using initcache_agrees [OF ok(1,2)] .
  obtain kd cd where d: "cachesim_initcache d = Inr cd" "clg_initcache d = Inr kd" "cg_cache kd = cd"
    using initcache_agrees [OF ok(3,4)] .
  obtain kl cl where l: "cachesim_initcache l = Inr cl" "clg_initcache l = Inr kl" "cg_cache kl = cl"
    using initcache_agrees [OF ok(5,6)] .
  show ?thesis
    using assms(2-5) c i d l
    by (auto simp: cg_post_clo_init_def cachesim_initcaches_def clg_cachesim_post_clo_init_def cg_sim_def
        prefetch_clear_def empty_cg_def simple_sim_def choose_simulator_def Let_def split: if_splits)
qed

theorem callgrind_starts_as_cachegrind_witness:
  "\<exists>opts st s. cg_post_clo_init VGA_amd64 \<lparr>vci_num_levels = 0, vci_caches = []\<rparr> 32 (cg_clo_init\<lparr>clo_bs := True\<rparr>) = Inr (opts, st) \<and>
     clg_cachesim_post_clo_init VGA_amd64 \<lparr>vci_num_levels = 0, vci_caches = []\<rparr> 32 (cfg_sim demo_cfg) cache_sim_opts =
       Inr (Some (min_line_size opts, choose_simulator (cfg_sim demo_cfg) cache_sim_opts, s), cache_sim_opts) \<and> cg_sim s = sim st"
proof -
  obtain opts st where st: "cg_post_clo_init VGA_amd64 \<lparr>vci_num_levels = 0, vci_caches = []\<rparr> 32 (cg_clo_init\<lparr>clo_bs := True\<rparr>) = Inr (opts, st)"
    using demo_start [of True] by blast
  have "caches_ok (cg_clo_init\<lparr>clo_bs := True\<rparr>)"
    using caches_ok_init by (simp add: caches_ok_def)
  from callgrind_starts_as_cachegrind [OF this st, of cache_sim_opts "cfg_sim demo_cfg"] st show ?thesis
    by (auto simp: cache_sim_opts_def cg_clo_init_def)
qed

section \<open>Events of a run\<close>

text \<open>The events of a set, in the order of its entries.\<close>

fun set_names :: "UInt \<Rightarrow> nat \<Rightarrow> EventGroup option list \<Rightarrow> string list" where
  "set_names m i [] = []"
| "set_names m i (g # gs) = (if in_set m i g then the g else []) @ set_names m (i + 1) gs"

lemma find_name_None: "find_name n i j offset ms = None \<longleftrightarrow> n \<notin> set ms"
  by (induction ms arbitrary: j offset) auto

lemma find_name_Some:
  "find_name n i j offset ms = Some e \<Longrightarrow>
   \<exists>k < length ms. ms ! k = n \<and> e = \<lparr>em_group = i, em_index = j + k, em_off = offset + k\<rparr>"
proof (induction ms arbitrary: j offset)
  case (Cons m ms)
  show ?case
  proof (cases "n = m")
    case True
    then show ?thesis using Cons.prems by (auto intro: exI [of _ 0])
  next
    case False
    then obtain k where "k < length ms" "ms ! k = n" "e = \<lparr>em_group = i, em_index = Suc j + k, em_off = Suc offset + k\<rparr>"
      using Cons.IH [of "Suc j" "Suc offset"] Cons.prems by auto
    then show ?thesis by (intro exI [of _ "Suc k"]) simp
  qed
qed simp

lemma find_event_None: "find_event m n i offset gs = None \<longleftrightarrow> n \<notin> set (set_names m i gs)"
  by (induction gs arbitrary: i offset) (auto simp: find_name_None split: option.splits dest!: find_name_Some)

lemma find_event_Some:
  "find_event m n i offset gs = Some e \<Longrightarrow>
   \<exists>k < length (set_names m i gs). em_off e = offset + k \<and> set_names m i gs ! k = n \<and>
     i \<le> em_group e \<and> em_group e - i < length gs \<and> gs ! (em_group e - i) \<noteq> None \<and>
     em_index e < length (the (gs ! (em_group e - i))) \<and> the (gs ! (em_group e - i)) ! em_index e = n"
proof (induction gs arbitrary: i offset)
  case (Cons g gs)
  show ?case
  proof (cases "in_set m i g \<and> find_name n i 0 offset (the g) \<noteq> None")
    case True
    then have "find_name n i 0 offset (the g) = Some e"
      using Cons.prems by auto
    then obtain k where "k < length (the g)" "the g ! k = n" "e = \<lparr>em_group = i, em_index = k, em_off = offset + k\<rparr>"
      using find_name_Some [of n i 0 offset "the g" e] by auto
    then show ?thesis
      using True by (intro exI [of _ k]) (auto simp: in_set_def nth_append)
  next
    case False
    let ?o = "if in_set m i g then offset + length (the g) else offset"
    have "find_event m n (Suc i) ?o gs = Some e"
      using False Cons.prems by (auto split: option.splits if_splits)
    from Cons.IH [OF this] obtain k where k: "k < length (set_names m (Suc i) gs)" "em_off e = ?o + k"
      "set_names m (Suc i) gs ! k = n" "Suc i \<le> em_group e" "em_group e - Suc i < length gs"
      "gs ! (em_group e - Suc i) \<noteq> None" "em_index e < length (the (gs ! (em_group e - Suc i)))"
      "the (gs ! (em_group e - Suc i)) ! em_index e = n"
      by blast
    obtain l where "em_group e = Suc (i + l)"
      using k(4) by (auto dest: le_Suc_ex)
    then show ?thesis
      using k by (intro exI [of _ "if in_set m i g then length (the g) + k else k"]) (auto simp: nth_append)
  qed
qed simp

definition entry_is :: "event_tables \<Rightarrow> UInt \<Rightarrow> string \<Rightarrow> EventMappingEntry \<Rightarrow> bool" where
  "entry_is ev m n e \<longleftrightarrow> em_off e < length (set_names m 0 (eventGroup ev)) \<and> set_names m 0 (eventGroup ev) ! em_off e = n \<and>
     eventGroup ev ! em_group e \<noteq> None \<and> em_index e < length (the (eventGroup ev ! em_group e)) \<and>
     the (eventGroup ev ! em_group e) ! em_index e = n"

lemma append_events_ok:
  assumes "length (em_entry em) + length (filter (\<lambda>n. n \<in> set (set_names (es_mask (em_es em)) 0 (eventGroup ev))) ns)
    \<le> em_capacity em"
  shows "\<exists>es. append_events ev ns em = Inr (em\<lparr>em_entry := em_entry em @ es\<rparr>) \<and>
    list_all2 (entry_is ev (es_mask (em_es em))) (filter (\<lambda>n. n \<in> set (set_names (es_mask (em_es em)) 0 (eventGroup ev))) ns) es"
  using assms
proof (induction ns arbitrary: em)
  case (Cons n ns)
  let ?m = "es_mask (em_es em)"
  show ?case
  proof (cases "find_event ?m n 0 0 (eventGroup ev)")
    case None
    then have "n \<notin> set (set_names ?m 0 (eventGroup ev))"
      by (simp add: find_event_None)
    then show ?thesis
      using Cons None by (simp add: clg_append_event_def)
  next
    case (Some e)
    then have mem: "n \<in> set (set_names ?m 0 (eventGroup ev))"
      using find_event_None [of ?m n 0 0 "eventGroup ev"] by simp
    have "entry_is ev ?m n e"
      using find_event_Some [OF Some] by (auto simp: entry_is_def)
    moreover obtain es where "append_events ev ns (em\<lparr>em_entry := em_entry em @ [e]\<rparr>) = Inr (em\<lparr>em_entry := em_entry em @ e # es\<rparr>)"
      "list_all2 (entry_is ev ?m) (filter (\<lambda>n. n \<in> set (set_names ?m 0 (eventGroup ev))) ns) es"
      using Cons.IH [of "em\<lparr>em_entry := em_entry em @ [e]\<rparr>"] Cons.prems mem by auto
    ultimately show ?thesis
      using Some mem Cons.prems by (auto simp: clg_append_event_def)
  qed
qed simp

lemma entry_names_ok: "list_all2 (entry_is ev m) ns es \<Longrightarrow> entry_names ev es = Inr ns"
  by (induction rule: list_all2_induct) (auto simp: entry_is_def)

lemma es_size_names: "es_size (make_eventset gs m) = length (set_names m 0 gs)"
proof -
  have "fst (snd (es_loop m i offset count gs)) = offset + length (set_names m i gs)" for i offset count
    by (induction gs arbitrary: i offset count) (auto simp: case_prod_beta Let_def)
  then show ?thesis
    by (simp add: make_eventset_def case_prod_beta)
qed

text \<open>The groups that a run registers.\<close>

definition run_groups :: "clg_opts \<Rightarrow> EventGroup option list" where
  "run_groups o1 =
     [if collect_cacheuse o1 then Some [''AcCost1'', ''SpLoss1'', ''AcCost2'', ''SpLoss2''] else None,
      Some (if \<not> simulate_cache o1 then [''Ir''] else if \<not> simulate_writeback o1 then [''Ir'', ''I1mr'', ''ILmr'']
            else [''Ir'', ''I1mr'', ''ILmr'', ''ILdmr'']),
      if \<not> simulate_cache o1 then None
      else Some (if \<not> simulate_writeback o1 then [''Dr'', ''D1mr'', ''DLmr''] else [''Dr'', ''D1mr'', ''DLmr'', ''DLdmr'']),
      if \<not> simulate_cache o1 then None
      else Some (if \<not> simulate_writeback o1 then [''Dw'', ''D1mw'', ''DLmw''] else [''Dw'', ''D1mw'', ''DLmw'', ''DLdmw'']),
      if simulate_branch o1 then Some [''Bc'', ''Bcm''] else None,
      if simulate_branch o1 then Some [''Bi'', ''Bim''] else None,
      if collect_bus o1 then Some [''Ge''] else None,
      if collect_alloc o1 then Some [''allocCount'', ''allocSize''] else None,
      if collect_systime o1 = systime_no then None
      else if collect_systime o1 = systime_nsec then Some [''sysCount'', ''sysTime'', ''sysCpuTime'']
      else Some [''sysCount'', ''sysTime''],
      None]"

lemmas register_defs = register_event_group_def register_event_group2_def register_event_group3_def
  register_event_group4_def new_event_group_def group_id_ok_def MAX_EVENTGROUP_COUNT_def EG_defs

text \<open>Registering a group or not, once the tables are set up.\<close>

lemma register_if:
  assumes "eventSets_initialized ev" and "i < MAX_EVENTGROUP_COUNT" and "eventGroup ev ! i = None"
  shows "(if b then new_event_group (int i) ns ev else Inr ev) =
    Inr (ev\<lparr>eventGroup := (eventGroup ev)[i := if b then Some ns else None]\<rparr>)"
proof -
  have "(eventGroup ev)[i := None] = eventGroup ev"
    using assms(3) by (metis list_update_id)
  then show ?thesis
    using assms by (simp add: new_event_group_def group_id_ok_def)
qed

lemma register_groups_eq:
  "register_groups o1 start_tables = Inr \<lparr>eventGroup = run_groups o1,
     eventSetTable = replicate MAX_EVENTSET_COUNT None, eventSets_initialized = True\<rparr>"
proof -
  let ?ev = "\<lambda>gs. \<lparr>eventGroup = gs, eventSetTable = replicate MAX_EVENTSET_COUNT None, eventSets_initialized = True\<rparr>"
  have ten: "replicate 10 (None :: EventGroup option) = [None, None, None, None, None, None, None, None, None, None]"
    by (simp add: numeral_eq_Suc)
  define g0 g1 g2 g3 g4 g5 where gs: "g0 = run_groups o1 ! 0" "g1 = run_groups o1 ! 1" "g2 = run_groups o1 ! 2"
    "g3 = run_groups o1 ! 3" "g4 = run_groups o1 ! 4" "g5 = run_groups o1 ! 5"
  have caches: "register_cache_groups o1 start_tables = Inr (?ev [g0, g1, g2, g3, None, None, None, None, None, None])"
    by (cases "collect_cacheuse o1"; cases "simulate_cache o1"; cases "simulate_writeback o1";
        simp add: register_cache_groups_def register_defs start_tables_def initialize_event_sets_def ten gs run_groups_def)
  have branch: "register_branch_groups o1 (?ev [g0, g1, g2, g3, None, None, None, None, None, None]) =
      Inr (?ev [g0, g1, g2, g3, g4, g5, None, None, None, None])"
    by (simp add: register_branch_groups_def register_defs gs(5,6) run_groups_def)
  have sys: "register_sys_group o1 ev = (if collect_systime o1 \<noteq> systime_no then new_event_group (int 8)
      (if collect_systime o1 = systime_nsec then [''sysCount'', ''sysTime'', ''sysCpuTime''] else [''sysCount'', ''sysTime'']) ev
      else Inr ev)" for ev
    by (simp add: register_sys_group_def register_event_group3_def register_event_group2_def EG_SYS_def)
  have "run_groups o1 = [g0, g1, g2, g3, g4, g5] @ drop 6 (run_groups o1)"
    by (simp add: gs run_groups_def split del: if_split)
  also have "drop 6 (run_groups o1) = [if collect_bus o1 then Some [''Ge''] else None,
      if collect_alloc o1 then Some [''allocCount'', ''allocSize''] else None,
      if collect_systime o1 \<noteq> systime_no then Some (if collect_systime o1 = systime_nsec
        then [''sysCount'', ''sysTime'', ''sysCpuTime''] else [''sysCount'', ''sysTime'']) else None, None]"
    by (simp add: run_groups_def)
  finally show ?thesis
    by (simp only: register_groups_def caches cbind_simps branch sys register_event_group_def register_event_group2_def EG_defs)
      (simp add: sys register_if MAX_EVENTGROUP_COUNT_def del: of_nat_numeral split del: if_split)
qed

lemma make_sets_ok:
  assumes "tables_current ev" and "eventSets_initialized ev"
  obtains ev' where "make_sets ev = Inr ((Some (make_eventset (eventGroup ev) 3), Some (make_eventset (eventGroup ev) 511)), ev')"
    and "eventGroup ev' = eventGroup ev" and "tables_current ev'" and "eventSets_initialized ev'"
proof -
  have step: "\<exists>ev'. eventset_from_mask m ev1 = (Some (make_eventset (eventGroup ev) m), ev') \<and> tables_current ev' \<and>
      eventGroup ev' = eventGroup ev \<and> eventSets_initialized ev'"
    if "tables_current ev1" "eventGroup ev1 = eventGroup ev" "eventSets_initialized ev1" "unat m < 1024" for m ev1
    using eventset_from_mask_current [OF that(1), of m] that(2-4) by (metis MAX_EVENTSET_COUNT_def initialize_simps(2))
  from step [OF assms(1) refl assms(2), of 3] obtain e1 where e1: "eventset_from_mask 3 ev = (Some (make_eventset (eventGroup ev) 3), e1)"
    "tables_current e1" "eventGroup e1 = eventGroup ev" "eventSets_initialized e1" by auto
  from step [OF this(2-4), of 15] obtain e2 where e2: "eventset_from_mask 15 e1 = (Some (make_eventset (eventGroup ev) 15), e2)"
    "tables_current e2" "eventGroup e2 = eventGroup ev" "eventSets_initialized e2" by auto
  from step [OF this(2-4), of 63] obtain e3 where e3: "eventset_from_mask 63 e2 = (Some (make_eventset (eventGroup ev) 63), e3)"
    "tables_current e3" "eventGroup e3 = eventGroup ev" "eventSets_initialized e3" by auto
  from step [OF this(2-4), of 127] obtain e4 where e4: "eventset_from_mask 127 e3 = (Some (make_eventset (eventGroup ev) 127), e4)"
    "tables_current e4" "eventGroup e4 = eventGroup ev" "eventSets_initialized e4" by auto
  from step [OF this(2-4), of 511] obtain e5 where e5: "eventset_from_mask 511 e4 = (Some (make_eventset (eventGroup ev) 511), e5)"
    "eventGroup e5 = eventGroup ev" "tables_current e5" "eventSets_initialized e5" by auto
  show thesis
    using e1(1) e2(1) e3(1) e4(1) e5
    by (intro that [of e5]) (simp_all add: make_sets_def get_event_set2_def add_event_group2_def add_event_group_def
        set_or_empty_def group_id_ok_def MAX_EVENTGROUP_COUNT_def EG_defs make_eventset_layout)
qed

definition run_names :: "clg_opts \<Rightarrow> string list" where
  "run_names o1 = set_names 511 0 (run_groups o1)"

definition all_names :: "string list" where
  "all_names = [''AcCost1'', ''SpLoss1'', ''AcCost2'', ''SpLoss2''] @ [''Ir'', ''I1mr'', ''ILmr'', ''ILdmr''] @
     [''Dr'', ''D1mr'', ''DLmr'', ''DLdmr''] @ [''Dw'', ''D1mw'', ''DLmw'', ''DLdmw''] @ [''Bc'', ''Bcm''] @ [''Bi'', ''Bim''] @
     [''Ge''] @ [''allocCount'', ''allocSize''] @ [''sysCount'', ''sysTime'', ''sysCpuTime'']"

lemma set_names_all:
  "\<forall>k < length gs. gs ! k \<noteq> None \<longrightarrow> m AND push_bit (i + k) 1 \<noteq> 0 \<Longrightarrow>
   set_names m i gs = concat (map (\<lambda>g. if g = None then [] else the g) gs)"
proof (induction gs arbitrary: i)
  case (Cons g gs)
  have "set_names m (Suc i) gs = concat (map (\<lambda>g. if g = None then [] else the g) gs)"
    using Cons.prems by (intro Cons.IH) force
  then show ?case
    using Cons.prems [rule_format, of 0] by (simp add: in_set_def)
qed simp

lemma run_names_subseq: "subseq (run_names o1) all_names"
proof -
  have "(511 :: UInt) AND push_bit k 1 \<noteq> 0" if "k < length (run_groups o1)" "run_groups o1 ! k \<noteq> None" for k
  proof -
    have "length (run_groups o1) = 10" "run_groups o1 ! 9 = None"
      by (simp_all add: run_groups_def split del: if_split)
    then have "k < 10" "k \<noteq> 9"
      using that by (simp, metis)
    then have "k \<in> {0, 1, 2, 3, 4, 5, 6, 7, 8}"
      by auto
    then show ?thesis by auto
  qed
  then have "run_names o1 = concat (map (\<lambda>g. if g = None then [] else the g) (run_groups o1))"
    unfolding run_names_def by (intro set_names_all) simp
  also have "\<dots> = concat (map (\<lambda>g. if g = None then [] else the g) (take 9 (run_groups o1)))"
    by (simp add: run_groups_def split del: if_split)
  also have "subseq \<dots> all_names"
    unfolding run_groups_def all_names_def
    by (simp only: take_Suc_Cons numeral_eq_Suc pred_numeral_simps take_0 list.map concat.simps append_Nil2)
      (intro list_emb_append_mono; auto)
  finally show ?thesis .
qed

lemma run_names_dumped: "distinct (run_names o1) \<and> set (run_names o1) \<subseteq> set dump_events"
proof -
  have "distinct all_names" "set all_names \<subseteq> set dump_events"
    by (simp_all add: all_names_def dump_events_def)
  moreover have mem: "run_names o1 \<in> set (subseqs all_names)"
    using run_names_subseq by simp
  moreover have "set (run_names o1) \<subseteq> set all_names"
    using subseqs_powset [of all_names] mem by auto
  ultimately show ?thesis
    using subseqs_distinctD by blast
qed

lemma dumped_names: "length (filter (\<lambda>n. n \<in> set (run_names o1)) dump_events) = length (run_names o1)"
proof -
  have d: "distinct dump_events" by (simp add: dump_events_def)
  have "set (filter (\<lambda>n. n \<in> set (run_names o1)) dump_events) = set (run_names o1)"
    using run_names_dumped [of o1] by auto
  then show ?thesis
    using d run_names_dumped [of o1] by (metis distinct_card distinct_filter)
qed

lemma init_eventsets_run:
  obtains base em ev where "init_eventsets o1 start_tables = Inr ((Some base, Some (make_eventset (run_groups o1) 511), em), ev)"
    and "list_all2 (entry_is ev 511) (filter (\<lambda>n. n \<in> set (run_names o1)) dump_events) (em_entry em)"
    and "eventGroup ev = run_groups o1" and "tables_current ev" and "eventSets_initialized ev"
proof -
  let ?ev = "\<lparr>eventGroup = run_groups o1, eventSetTable = replicate MAX_EVENTSET_COUNT None, eventSets_initialized = True\<rparr>"
  have "tables_current ?ev"
    by (rule no_sets_current) (simp add: no_sets_def run_groups_def MAX_EVENTGROUP_COUNT_def)
  then obtain ev where sets: "make_sets ?ev = Inr ((Some (make_eventset (run_groups o1) 3), Some (make_eventset (run_groups o1) 511)), ev)"
    and ev: "eventGroup ev = run_groups o1" "tables_current ev" "eventSets_initialized ev"
    using make_sets_ok [of ?ev] by auto
  let ?full = "make_eventset (run_groups o1) 511"
  let ?em = "\<lparr>em_es = ?full, em_capacity = es_size ?full, em_entry = []\<rparr>"
  have "length (em_entry ?em) + length (filter (\<lambda>n. n \<in> set (set_names (es_mask (em_es ?em)) 0 (eventGroup ev))) dump_events)
      \<le> em_capacity ?em"
    using dumped_names [of o1] by (simp add: make_eventset_layout(1) es_size_names ev run_names_def)
  from append_events_ok [OF this] obtain es where es: "append_events ev dump_events ?em = Inr (?em\<lparr>em_entry := es\<rparr>)"
    "list_all2 (entry_is ev 511) (filter (\<lambda>n. n \<in> set (run_names o1)) dump_events) es"
    by (auto simp: make_eventset_layout(1) ev run_names_def)
  then show thesis
    using sets ev
    by (intro that [of "make_eventset (run_groups o1) 3" "?em\<lparr>em_entry := es\<rparr>" ev])
      (simp_all add: init_eventsets_def register_groups_eq get_eventmapping_def)
qed

text \<open>
  C10: With any options, the event sets of a run are set up without a failed assertion. The full set
  has one entry for each event of the groups the options register, the line of event names in a
  profile lists each of them exactly once in the fixed order of the dump, and each name is mapped to
  its own entry of the cost arrays.
\<close>

theorem init_eventsets_ok:
  "\<exists>base full em ev. init_eventsets o1 start_tables = Inr ((Some base, Some full, em), ev) \<and>
     full = make_eventset (run_groups o1) 511 \<and> es_size full = length (run_names o1) \<and>
     eventmapping_as_string ev em = Inr (join_blank (filter (\<lambda>n. n \<in> set (run_names o1)) dump_events)) \<and>
     length (em_entry em) = length (run_names o1) \<and>
     (\<forall>i < length (em_entry em). em_off (em_entry em ! i) < es_size full \<and>
        run_names o1 ! em_off (em_entry em ! i) = filter (\<lambda>n. n \<in> set (run_names o1)) dump_events ! i)"
proof -
  obtain base em ev where run: "init_eventsets o1 start_tables = Inr ((Some base, Some (make_eventset (run_groups o1) 511), em), ev)"
    "list_all2 (entry_is ev 511) (filter (\<lambda>n. n \<in> set (run_names o1)) dump_events) (em_entry em)"
    "eventGroup ev = run_groups o1"
    using init_eventsets_run .
  have "length (em_entry em) = length (run_names o1)"
    using list_all2_lengthD [OF run(2)] dumped_names [of o1] by simp
  moreover have "eventmapping_as_string ev em = Inr (join_blank (filter (\<lambda>n. n \<in> set (run_names o1)) dump_events))"
    using entry_names_ok [OF run(2)] by (simp add: eventmapping_as_string_def)
  moreover have size: "es_size (make_eventset (run_groups o1) 511) = length (run_names o1)"
    by (simp add: es_size_names run_names_def)
  moreover have "em_off (em_entry em ! i) < length (run_names o1) \<and>
      run_names o1 ! em_off (em_entry em ! i) = filter (\<lambda>n. n \<in> set (run_names o1)) dump_events ! i"
    if "i < length (em_entry em)" for i
    using list_all2_nthD2 [OF run(2) that] by (simp add: entry_is_def run(3) run_names_def)
  ultimately show ?thesis
    using run(1) by auto
qed

lemma cache_sim_names:
  "run_names cache_sim_opts = [''Ir'', ''I1mr'', ''ILmr'', ''Dr'', ''D1mr'', ''DLmr'', ''Dw'', ''D1mw'', ''DLmw'']"
  by code_simp

lemma cache_sim_dumped:
  "filter (\<lambda>n. n \<in> set (run_names cache_sim_opts)) dump_events =
     [''Ir'', ''Dr'', ''Dw'', ''I1mr'', ''D1mr'', ''D1mw'', ''ILmr'', ''DLmr'', ''DLmw'']"
  unfolding cache_sim_names by code_simp

lemma cache_sim_line:
  "join_blank [''Ir'', ''Dr'', ''Dw'', ''I1mr'', ''D1mr'', ''D1mw'', ''ILmr'', ''DLmr'', ''DLmw''] =
     ''Ir Dr Dw I1mr D1mr D1mw ILmr DLmr DLmw''"
  by code_simp

theorem init_eventsets_ok_witness:
  "\<exists>base full em ev. init_eventsets cache_sim_opts start_tables = Inr ((Some base, Some full, em), ev) \<and>
     es_size full = 9 \<and> eventmapping_as_string ev em = Inr ''Ir Dr Dw I1mr D1mr D1mw ILmr DLmr DLmw'' \<and>
     run_names cache_sim_opts ! em_off (em_entry em ! 1) = ''Dr''"
proof -
  have size: "length (run_names cache_sim_opts) = 9"
    by (simp add: cache_sim_names)
  obtain base full em ev where run: "init_eventsets cache_sim_opts start_tables = Inr ((Some base, Some full, em), ev)"
    "es_size full = 9" "eventmapping_as_string ev em = Inr ''Ir Dr Dw I1mr D1mr D1mw ILmr DLmr DLmw''"
    "length (em_entry em) = 9"
    "\<forall>i < length (em_entry em). em_off (em_entry em ! i) < es_size full \<and> run_names cache_sim_opts ! em_off (em_entry em ! i) =
       [''Ir'', ''Dr'', ''Dw'', ''I1mr'', ''D1mr'', ''D1mw'', ''ILmr'', ''DLmr'', ''DLmw''] ! i"
    using init_eventsets_ok [of cache_sim_opts] unfolding cache_sim_dumped cache_sim_line size by blast
  have "run_names cache_sim_opts ! em_off (em_entry em ! 1) = ''Dr''"
    using run(5) [rule_format, of 1] run(4) by simp
  then show ?thesis
    using run(1-3) by blast
qed

end
