(* ===== verification/CallgrindReport.thy ===== *)
theory CallgrindReport
  imports CallgrindCost
begin

text \<open>
  The report of Callgrind at the end of a run, \<open>finish\<close> of \<open>callgrind/main.c\<close> and
  \<open>cachesim_printstat\<close> of \<open>callgrind/sim.c\<close>, down to the characters the core prints for a number
  (\<open>coregrind/m_debuglog.c\<close>) and the prefix of a message (\<open>coregrind/m_libcprint.c\<close>), and the script
  of Ditto that reads the report, \<open>assembly_analysis/run_valgrind.py\<close>. The theory shows that the
  script reads back the counts.
\<close>

section \<open>Numbers\<close>

record msg_flags =
  msg_signed :: bool
  msg_ljustify :: bool
  msg_zjustify :: bool
  msg_comma :: bool

definition digit_char :: "bool \<Rightarrow> ULong \<Rightarrow> char" where
  "digit_char capitalised d = (if capitalised then ''0123456789ABCDEF'' else ''0123456789abcdef'') ! unat d"

text \<open>
  The loop over the digits; \<open>buf\<close> has the characters so far, the last digit first, and \<open>nc\<close> counts the
  commas among them.
\<close>

function int64_loop :: "msg_flags \<Rightarrow> ULong \<Rightarrow> bool \<Rightarrow> ULong \<Rightarrow> string \<Rightarrow> nat \<Rightarrow> string" where
  "int64_loop flags base capitalised p buf nc =
     (if p > 0 \<and> base \<ge> 2 then
        let comma = (msg_comma flags \<and> base = 10 \<and> (length buf - nc) mod 3 = 0 \<and> length buf \<noteq> 0);
            buf = (if comma then buf @ '','' else buf);
            nc = (if comma then nc + 1 else nc)
        in int64_loop flags base capitalised (p div base) (buf @ [digit_char capitalised (p mod base)]) nc
      else buf)"
  by pat_completeness auto
termination
proof (relation "measure (\<lambda>(flags, base, capitalised, p, buf, nc). unat p)", goal_cases)
  case (2 flags base capitalised p buf nc comma buf' nc')
  then have "0 < unat p" "1 < unat base"
    by (simp_all add: word_gt_0 unat_gt_0 word_le_nat_alt)
  then show ?case
    by (simp add: unat_div div_less_dividend)
qed simp

declare int64_loop.simps [simp del]

definition myvprintf_int64 :: "msg_flags \<Rightarrow> ULong \<Rightarrow> nat \<Rightarrow> bool \<Rightarrow> ULong \<Rightarrow> string" where
  "myvprintf_int64 flags base width capitalised p =
     (if base < 2 \<or> base > 16 then []
      else
        let neg = (msg_signed flags \<and> sint p < 0);
            p = (if neg then - p else p);
            buf = (if p = 0 then ''0'' else int64_loop flags base capitalised p [] 0);
            buf = (if neg then buf @ ''-'' else buf);
            buf = (if width > 0 \<and> \<not> msg_ljustify flags
                   then buf @ replicate (width - length buf) (if msg_zjustify flags then CHR ''0'' else CHR '' '') else buf)
        in rev buf @ (if width > 0 \<and> msg_ljustify flags then replicate (width - length buf) (CHR '' '') else []))"

text \<open>The conversion \<open>%'*llu\<close>.\<close>

definition comma_llu :: "UInt \<Rightarrow> ULong \<Rightarrow> string" where
  "comma_llu width p = myvprintf_int64
     \<lparr>msg_signed = False, msg_ljustify = False, msg_zjustify = False, msg_comma = True\<rparr> 10 (unat width) False p"

section \<open>The report\<close>

text \<open>
  The lines of the report without the newline. The parameter \<open>pct\<close> stands for the conversions \<open>%*.1f\<close>
  and \<open>%*.2f\<close> of \<open>a * 100.0 / b\<close>: it takes the precision, the width, \<open>a\<close> and \<open>b\<close>.
\<close>

type_synonym pct = "nat \<Rightarrow> UInt \<Rightarrow> ULong \<Rightarrow> ULong \<Rightarrow> string"

definition count1 :: "string \<Rightarrow> UInt \<Rightarrow> ULong \<Rightarrow> string" where
  "count1 s l1 n = s @ comma_llu l1 n"

definition count3 :: "string \<Rightarrow> UInt \<Rightarrow> UInt \<Rightarrow> UInt \<Rightarrow> ULong \<Rightarrow> ULong \<Rightarrow> ULong \<Rightarrow> string" where
  "count3 s l1 l2 l3 n r w =
     s @ comma_llu l1 n @ ''  ('' @ comma_llu l2 r @ '' rd + '' @ comma_llu l3 w @ '' wr)''"

definition rate3 :: "pct \<Rightarrow> string \<Rightarrow> UInt \<Rightarrow> UInt \<Rightarrow> UInt \<Rightarrow> ULong \<times> ULong \<Rightarrow> ULong \<times> ULong \<Rightarrow> ULong \<times> ULong \<Rightarrow> string" where
  "rate3 pct s l1 l2 l3 n r w =
     s @ pct 1 l1 (fst n) (snd n) @ ''% ('' @ pct 1 l2 (fst r) (snd r) @ ''%   + '' @ pct 1 l3 (fst w) (snd w) @ ''%  )''"

definition one_for_zero :: "ULong \<Rightarrow> ULong" where
  "one_for_zero n = (if n = 0 then 1 else n)"

text \<open>The array \<open>D_total\<close>: the costs of loads and of stores, entry by entry.\<close>

definition D_total_of :: "EventSet \<Rightarrow> event_tables \<Rightarrow> ULong list \<Rightarrow> ULong list cres" where
  "D_total_of full ev tot =
     cbind (init_cost full (Some (replicate (es_size full) 0))) (\<lambda>d.
     cbind (get_event_set (int EG_DR) ev) (\<lambda>(esr, ev).
     cbind (copy_cost (the esr) d (Some (drop (es_offset full ! EG_DR) tot))) (\<lambda>d.
     cbind (get_event_set (int EG_DW) ev) (\<lambda>(esw, ev).
     cbind (add_cost (the esw) d (Some (drop (es_offset full ! EG_DW) tot))) (\<lambda>d.
     Inr (the d))))))"

definition cachesim_printstat ::
  "pct \<Rightarrow> EventSet \<Rightarrow> event_tables \<Rightarrow> ULong list \<Rightarrow> UInt \<Rightarrow> UInt \<Rightarrow> UInt \<Rightarrow> string list cres" where
  "cachesim_printstat pct full ev tot l1 l2 l3 =
     (let ir = es_offset full ! EG_IR; dr = es_offset full ! EG_DR; dw = es_offset full ! EG_DW in
      if ir + 2 \<ge> length tot \<or> dr + 2 \<ge> length tot \<or> dw + 2 \<ge> length tot then Inl Out_of_bounds
      else
        cbind (D_total_of full ev (tot[ir := one_for_zero (tot ! ir)])) (\<lambda>d.
        let Ir1 = one_for_zero (tot ! ir); Dt1 = one_for_zero (d ! 0);
            Dr1 = one_for_zero (tot ! dr); Dw1 = one_for_zero (tot ! dw);
            LL_total = tot ! (dr + 1) + tot ! (dw + 1) + tot ! (ir + 1); LL_total_r = tot ! (dr + 1) + tot ! (ir + 1);
            LL_total_m = tot ! (dr + 2) + tot ! (dw + 2) + tot ! (ir + 2); LL_total_mr = tot ! (dr + 2) + tot ! (ir + 2)
        in Inr
          [count1 ''I1  misses:    '' l1 (tot ! (ir + 1)),
           count1 ''LLi misses:    '' l1 (tot ! (ir + 2)),
           ''I1  miss rate: '' @ pct 2 l1 (tot ! (ir + 1)) Ir1 @ ''%'',
           ''LLi miss rate: '' @ pct 2 l1 (tot ! (ir + 2)) Ir1 @ ''%'',
           '''',
           count3 ''D   refs:      '' l1 l2 l3 (d ! 0) (tot ! dr) (tot ! dw),
           count3 ''D1  misses:    '' l1 l2 l3 (d ! 1) (tot ! (dr + 1)) (tot ! (dw + 1)),
           count3 ''LLd misses:    '' l1 l2 l3 (d ! 2) (tot ! (dr + 2)) (tot ! (dw + 2)),
           rate3 pct ''D1  miss rate: '' l1 l2 l3 (d ! 1, Dt1) (tot ! (dr + 1), Dr1) (tot ! (dw + 1), Dw1),
           rate3 pct ''LLd miss rate: '' l1 l2 l3 (d ! 2, Dt1) (tot ! (dr + 2), Dr1) (tot ! (dw + 2), Dw1),
           '''',
           count3 ''LL refs:       '' l1 l2 l3 LL_total LL_total_r (tot ! (dw + 1)),
           count3 ''LL misses:     '' l1 l2 l3 LL_total_m LL_total_mr (tot ! (dw + 2)),
           rate3 pct ''LL miss rate:  '' l1 l2 l3 (LL_total_m, Ir1 + Dt1) (LL_total_mr, Ir1 + Dr1) (tot ! (dw + 2), Dw1)]))"

definition branchsim_printstat ::
  "pct \<Rightarrow> EventSet \<Rightarrow> ULong list \<Rightarrow> UInt \<Rightarrow> UInt \<Rightarrow> UInt \<Rightarrow> string list cres" where
  "branchsim_printstat pct full tot l1 l2 l3 =
     (let bc = es_offset full ! EG_BC; bi = es_offset full ! EG_BI in
      if bc + 1 \<ge> length tot \<or> bi + 1 \<ge> length tot then Inl Out_of_bounds
      else
        let Bc_b = one_for_zero (tot ! bc); Bc_mp = tot ! (bc + 1); Bi_b = one_for_zero (tot ! bi); Bi_mp = tot ! (bi + 1);
            line = (\<lambda>s n c i. s @ '' '' @ comma_llu l1 n @ ''  ('' @ comma_llu l2 c @ '' cond + '' @ comma_llu l3 i @ '' ind)'')
        in Inr
          ['''',
           line ''Branches:     '' (Bc_b + Bi_b) Bc_b Bi_b,
           line ''Mispredicts:  '' (Bc_mp + Bi_mp) Bc_mp Bi_mp,
           ''Mispred rate:  '' @ pct 1 l1 (Bc_mp + Bi_mp) (Bc_b + Bi_b) @ ''% ('' @ pct 1 l2 Bc_mp Bc_b @
             ''%     + '' @ pct 1 l3 Bi_mp Bi_b @ ''%   )''])"

text \<open>
  The report of \<open>finish\<close>, after the profile has been dumped, at the default verbosity and without
  \<open>--stats=yes\<close>. The array the statistics change is not used after them.
\<close>

definition max_width :: "UInt \<Rightarrow> UInt \<Rightarrow> UInt" where
  "max_width l lb = (if lb > l then lb else l)"

definition finish_report ::
  "pct \<Rightarrow> clg_opts \<Rightarrow> EventSet \<Rightarrow> EventMapping \<Rightarrow> event_tables \<Rightarrow> ULong list \<Rightarrow> string list cres" where
  "finish_report pct o1 full em ev tot =
     cbind (eventmapping_as_string ev em) (\<lambda>evmap.
     cbind (mappingcost_as_string em (Some tot)) (\<lambda>mcost.
     let l1 = ULong_width (tot ! (es_offset full ! EG_IR));
         l2 = (if simulate_cache o1 then ULong_width (tot ! (es_offset full ! EG_DR)) else 0);
         l3 = (if simulate_cache o1 then ULong_width (tot ! (es_offset full ! EG_DW)) else 0);
         l2 = (if simulate_branch o1 then max_width l2 (ULong_width (tot ! (es_offset full ! EG_BC))) else l2);
         l3 = (if simulate_branch o1 then max_width l3 (ULong_width (tot ! (es_offset full ! EG_BI))) else l3)
     in cbind (if simulate_cache o1 then cachesim_printstat pct full ev tot l1 l2 l3 else Inr []) (\<lambda>cache_lines.
        cbind (if simulate_branch o1 then branchsim_printstat pct full tot l1 l2 l3 else Inr []) (\<lambda>branch_lines.
        Inr ([''Events    : '' @ evmap, ''Collected : '' @ mcost, '''', count1 ''I   refs:      '' l1 (tot ! (es_offset full ! EG_IR))] @
             cache_lines @ branch_lines)))))"

text \<open>A line of a user message in the log, with the prefix that the core puts at its left.\<close>

definition umsg_line :: "nat \<Rightarrow> string \<Rightarrow> string" where
  "umsg_line pid l = ''=='' @ show_nat pid @ ''== '' @ l @ [CHR 0x0A]"

definition report_text :: "nat \<Rightarrow> string list \<Rightarrow> string" where
  "report_text pid ls = concat (map (umsg_line pid) ls)"

section \<open>The reader\<close>

text \<open>Python: \<open>k in s\<close>, \<open>split\<close>, \<open>isdigit\<close> and \<open>int\<close>, on text in ASCII.\<close>

fun py_in :: "string \<Rightarrow> string \<Rightarrow> bool" where
  "py_in k [] = (k = [])"
| "py_in k (c # s) = (take (length k) (c # s) = k \<or> py_in k s)"

fun py_lines :: "string \<Rightarrow> string \<Rightarrow> string list" where
  "py_lines l [] = [l]"
| "py_lines l (c # s) = (if c = CHR 0x0A then l # py_lines [] s else py_lines (l @ [c]) s)"

definition py_space :: "char \<Rightarrow> bool" where
  "py_space c \<longleftrightarrow> is_ws c \<or> c \<in> {CHR 0x1C, CHR 0x1D, CHR 0x1E, CHR 0x1F}"

fun py_words :: "string \<Rightarrow> string \<Rightarrow> string list" where
  "py_words w [] = (if w = [] then [] else [w])"
| "py_words w (c # s) =
     (if py_space c then (if w = [] then [] else [w]) @ py_words [] s else py_words (w @ [c]) s)"

definition is_digit :: "char \<Rightarrow> bool" where
  "is_digit c \<longleftrightarrow> CHR ''0'' \<le> c \<and> c \<le> CHR ''9''"

definition py_isdigit :: "string \<Rightarrow> bool" where
  "py_isdigit w \<longleftrightarrow> w \<noteq> [] \<and> list_all is_digit w"

definition line_numbers :: "string \<Rightarrow> nat list" where
  "line_numbers l = map dec (filter py_isdigit (py_words [] (filter (\<lambda>c. c \<notin> {CHR '','', CHR ''('', CHR '')''}) l)))"

record cache_results =
  totol_refs :: nat
  rd_refs :: nat
  wr_refs :: nat
  totol_misses :: nat
  rd_misses :: nat
  wr_misses :: nat
  total_irefs :: nat
  total_imisses :: nat

definition no_results :: cache_results where
  "no_results = \<lparr>totol_refs = 0, rd_refs = 0, wr_refs = 0, totol_misses = 0, rd_misses = 0, wr_misses = 0,
     total_irefs = 0, total_imisses = 0\<rparr>"

definition read_line_counts :: "string \<Rightarrow> cache_results \<Rightarrow> cache_results cres" where
  "read_line_counts l r =
     (let n = line_numbers l in
      if py_in ''D   refs'' l then
        if length n < 3 then Inl Out_of_bounds
        else Inr (r\<lparr>totol_refs := totol_refs r + n ! 0, rd_refs := rd_refs r + n ! 1, wr_refs := wr_refs r + n ! 2\<rparr>)
      else if py_in ''D1  misses'' l then
        if length n < 3 then Inl Out_of_bounds
        else Inr (r\<lparr>totol_misses := totol_misses r + n ! 0, rd_misses := rd_misses r + n ! 1, wr_misses := wr_misses r + n ! 2\<rparr>)
      else if py_in ''I   refs'' l then
        if length n < 1 then Inl Out_of_bounds else Inr (r\<lparr>total_irefs := total_irefs r + n ! 0\<rparr>)
      else if py_in ''I1  misses'' l then
        if length n < 1 then Inl Out_of_bounds else Inr (r\<lparr>total_imisses := total_imisses r + n ! 0\<rparr>)
      else Inr r)"

fun read_lines_counts :: "string list \<Rightarrow> cache_results \<Rightarrow> cache_results cres" where
  "read_lines_counts [] r = Inr r"
| "read_lines_counts (l # ls) r = cbind (read_line_counts l r) (read_lines_counts ls)"

definition read_valgrind_output :: "string \<Rightarrow> cache_results cres" where
  "read_valgrind_output text = read_lines_counts (py_lines [] text) no_results"

section \<open>Numbers are read back\<close>

definition num_char :: "char \<Rightarrow> bool" where
  "num_char c \<longleftrightarrow> is_digit c \<or> c = CHR '','' \<or> c = CHR '' ''"

lemma is_digit_iff: "is_digit c \<longleftrightarrow> 48 \<le> (of_char c :: nat) \<and> of_char c \<le> (57 :: nat)"
  by (simp add: is_digit_def less_eq_char_def)

lemma not_digit: "\<not> is_digit (CHR '','')" "\<not> is_digit (CHR ''('')" "\<not> is_digit (CHR '')'')" "\<not> is_digit (CHR '' '')"
  "\<not> is_digit (CHR ''='')" "\<not> is_digit (CHR ''D'')" "\<not> is_digit (CHR ''I'')" "\<not> is_digit (CHR 0x0A)"
  by (simp_all add: is_digit_iff)

lemma show_digit_is_digit: "d < 10 \<Longrightarrow> is_digit (show_digit d)"
  by (simp add: is_digit_iff show_digit_def)

lemma show_nat_digits: "c \<in> set (show_nat n) \<Longrightarrow> is_digit c"
proof (induction n rule: show_nat.induct)
  case (1 n)
  show ?case
    using 1 show_digit_is_digit by (cases "n < 10") (auto simp: show_nat.simps [of n])
qed

lemma digit_char_show: "d < 10 \<Longrightarrow> digit_char False d = show_digit (unat d)"
proof -
  assume "d < 10"
  then have "unat d < 10"
    by (simp add: word_less_nat_alt)
  then have "unat d \<in> {0, 1, 2, 3, 4, 5, 6, 7, 8, 9}"
    by auto
  moreover have "show_digit 0 = CHR ''0'' \<and> show_digit 1 = CHR ''1'' \<and> show_digit 2 = CHR ''2'' \<and> show_digit 3 = CHR ''3'' \<and>
      show_digit 4 = CHR ''4'' \<and> show_digit 5 = CHR ''5'' \<and> show_digit 6 = CHR ''6'' \<and> show_digit 7 = CHR ''7'' \<and>
      show_digit 8 = CHR ''8'' \<and> show_digit 9 = CHR ''9''"
    by code_simp
  ultimately show ?thesis
    by (auto simp: digit_char_def)
qed

lemma int64_loop_digits:
  "p \<noteq> 0 \<Longrightarrow>
   filter (\<lambda>c. c \<noteq> CHR '','') (int64_loop f 10 False p buf nc) = filter (\<lambda>c. c \<noteq> CHR '','') buf @ rev (show_nat (unat p)) \<and>
   (\<forall>c \<in> set (int64_loop f 10 False p buf nc). c \<in> set buf \<or> num_char c)"
proof (induction "unat p" arbitrary: p buf nc rule: less_induct)
  case less
  let ?comma = "msg_comma f \<and> (length buf - nc) mod 3 = 0 \<and> length buf \<noteq> 0"
  let ?buf = "(if ?comma then buf @ '','' else buf) @ [show_digit (unat (p mod 10))]"
  have d: "p mod 10 < 10" "unat (p mod 10) = unat p mod 10" "unat (p div 10) = unat p div 10"
    by (simp_all add: word_mod_less_divisor unat_mod unat_div)
  have step: "int64_loop f 10 False p buf nc = int64_loop f 10 False (p div 10) ?buf (if ?comma then nc + 1 else nc)"
    using less.prems digit_char_show [OF d(1)] by (subst int64_loop.simps) (simp add: word_gt_0 Let_def)
  have digit: "is_digit (show_digit (unat p mod 10))"
    by (simp add: show_digit_is_digit)
  then have "show_digit (unat p mod 10) \<noteq> CHR '',''"
    by (auto simp: is_digit_iff)
  then have buf: "filter (\<lambda>c. c \<noteq> CHR '','') ?buf = filter (\<lambda>c. c \<noteq> CHR '','') buf @ [show_digit (unat p mod 10)]"
    "\<forall>c \<in> set ?buf. c \<in> set buf \<or> num_char c"
    using digit by (auto simp: d(2) num_char_def)
  show ?case
  proof (cases "p div 10 = 0")
    case True
    then have "unat p div 10 = 0"
      using d(3) by (metis unat_0)
    then have "show_nat (unat p) = [show_digit (unat p mod 10)]"
      by (subst show_nat.simps) auto
    moreover have "int64_loop f 10 False p buf nc = ?buf"
      unfolding step True by (subst int64_loop.simps) simp
    ultimately show ?thesis
      using buf by simp
  next
    case False
    then have big: "0 < unat p div 10"
      using d(3) by (metis gr0I unat_eq_zero)
    then have "unat (p div 10) < unat p"
      unfolding d(3) by (intro div_less_dividend) auto
    from less.hyps [OF this False, of ?buf "if ?comma then nc + 1 else nc"]
    have "filter (\<lambda>c. c \<noteq> CHR '','') (int64_loop f 10 False p buf nc) =
        filter (\<lambda>c. c \<noteq> CHR '','') ?buf @ rev (show_nat (unat p div 10))"
      and "\<forall>c \<in> set (int64_loop f 10 False p buf nc). c \<in> set ?buf \<or> num_char c"
      unfolding step [symmetric] d(3) by blast+
    moreover have "show_nat (unat p) = show_nat (unat p div 10) @ [show_digit (unat p mod 10)]"
      using big by (subst show_nat.simps) auto
    ultimately show ?thesis
      using buf by (simp only: append.assoc rev_append rev.simps append_Nil append_Cons) blast
  qed
qed

lemma comma_llu_eq:
  obtains k ds where "comma_llu w n = replicate k (CHR '' '') @ ds"
    and "filter (\<lambda>c. c \<noteq> CHR '','') ds = show_nat (unat n)" and "\<forall>c \<in> set ds. num_char c"
proof -
  let ?f = "\<lparr>msg_signed = False, msg_ljustify = False, msg_zjustify = False, msg_comma = True\<rparr>"
  define buf where "buf = (if n = 0 then ''0'' else int64_loop ?f 10 False n [] 0)"
  have zero: "show_nat 0 = ''0''" by code_simp
  have "filter (\<lambda>c. c \<noteq> CHR '','') (rev buf) = show_nat (unat n) \<and> (\<forall>c \<in> set buf. num_char c)"
  proof (cases "n = 0")
    case True
    then show ?thesis by (simp add: buf_def zero num_char_def is_digit_iff)
  next
    case False
    then show ?thesis using int64_loop_digits [of n ?f "[]" 0] by (simp add: buf_def rev_filter [symmetric])
  qed
  moreover have "comma_llu w n = replicate (unat w - length buf) (CHR '' '') @ rev buf"
    by (simp add: comma_llu_def myvprintf_int64_def buf_def Let_def)
  ultimately show thesis
    by (intro that [of "unat w - length buf" "rev buf"]) auto
qed

lemma comma_llu_digits:
  "\<exists>k. filter (\<lambda>c. c \<noteq> CHR '','') (comma_llu w n) = replicate k (CHR '' '') @ show_nat (unat n)"
proof -
  obtain k ds where "comma_llu w n = replicate k (CHR '' '') @ ds" "filter (\<lambda>c. c \<noteq> CHR '','') ds = show_nat (unat n)"
    by (rule comma_llu_eq)
  then show ?thesis
    by (intro exI [of _ k]) simp
qed

lemma comma_llu_chars:
  assumes "c \<in> set (comma_llu w n)"
  shows "num_char c"
proof -
  obtain k ds where "comma_llu w n = replicate k (CHR '' '') @ ds" "\<forall>c \<in> set ds. num_char c"
    by (rule comma_llu_eq)
  then show ?thesis
    using assms by (auto simp: num_char_def)
qed

section \<open>Words of a line\<close>

lemma py_words_space: "py_space c \<Longrightarrow> py_words w (s @ c # t) = py_words w s @ py_words [] t"
  by (induction s arbitrary: w) auto

lemma py_words_word: "\<forall>c \<in> set s. \<not> py_space c \<Longrightarrow> w @ s \<noteq> [] \<Longrightarrow> py_words w s = [w @ s]"
  by (induction s arbitrary: w) auto

lemma py_words_blanks: "py_words [] (replicate k (CHR '' '') @ s) = py_words [] s"
  by (induction k) (auto simp: py_space_def is_ws_def)

abbreviation kept :: "string \<Rightarrow> string" where
  "kept \<equiv> filter (\<lambda>c. c \<notin> {CHR '','', CHR ''('', CHR '')''})"

lemma kept_num: "\<exists>k. kept (comma_llu w n) = replicate k (CHR '' '') @ show_nat (unat n)"
proof -
  have "kept (comma_llu w n) = filter (\<lambda>c. c \<noteq> CHR '','') (comma_llu w n)"
    by (intro filter_cong) (auto simp: num_char_def not_digit dest!: comma_llu_chars)
  then show ?thesis
    using comma_llu_digits by simp
qed

lemma digits_not_space: "is_digit c \<Longrightarrow> \<not> py_space c"
  by (auto simp: is_digit_iff py_space_def is_ws_def)

lemma show_nat_ne [simp]: "show_nat n \<noteq> []"
  using show_nat_Cons [of n] by auto

lemma words_num: "py_words [] (replicate k (CHR '' '') @ show_nat n) = [show_nat n]"
  using py_words_word [of "show_nat n" "[]"] show_nat_digits digits_not_space by (auto simp: py_words_blanks)

lemma isdigit_show [simp]: "py_isdigit (show_nat n)"
  using show_nat_digits by (simp add: py_isdigit_def list_all_iff)

lemma kept_pid: "kept (''=='' @ show_nat pid @ ''== '') = ''=='' @ show_nat pid @ ''== ''"
proof -
  have "kept (show_nat pid) = show_nat pid"
    by (intro filter_True) (auto simp: not_digit dest!: show_nat_digits)
  then show ?thesis by simp
qed

lemma words_pid:
  "filter py_isdigit (py_words [] (''=='' @ show_nat pid @ ''== '' @ s)) = filter py_isdigit (py_words [] s)"
proof -
  have eq: "\<not> is_digit (CHR ''='')" "\<not> py_space (CHR ''='')" "py_space (CHR '' '')"
    by (simp_all add: is_digit_iff py_space_def is_ws_def)
  have "py_words [] (''=='' @ show_nat pid @ ''=='') = [''=='' @ show_nat pid @ ''=='']"
    using py_words_word [of "''=='' @ show_nat pid @ ''==''" "[]"] show_nat_digits digits_not_space eq(2) by auto
  then show ?thesis
    using py_words_space [OF eq(3), of "[]" "''=='' @ show_nat pid @ ''==''" s] by (simp add: py_isdigit_def eq)
qed

text \<open>A label is text without commas, brackets and numbers.\<close>

definition label :: "string \<Rightarrow> bool" where
  "label t \<longleftrightarrow> kept t = t \<and> filter py_isdigit (py_words [] t) = []"

lemma line_numbers_count1:
  assumes "label t"
  shows "line_numbers (''=='' @ show_nat pid @ ''== '' @ count1 (t @ '' '') l1 n) = [unat n]"
proof -
  obtain k where k: "kept (comma_llu l1 n) = replicate k (CHR '' '') @ show_nat (unat n)"
    using kept_num by blast
  have sp: "py_space (CHR '' '')" by (simp add: py_space_def is_ws_def)
  have "line_numbers (''=='' @ show_nat pid @ ''== '' @ count1 (t @ '' '') l1 n) =
      map dec (filter py_isdigit (py_words [] (t @ CHR '' '' # replicate k (CHR '' '') @ show_nat (unat n))))"
    using kept_pid [of pid] words_pid [of pid] k assms
    by (simp add: line_numbers_def count1_def label_def)
  then show ?thesis
    using assms by (simp add: py_words_space [OF sp] words_num label_def dec_show_nat)
qed

lemma line_numbers_count3:
  assumes "label t"
  shows "line_numbers (''=='' @ show_nat pid @ ''== '' @ count3 (t @ '' '') l1 l2 l3 n r w) = [unat n, unat r, unat w]"
proof -
  obtain k1 k2 k3 where k: "kept (comma_llu l1 n) = replicate k1 (CHR '' '') @ show_nat (unat n)"
    "kept (comma_llu l2 r) = replicate k2 (CHR '' '') @ show_nat (unat r)"
    "kept (comma_llu l3 w) = replicate k3 (CHR '' '') @ show_nat (unat w)"
    using kept_num by metis
  have sp: "py_space (CHR '' '')" by (simp add: py_space_def is_ws_def)
  have no_num: "filter py_isdigit (py_words [] ''rd +'') = []" "filter py_isdigit (py_words [] ''wr'') = []"
    by (simp_all add: py_space_def is_ws_def py_isdigit_def is_digit_iff)
  let ?sp = "CHR '' ''"
  have "line_numbers (''=='' @ show_nat pid @ ''== '' @ count3 (t @ '' '') l1 l2 l3 n r w) =
      map dec (filter py_isdigit (py_words [] (t @ ?sp # (replicate k1 ?sp @ show_nat (unat n)) @ ?sp #
        (replicate (Suc k2) ?sp @ show_nat (unat r)) @ ?sp # ''rd +'' @ ?sp # (replicate k3 ?sp @ show_nat (unat w)) @ ?sp # ''wr'')))"
    using kept_pid [of pid] words_pid [of pid] k assms
    by (simp add: line_numbers_def count3_def label_def)
  also have "py_words [] (t @ ?sp # (replicate k1 ?sp @ show_nat (unat n)) @ ?sp #
        (replicate (Suc k2) ?sp @ show_nat (unat r)) @ ?sp # ''rd +'' @ ?sp # (replicate k3 ?sp @ show_nat (unat w)) @ ?sp # ''wr'') =
      py_words [] t @ [show_nat (unat n), show_nat (unat r)] @ py_words [] ''rd +'' @ [show_nat (unat w)] @ py_words [] ''wr''"
    unfolding py_words_space [OF sp] words_num by simp
  finally show ?thesis
    using assms no_num by (simp add: label_def dec_show_nat del: py_words.simps)
qed

section \<open>Lines with and without counts\<close>

lemma py_in_skip: "k \<notin> set a \<Longrightarrow> py_in (k # ks) (a @ b) = py_in (k # ks) b"
  by (induction a) auto

lemma py_in_none: "k \<notin> set s \<Longrightarrow> \<not> py_in (k # ks) s"
  by (induction s) auto

lemma py_in_at: "k \<notin> set b \<Longrightarrow> py_in (k # ks) (k # b) \<longleftrightarrow> take (length ks) b = ks"
  using py_in_none [of k b ks] by auto

definition pid_prefix :: "nat \<Rightarrow> string" where
  "pid_prefix pid = ''=='' @ show_nat pid @ ''== ''"

lemma pid_prefix_chars: "CHR ''D'' \<notin> set (pid_prefix pid)" "CHR ''I'' \<notin> set (pid_prefix pid)" "CHR 0x0A \<notin> set (pid_prefix pid)"
  by (auto simp: pid_prefix_def not_digit dest!: show_nat_digits)

definition quiet :: "string \<Rightarrow> bool" where
  "quiet l \<longleftrightarrow> \<not> py_in ''D   refs'' l \<and> \<not> py_in ''D1  misses'' l \<and> \<not> py_in ''I   refs'' l \<and> \<not> py_in ''I1  misses'' l"

lemma read_quiet: "quiet l \<Longrightarrow> read_line_counts l r = Inr r"
  by (simp add: quiet_def read_line_counts_def Let_def)

lemma quiet_prefix: "quiet (pid_prefix pid @ l) = quiet l"
  using pid_prefix_chars by (simp add: quiet_def py_in_skip)

lemma quiet_no_key: "CHR ''D'' \<notin> set l \<Longrightarrow> CHR ''I'' \<notin> set l \<Longrightarrow> quiet l"
  by (simp add: quiet_def py_in_none)

text \<open>The conversion of a percentage prints no capital letter \<open>D\<close> or \<open>I\<close> and no newline.\<close>

definition pct_ok :: "pct \<Rightarrow> bool" where
  "pct_ok pct \<longleftrightarrow> (\<forall>p w a b. set (pct p w a b) \<inter> {CHR ''D'', CHR ''I'', CHR 0x0A} = {})"

lemma pct_chars:
  assumes "pct_ok pct"
  shows "CHR ''D'' \<notin> set (pct p w a b)" "CHR ''I'' \<notin> set (pct p w a b)" "CHR 0x0A \<notin> set (pct p w a b)"
  using assms by (fastforce simp: pct_ok_def)+

lemma num_chars: "CHR ''D'' \<notin> set (comma_llu w n)" "CHR ''I'' \<notin> set (comma_llu w n)" "CHR 0x0A \<notin> set (comma_llu w n)"
  by (auto simp: num_char_def not_digit dest!: comma_llu_chars)

lemma label_texts: "label ''I   refs:     ''" "label ''I1  misses:   ''" "label ''D   refs:     ''" "label ''D1  misses:   ''"
  by (simp_all add: label_def py_space_def is_ws_def py_isdigit_def is_digit_iff)

lemma read_irefs:
  "read_line_counts (pid_prefix pid @ count1 ''I   refs:      '' l1 n) r = Inr (r\<lparr>total_irefs := total_irefs r + unat n\<rparr>)"
  using line_numbers_count1 [OF label_texts(1), of pid l1 n] pid_prefix_chars [of pid] num_chars [of l1 n]
  by (simp add: read_line_counts_def count1_def py_in_skip py_in_none flip: pid_prefix_def) (simp add: pid_prefix_def)

lemma read_imisses:
  "read_line_counts (pid_prefix pid @ count1 ''I1  misses:    '' l1 n) r = Inr (r\<lparr>total_imisses := total_imisses r + unat n\<rparr>)"
  using line_numbers_count1 [OF label_texts(2), of pid l1 n] pid_prefix_chars [of pid] num_chars [of l1 n]
  by (simp add: read_line_counts_def count1_def py_in_skip py_in_none py_in_at flip: pid_prefix_def) (simp add: pid_prefix_def)

lemma read_drefs:
  "read_line_counts (pid_prefix pid @ count3 ''D   refs:      '' l1 l2 l3 n rd wr) r =
     Inr (r\<lparr>totol_refs := totol_refs r + unat n, rd_refs := rd_refs r + unat rd, wr_refs := wr_refs r + unat wr\<rparr>)"
  using line_numbers_count3 [OF label_texts(3), of pid l1 l2 l3 n rd wr] pid_prefix_chars [of pid]
  by (simp add: read_line_counts_def count3_def py_in_skip flip: pid_prefix_def) (simp add: pid_prefix_def)

lemma read_dmisses:
  "read_line_counts (pid_prefix pid @ count3 ''D1  misses:    '' l1 l2 l3 n rd wr) r =
     Inr (r\<lparr>totol_misses := totol_misses r + unat n, rd_misses := rd_misses r + unat rd, wr_misses := wr_misses r + unat wr\<rparr>)"
  using line_numbers_count3 [OF label_texts(4), of pid l1 l2 l3 n rd wr] pid_prefix_chars [of pid]
    num_chars [of l1 n] num_chars [of l2 rd] num_chars [of l3 wr]
  by (simp add: read_line_counts_def count3_def py_in_skip py_in_at py_in_none flip: pid_prefix_def) (simp add: pid_prefix_def)

lemma quiet_counts:
  "CHR ''D'' \<notin> set s \<Longrightarrow> CHR ''I'' \<notin> set s \<Longrightarrow> quiet (count1 s l1 n)"
  "CHR ''D'' \<notin> set s \<Longrightarrow> CHR ''I'' \<notin> set s \<Longrightarrow> quiet (count3 s l1 l2 l3 n rd wr)"
  using num_chars by (auto simp: count1_def count3_def intro!: quiet_no_key)

lemma quiet_rates:
  assumes "pct_ok pct"
  shows "quiet (''I1  miss rate: '' @ pct p l a b @ ''%'')" and "quiet (''LLi miss rate: '' @ pct p l a b @ ''%'')"
    and "quiet (rate3 pct ''D1  miss rate: '' l1 l2 l3 n rd wr)"
    and "CHR ''D'' \<notin> set s \<Longrightarrow> CHR ''I'' \<notin> set s \<Longrightarrow> quiet (rate3 pct s l1 l2 l3 n rd wr)"
  using pct_chars [OF assms]
  by (simp_all add: quiet_def rate3_def py_in_at py_in_none)

lemma cost_fields_digits: "f \<in> set (cost_fields c k es) \<Longrightarrow> x \<in> set f \<Longrightarrow> is_digit x"
proof (induction es arbitrary: k)
  case (Cons e es)
  have "is_digit (CHR ''0'')" by (simp add: is_digit_iff)
  then show ?case
    using Cons show_nat_digits by (auto split: if_splits)
qed simp

lemma mappingcost_chars:
  assumes "\<forall>e \<in> set (em_entry em). em_off e < length c"
  shows "\<exists>m. mappingcost_as_string em (Some c) = Inr m \<and> (\<forall>x \<in> set m. num_char x)"
proof (cases "em_entry em")
  case Nil
  then show ?thesis by (simp add: mappingcost_as_string_def)
next
  case (Cons e es)
  then have "mappingcost_as_string em (Some c) =
      Inr (show_nat (unat (c ! em_off e)) @ concat (map ((#) (CHR '' '')) (cost_fields c 0 es)))"
    using assms by (simp add: mappingcost_as_string_def cost_loop_fields)
  then show ?thesis
    using cost_fields_digits show_nat_digits by (auto simp: num_char_def)
qed

lemma py_lines_cons: "CHR 0x0A \<notin> set l \<Longrightarrow> py_lines w (l @ CHR 0x0A # s) = (w @ l) # py_lines [] s"
  by (induction l arbitrary: w) auto

lemma py_lines_concat:
  "\<forall>l \<in> set ls. CHR 0x0A \<notin> set l \<Longrightarrow> py_lines [] (concat (map (\<lambda>l. l @ [CHR 0x0A]) ls)) = ls @ [[]]"
  by (induction ls) (auto simp: py_lines_cons)

lemma read_lines_append:
  "read_lines_counts (ls @ ms) r = cbind (read_lines_counts ls r) (read_lines_counts ms)"
  by (induction ls arbitrary: r) (auto simp: cbind_def split: sum.splits)

lemma read_lines_quiet: "\<forall>l \<in> set ls. quiet l \<Longrightarrow> read_lines_counts ls r = Inr r"
  by (induction ls) (auto simp: read_quiet)

section \<open>The counts in the report\<close>

text \<open>The options that Ditto gives, with any cache sizes.\<close>

definition ditto_opts :: "clo_caches \<Rightarrow> clg_opts" where
  "ditto_opts cc = cache_sim_opts\<lparr>clg_caches := cc\<rparr>"

lemma ditto_groups: "run_groups (ditto_opts cc) = [None, Some [''Ir'', ''I1mr'', ''ILmr''], Some [''Dr'', ''D1mr'', ''DLmr''],
    Some [''Dw'', ''D1mw'', ''DLmw''], None, None, None, None, None, None]"
  by (simp add: run_groups_def ditto_opts_def cache_sim_opts_def)

lemma ditto_full:
  "es_offset (make_eventset (run_groups (ditto_opts cc)) 511) ! EG_IR = 0"
  "es_offset (make_eventset (run_groups (ditto_opts cc)) 511) ! EG_DR = 3"
  "es_offset (make_eventset (run_groups (ditto_opts cc)) 511) ! EG_DW = 6"
  "es_size (make_eventset (run_groups (ditto_opts cc)) 511) = 9"
  "es_size (make_eventset (run_groups (ditto_opts cc)) 4) = 3"
  "es_size (make_eventset (run_groups (ditto_opts cc)) 8) = 3"
  by (simp_all add: make_eventset_def ditto_groups in_set_def EG_defs Let_def)

lemma ditto_names: "run_names (ditto_opts cc) = [''Ir'', ''I1mr'', ''ILmr'', ''Dr'', ''D1mr'', ''DLmr'', ''Dw'', ''D1mw'', ''DLmw'']"
  by (simp add: run_names_def ditto_groups in_set_def)

lemma ditto_events: "join_blank (filter (\<lambda>n. n \<in> set (run_names (ditto_opts cc))) dump_events) =
    ''Ir Dr Dw I1mr D1mr D1mw ILmr DLmr DLmw''"
  by (simp add: ditto_names dump_events_def)

lemma nine_entries:
  assumes "length tot = 9"
  obtains a b c d e f g h i where "tot = [a, b, c, d, e, f, g, h, i]"
  using assms by (auto simp: length_Suc_conv numeral_eq_Suc)

lemma D_total_ok:
  assumes "eventGroup ev = run_groups (ditto_opts cc)" and "tables_current ev" and "eventSets_initialized ev"
    and "length tot = 9"
  shows "\<exists>d. D_total_of (make_eventset (run_groups (ditto_opts cc)) 511) ev tot = Inr d \<and>
    d ! 0 = tot ! 3 + tot ! 6 \<and> d ! 1 = tot ! 4 + tot ! 7 \<and> d ! 2 = tot ! 5 + tot ! 8"
proof -
  have small: "unat (4 :: UInt) < MAX_EVENTSET_COUNT" "unat (8 :: UInt) < MAX_EVENTSET_COUNT"
    by (simp_all add: MAX_EVENTSET_COUNT_def)
  obtain e1 where e1: "eventset_from_mask 4 ev = (Some (make_eventset (run_groups (ditto_opts cc)) 4), e1)"
    "tables_current e1" "eventGroup e1 = run_groups (ditto_opts cc)" "eventSets_initialized e1"
    using eventset_from_mask_current [OF assms(2) small(1)] assms(1,3) by auto
  obtain e2 where e2: "eventset_from_mask 8 e1 = (Some (make_eventset (run_groups (ditto_opts cc)) 8), e2)"
    using eventset_from_mask_current [OF e1(2) small(2)] e1(3,4) by auto
  obtain a b c d e f g h i where tot: "tot = [a, b, c, d, e, f, g, h, i]"
    using nine_entries [OF assms(4)] .
  have sets: "get_event_set (int EG_DR) ev = Inr (Some (make_eventset (run_groups (ditto_opts cc)) 4), e1)"
    "get_event_set (int EG_DW) e1 = Inr (Some (make_eventset (run_groups (ditto_opts cc)) 8), e2)"
    using e1(1) e2 by (simp_all add: get_event_set_def group_id_ok_def MAX_EVENTGROUP_COUNT_def EG_DR_def EG_DW_def)
  have "D_total_of (make_eventset (run_groups (ditto_opts cc)) 511) ev tot =
      Inr ([d + g, e + h, f + i] @ replicate 6 0)"
    using sets by (simp add: D_total_of_def init_cost_def on_prefix_def copy_cost_def add_cost_def ditto_full tot)
  then show ?thesis
    by (simp add: tot)
qed

definition plus_counts :: "ULong list \<Rightarrow> cache_results \<Rightarrow> cache_results" where
  "plus_counts tot r = r\<lparr>totol_refs := totol_refs r + unat (tot ! 3 + tot ! 6), rd_refs := rd_refs r + unat (tot ! 3),
     wr_refs := wr_refs r + unat (tot ! 6), totol_misses := totol_misses r + unat (tot ! 4 + tot ! 7),
     rd_misses := rd_misses r + unat (tot ! 4), wr_misses := wr_misses r + unat (tot ! 7),
     total_irefs := total_irefs r + unat (tot ! 0), total_imisses := total_imisses r + unat (tot ! 1)\<rparr>"

text \<open>The lines of the report, from the counts, the sums for data accesses and the line of all counts.\<close>

definition report_lines :: "pct \<Rightarrow> string \<Rightarrow> ULong list \<Rightarrow> ULong list \<Rightarrow> UInt \<Rightarrow> UInt \<Rightarrow> UInt \<Rightarrow> string list" where
  "report_lines pct m d t l1 l2 l3 =
     [''Events    : Ir Dr Dw I1mr D1mr D1mw ILmr DLmr DLmw'', ''Collected : '' @ m, '''',
      count1 ''I   refs:      '' l1 (t ! 0), count1 ''I1  misses:    '' l1 (t ! 1), count1 ''LLi misses:    '' l1 (t ! 2),
      ''I1  miss rate: '' @ pct 2 l1 (t ! 1) (one_for_zero (t ! 0)) @ ''%'',
      ''LLi miss rate: '' @ pct 2 l1 (t ! 2) (one_for_zero (t ! 0)) @ ''%'', '''',
      count3 ''D   refs:      '' l1 l2 l3 (d ! 0) (t ! 3) (t ! 6),
      count3 ''D1  misses:    '' l1 l2 l3 (d ! 1) (t ! 4) (t ! 7),
      count3 ''LLd misses:    '' l1 l2 l3 (d ! 2) (t ! 5) (t ! 8),
      rate3 pct ''D1  miss rate: '' l1 l2 l3 (d ! 1, one_for_zero (d ! 0)) (t ! 4, one_for_zero (t ! 3)) (t ! 7, one_for_zero (t ! 6)),
      rate3 pct ''LLd miss rate: '' l1 l2 l3 (d ! 2, one_for_zero (d ! 0)) (t ! 5, one_for_zero (t ! 3)) (t ! 8, one_for_zero (t ! 6)),
      '''', count3 ''LL refs:       '' l1 l2 l3 (t ! 4 + t ! 7 + t ! 1) (t ! 4 + t ! 1) (t ! 7),
      count3 ''LL misses:     '' l1 l2 l3 (t ! 5 + t ! 8 + t ! 2) (t ! 5 + t ! 2) (t ! 8),
      rate3 pct ''LL miss rate:  '' l1 l2 l3 (t ! 5 + t ! 8 + t ! 2, one_for_zero (t ! 0) + one_for_zero (d ! 0))
        (t ! 5 + t ! 2, one_for_zero (t ! 0) + one_for_zero (t ! 3)) (t ! 8, one_for_zero (t ! 6))]"

lemma read_quiet_prefix: "quiet l \<Longrightarrow> read_line_counts (pid_prefix pid @ l) r = Inr r"
  by (simp add: read_quiet quiet_prefix)

lemma read_quiet_lines:
  assumes "pct_ok pct"
  shows "read_line_counts (pid_prefix pid @ ''Events    : Ir Dr Dw I1mr D1mr D1mw ILmr DLmr DLmw'') r = Inr r"
    "read_line_counts (pid_prefix pid @ '''') r = Inr r"
    "read_line_counts (pid_prefix pid @ count1 ''LLi misses:    '' l1 n) r = Inr r"
    "read_line_counts (pid_prefix pid @ ''I1  miss rate: '' @ pct p l a b @ ''%'') r = Inr r"
    "read_line_counts (pid_prefix pid @ ''LLi miss rate: '' @ pct p l a b @ ''%'') r = Inr r"
    "read_line_counts (pid_prefix pid @ count3 ''LLd misses:    '' l1 l2 l3 n rd wr) r = Inr r"
    "read_line_counts (pid_prefix pid @ rate3 pct ''D1  miss rate: '' l1 l2 l3 na ra wa) r = Inr r"
    "read_line_counts (pid_prefix pid @ rate3 pct ''LLd miss rate: '' l1 l2 l3 na ra wa) r = Inr r"
    "read_line_counts (pid_prefix pid @ count3 ''LL refs:       '' l1 l2 l3 n rd wr) r = Inr r"
    "read_line_counts (pid_prefix pid @ count3 ''LL misses:     '' l1 l2 l3 n rd wr) r = Inr r"
    "read_line_counts (pid_prefix pid @ rate3 pct ''LL miss rate:  '' l1 l2 l3 na ra wa) r = Inr r"
  using quiet_rates [OF assms] by (intro read_quiet_prefix; simp add: quiet_counts; simp add: quiet_def)+

lemma report_lines_read:
  assumes "pct_ok pct" and "\<forall>x \<in> set m. num_char x" and "d ! 0 = t ! 3 + t ! 6" and "d ! 1 = t ! 4 + t ! 7"
  shows "read_lines_counts (map ((@) (pid_prefix pid)) (report_lines pct m d t l1 l2 l3)) r = Inr (plus_counts t r)"
proof -
  have "quiet (''Collected : '' @ m)"
    using assms(2) by (intro quiet_no_key) (auto simp: num_char_def not_digit)
  note collected = read_quiet_prefix [OF this]
  show ?thesis
    unfolding report_lines_def assms(3,4)
    by (simp only: list.map read_lines_counts.simps cbind_simps read_irefs read_imisses read_drefs read_dmisses
        collected read_quiet_lines [OF assms(1)]) (simp add: plus_counts_def)
qed

lemma report_lines_nl:
  assumes "pct_ok pct" and "\<forall>x \<in> set m. num_char x" and "l \<in> set (report_lines pct m d t l1 l2 l3)"
  shows "CHR 0x0A \<notin> set l"
proof -
  have "CHR 0x0A \<notin> set m"
    using assms(2) by (auto simp: num_char_def not_digit)
  then show ?thesis
    using assms(3) num_chars(3) pct_chars(3) [OF assms(1)] by (auto simp: report_lines_def count1_def count3_def rate3_def)
qed

lemma printstat_lines:
  assumes "es_offset full ! EG_IR = 0" "es_offset full ! EG_DR = 3" "es_offset full ! EG_DW = 6" and "length tot = 9"
    and "D_total_of full ev (tot[0 := one_for_zero (tot ! 0)]) = Inr d"
  shows "cachesim_printstat pct full ev tot l1 l2 l3 = Inr (drop 4 (report_lines pct m d tot l1 l2 l3))"
  using assms by (simp add: cachesim_printstat_def report_lines_def numeral_2_eq_2 Let_def)

lemma report_read:
  assumes "pct_ok pct" and "init_eventsets (ditto_opts cc) start_tables = Inr ((base, Some full, em), ev)" and "length tot = 9"
  shows "\<exists>ls. finish_report pct (ditto_opts cc) full em ev tot = Inr ls \<and> (\<forall>l \<in> set ls. CHR 0x0A \<notin> set l) \<and>
    (\<forall>pid r. read_lines_counts (map ((@) (pid_prefix pid)) ls) r = Inr (plus_counts tot r))"
proof -
  let ?names = "filter (\<lambda>n. n \<in> set (run_names (ditto_opts cc))) dump_events"
  have full: "full = make_eventset (run_groups (ditto_opts cc)) 511" and ents: "list_all2 (entry_is ev 511) ?names (em_entry em)"
    and ev: "eventGroup ev = run_groups (ditto_opts cc)" "tables_current ev" "eventSets_initialized ev"
    using init_eventsets_run [of "ditto_opts cc"] assms(2) by auto
  have map: "eventmapping_as_string ev em = Inr ''Ir Dr Dw I1mr D1mr D1mw ILmr DLmr DLmw''"
    using entry_names_ok [OF ents] ditto_events [of cc] by (simp add: eventmapping_as_string_def)
  have len: "length (run_names (ditto_opts cc)) = length tot"
    using assms(3) by (simp add: ditto_names)
  have "em_off (em_entry em ! i) < length tot" if "i < length (em_entry em)" for i
    using list_all2_nthD2 [OF ents that] unfolding len [symmetric] run_names_def entry_is_def ev(1) by blast
  then have "\<forall>e \<in> set (em_entry em). em_off e < length tot"
    by (metis in_set_conv_nth)
  from mappingcost_chars [OF this] obtain m where m: "mappingcost_as_string em (Some tot) = Inr m" "\<forall>x \<in> set m. num_char x"
    by blast
  obtain d where d: "D_total_of full ev (tot[0 := one_for_zero (tot ! 0)]) = Inr d"
      "d ! 0 = tot ! 3 + tot ! 6" "d ! 1 = tot ! 4 + tot ! 7"
    using D_total_ok [OF ev, of "tot[0 := one_for_zero (tot ! 0)]"] assms(3) by (auto simp: full)
  have ofs: "es_offset full ! EG_IR = 0" "es_offset full ! EG_DR = 3" "es_offset full ! EG_DW = 6"
    by (simp_all only: full ditto_full)
  have opts: "simulate_cache (ditto_opts cc)" "\<not> simulate_branch (ditto_opts cc)"
    by (simp_all add: ditto_opts_def cache_sim_opts_def)
  have "finish_report pct (ditto_opts cc) full em ev tot = Inr (report_lines pct m d tot (ULong_width (tot ! 0))
      (ULong_width (tot ! 3)) (ULong_width (tot ! 6)))"
    unfolding finish_report_def Let_def ofs
    by (simp only: m(1) map opts cbind_simps if_True if_False printstat_lines [OF ofs assms(3) d(1), of pct _ _ _ m])
      (simp add: report_lines_def)
  then show ?thesis
    using report_lines_read [OF assms(1) m(2) d(2,3)] report_lines_nl [OF assms(1) m(2)] by blast
qed

text \<open>The output of several processes, one after the other.\<close>

fun all_reports ::
  "pct \<Rightarrow> clg_opts \<Rightarrow> EventSet \<Rightarrow> EventMapping \<Rightarrow> event_tables \<Rightarrow> (nat \<times> ULong list) list \<Rightarrow> string cres" where
  "all_reports pct o1 full em ev [] = Inr []"
| "all_reports pct o1 full em ev ((pid, tot) # procs) =
     cbind (finish_report pct o1 full em ev tot) (\<lambda>ls.
     cbind (all_reports pct o1 full em ev procs) (\<lambda>text.
     Inr (report_text pid ls @ text)))"

lemma report_text_lines: "report_text pid ls = concat (map (\<lambda>l. l @ [CHR 0x0A]) (map ((@) (pid_prefix pid)) ls))"
  by (induction ls) (simp_all add: report_text_def umsg_line_def pid_prefix_def)

lemma all_reports_read:
  assumes "pct_ok pct" and "init_eventsets (ditto_opts cc) start_tables = Inr ((base, Some full, em), ev)"
    and "\<forall>p \<in> set procs. length (snd p) = 9"
  shows "\<exists>ls. all_reports pct (ditto_opts cc) full em ev procs = Inr (concat (map (\<lambda>l. l @ [CHR 0x0A]) ls)) \<and>
    (\<forall>l \<in> set ls. CHR 0x0A \<notin> set l) \<and> (\<forall>r. read_lines_counts ls r = Inr (fold plus_counts (map snd procs) r))"
  using assms(3)
proof (induction procs)
  case (Cons p procs)
  obtain pid tot where p: "p = (pid, tot)" by (cases p)
  have tot: "length tot = 9"
    using Cons.prems by (simp add: p)
  obtain ls where ls: "finish_report pct (ditto_opts cc) full em ev tot = Inr ls" "\<forall>l \<in> set ls. CHR 0x0A \<notin> set l"
    "\<forall>r. read_lines_counts (map ((@) (pid_prefix pid)) ls) r = Inr (plus_counts tot r)"
    using report_read [OF assms(1,2) tot] by blast
  obtain ms where ms: "all_reports pct (ditto_opts cc) full em ev procs = Inr (concat (map (\<lambda>l. l @ [CHR 0x0A]) ms))"
    "\<forall>l \<in> set ms. CHR 0x0A \<notin> set l" "\<forall>r. read_lines_counts ms r = Inr (fold plus_counts (map snd procs) r)"
    using Cons by auto
  have "\<forall>l \<in> set (map ((@) (pid_prefix pid)) ls @ ms). CHR 0x0A \<notin> set l"
    using ls(2) ms(2) pid_prefix_chars(3) by auto
  moreover have "all_reports pct (ditto_opts cc) full em ev (p # procs) =
      Inr (concat (map (\<lambda>l. l @ [CHR 0x0A]) (map ((@) (pid_prefix pid)) ls @ ms)))"
    by (simp add: p ls(1) ms(1) report_text_lines)
  moreover have "\<forall>r. read_lines_counts (map ((@) (pid_prefix pid)) ls @ ms) r = Inr (fold plus_counts (map snd (p # procs)) r)"
    using ls(3) ms(3) by (simp add: read_lines_append p)
  ultimately show ?case
    by blast
qed simp

lemma fold_plus_counts:
  "fold plus_counts ts r = \<lparr>totol_refs = totol_refs r + (\<Sum>t\<leftarrow>ts. unat (t ! 3 + t ! 6)),
     rd_refs = rd_refs r + (\<Sum>t\<leftarrow>ts. unat (t ! 3)), wr_refs = wr_refs r + (\<Sum>t\<leftarrow>ts. unat (t ! 6)),
     totol_misses = totol_misses r + (\<Sum>t\<leftarrow>ts. unat (t ! 4 + t ! 7)),
     rd_misses = rd_misses r + (\<Sum>t\<leftarrow>ts. unat (t ! 4)), wr_misses = wr_misses r + (\<Sum>t\<leftarrow>ts. unat (t ! 7)),
     total_irefs = total_irefs r + (\<Sum>t\<leftarrow>ts. unat (t ! 0)), total_imisses = total_imisses r + (\<Sum>t\<leftarrow>ts. unat (t ! 1))\<rparr>"
  by (induction ts arbitrary: r) (simp_all add: plus_counts_def)

text \<open>
  C1: The script of Ditto reads back the counts of the profiler. From the log of any number of
  processes run with its options, each with the report of its nine counters, after other lines that
  have none of the four keywords, it gets the sums over the processes of the loads, the stores and
  the fetches and of their first level misses, whatever the widths, the thousands separators and the
  process numbers are.
\<close>

theorem run_valgrind_reads_counts:
  assumes "pct_ok pct" and "init_eventsets (ditto_opts cc) start_tables = Inr ((base, Some full, em), ev)"
    and "\<forall>t \<in> set ts. length t = es_size full" and "length pids = length ts"
    and "\<forall>l \<in> set banner. quiet l \<and> CHR 0x0A \<notin> set l"
  shows "\<exists>text. all_reports pct (ditto_opts cc) full em ev (zip pids ts) = Inr text \<and>
    read_valgrind_output (concat (map (\<lambda>l. l @ [CHR 0x0A]) banner) @ text) =
      Inr \<lparr>totol_refs = \<Sum>t\<leftarrow>ts. unat (t ! 3 + t ! 6), rd_refs = \<Sum>t\<leftarrow>ts. unat (t ! 3), wr_refs = \<Sum>t\<leftarrow>ts. unat (t ! 6),
        totol_misses = \<Sum>t\<leftarrow>ts. unat (t ! 4 + t ! 7), rd_misses = \<Sum>t\<leftarrow>ts. unat (t ! 4), wr_misses = \<Sum>t\<leftarrow>ts. unat (t ! 7),
        total_irefs = \<Sum>t\<leftarrow>ts. unat (t ! 0), total_imisses = \<Sum>t\<leftarrow>ts. unat (t ! 1)\<rparr>"
proof -
  have "full = make_eventset (run_groups (ditto_opts cc)) 511"
    using init_eventsets_run [of "ditto_opts cc"] assms(2) by auto
  then have "\<forall>p \<in> set (zip pids ts). length (snd p) = 9"
    using assms(3) ditto_full(4) [of cc] by (auto dest: set_zip_rightD)
  from all_reports_read [OF assms(1,2) this] obtain ls where
    ls: "all_reports pct (ditto_opts cc) full em ev (zip pids ts) = Inr (concat (map (\<lambda>l. l @ [CHR 0x0A]) ls))"
      "\<forall>l \<in> set ls. CHR 0x0A \<notin> set l" "\<forall>r. read_lines_counts ls r = Inr (fold plus_counts (map snd (zip pids ts)) r)"
    by blast
  have "quiet []" by (simp add: quiet_def)
  moreover have "py_lines [] (concat (map (\<lambda>l. l @ [CHR 0x0A]) (banner @ ls))) = (banner @ ls) @ [[]]"
    using ls(2) assms(5) by (intro py_lines_concat) auto
  ultimately have "read_valgrind_output (concat (map (\<lambda>l. l @ [CHR 0x0A]) (banner @ ls))) = Inr (fold plus_counts ts no_results)"
    using assms(4,5) ls(3) by (simp add: read_valgrind_output_def read_lines_append read_lines_quiet read_quiet)
  then show ?thesis
    using ls(1) by (simp add: fold_plus_counts no_results_def)
qed

theorem run_valgrind_reads_counts_witness:
  "\<exists>base full em ev text r. init_eventsets (ditto_opts no_clo_caches) start_tables = Inr ((base, Some full, em), ev) \<and>
     all_reports (\<lambda>p w a b. ''0.0'') (ditto_opts no_clo_caches) full em ev
       [(4711, [1234567, 0, 0, 2000, 100, 50, 999, 20, 10]), (4712, [0, 0, 0, 1, 1, 0, 0, 0, 0])] = Inr text \<and>
     read_valgrind_output (concat (map (\<lambda>l. l @ [CHR 0x0A]) [''starting'']) @ text) = Inr r \<and>
     totol_refs r = 3000 \<and> rd_misses r = 101 \<and> total_irefs r = 1234567"
proof -
  obtain base em ev where run: "init_eventsets (ditto_opts no_clo_caches) start_tables =
      Inr ((Some base, Some (make_eventset (run_groups (ditto_opts no_clo_caches)) 511), em), ev)"
    using init_eventsets_run .
  let ?ts = "[[1234567, 0, 0, 2000, 100, 50, 999, 20, 10], [0, 0, 0, 1, 1, 0, 0, 0, 0]] :: ULong list list"
  have "pct_ok (\<lambda>p w a b. ''0.0'')" "\<forall>l \<in> set [''starting'']. quiet l \<and> CHR 0x0A \<notin> set l" "length [4711, 4712] = length ?ts"
    "\<forall>t \<in> set ?ts. length t = es_size (make_eventset (run_groups (ditto_opts no_clo_caches)) 511)"
    by (simp_all add: pct_ok_def quiet_def ditto_full)
  from run_valgrind_reads_counts [OF this(1) run this(4,3,2)] run show ?thesis
    by fastforce
qed

end
