(* ===== verification/TCPConn.thy ===== *)
theory TCPConn
  imports Prelude
begin

text \<open>
  A connection of the synthetic server, \<open>connection/tcp_conn.cpp\<close> and the descriptor functions of
  \<open>utils.cpp\<close>: the skeleton and the generated servers, which replace the sending of the reply, the
  splitting of requests and the reply.

  The operating system is a script: what arrives at the socket, an error or bytes, the results of
  \<open>write\<close>, \<open>writev\<close> and \<open>sendmsg\<close>, and the descriptors that \<open>open\<close> returns, in the order of the
  calls. A call of \<open>read\<close> takes from the bytes that have arrived at most the number it asks for and
  leaves the rest for the next call; an arrival of no bytes is the end of the input. A loop that
  needs an answer that the script does not have is still waiting, which is the value \<open>None\<close>. The
  calls that change descriptors are recorded in order, as are the bytes sent. The body that stands for the work of a
  request, \<open>runAssembly\<close>, is generated code without effect on the connection.
\<close>

section \<open>Operating system\<close>

datatype errno = EAGAIN | EWOULDBLOCK | EINTR | EOTHER

datatype arrival =
    ReadError errno
  | Arrive string

datatype fdop =
    EpollAdd int int bool
  | EpollDel int int
  | EpollMod int int int
  | CloseFd int
  | SetNonblock int
  | SetNoDelay int
  | OpenFile string int
  | Fcntl int
  | StatFile string
  | Fstat int
  | Pread int nat
  | WriteFd int nat

record os =
  reads :: "arrival list"
  writes :: "(int \<times> errno) list"
  opens :: "int list"
  sent :: "(int \<times> string) list"
  ops :: "fdop list"

datatype conn_mode = NETWORKEPOLL | NONBLOCKING | BLOCKING

definition do_op :: "fdop \<Rightarrow> os \<Rightarrow> os" where
  "do_op f w = w\<lparr>ops := ops w @ [f]\<rparr>"

definition setnonblocking :: "int \<Rightarrow> os \<Rightarrow> os" where
  "setnonblocking fd = do_op (SetNonblock fd)"

definition addfd :: "int \<Rightarrow> int \<Rightarrow> bool \<Rightarrow> os \<Rightarrow> os" where
  "addfd epollfd fd et = do_op (EpollAdd epollfd fd et)"

definition removefd :: "int \<Rightarrow> int \<Rightarrow> os \<Rightarrow> os" where
  "removefd epollfd fd w = do_op (CloseFd fd) (do_op (EpollDel epollfd fd) w)"

definition modfd :: "int \<Rightarrow> int \<Rightarrow> int \<Rightarrow> os \<Rightarrow> os" where
  "modfd epollfd fd ev = do_op (EpollMod epollfd fd ev)"

section \<open>Connections\<close>

text \<open>
  An element of \<open>iv_\<close> is an offset into the write buffer and a length. The lengths of the buffers
  are the sizes of the class. Only the server for nginx has the field \<open>log_fd_\<close>.
\<close>

record TCPConn =
  epoll_fd :: int
  socket_fd :: int
  read_buf :: string
  read_idx :: int
  write_buf :: string
  write_idx :: int
  iv :: "(nat \<times> nat) list"
  iv_count :: nat
  bytes_to_send :: int
  bytes_have_send :: int
  log_fd :: int

definition CloseConn :: "conn_mode \<Rightarrow> bool \<Rightarrow> TCPConn \<times> os \<Rightarrow> TCPConn \<times> os" where
  "CloseConn mode real_close = (\<lambda>(c, w).
     if real_close \<and> socket_fd c \<noteq> - 1 then
       (c\<lparr>socket_fd := - 1\<rparr>,
        if mode = NETWORKEPOLL then removefd (epoll_fd c) (socket_fd c) w else w)
     else (c, w))"

definition Reset :: "TCPConn \<Rightarrow> TCPConn" where
  "Reset c = c\<lparr>bytes_to_send := 0, bytes_have_send := 0, read_idx := 0, write_idx := 0,
     read_buf := replicate (length (read_buf c)) CHR 0x00,
     write_buf := replicate (length (write_buf c)) CHR 0x00\<rparr>"

text \<open>\<open>Reset\<close> of the redis server leaves the buffers as they are.\<close>

definition redis_Reset :: "TCPConn \<Rightarrow> TCPConn" where
  "redis_Reset c = c\<lparr>bytes_to_send := 0, bytes_have_send := 0, read_idx := 0, write_idx := 0\<rparr>"

text \<open>The registration of the socket in \<open>Init\<close>, and \<open>Init\<close> of the servers.\<close>

definition register_socket :: "conn_mode \<Rightarrow> int \<Rightarrow> int \<Rightarrow> os \<Rightarrow> os" where
  "register_socket mode epfd sockfd w =
     (let w = (if mode = NETWORKEPOLL then setnonblocking sockfd (addfd epfd sockfd False w) else w)
      in if mode = NONBLOCKING then setnonblocking sockfd w else w)"

definition Init :: "conn_mode \<Rightarrow> int \<Rightarrow> int \<Rightarrow> TCPConn \<times> os \<Rightarrow> TCPConn \<times> os" where
  "Init mode epfd sockfd = (\<lambda>(c, w).
     (Reset (c\<lparr>epoll_fd := epfd, socket_fd := sockfd\<rparr>), register_socket mode epfd sockfd w))"

definition redis_Init :: "conn_mode \<Rightarrow> int \<Rightarrow> int \<Rightarrow> TCPConn \<times> os \<Rightarrow> TCPConn \<times> os" where
  "redis_Init mode epfd sockfd = (\<lambda>(c, w).
     (redis_Reset (c\<lparr>epoll_fd := epfd, socket_fd := sockfd\<rparr>), register_socket mode epfd sockfd w))"

text \<open>\<open>open\<close> of a file: the next descriptor of the script.\<close>

definition open_file :: "string \<Rightarrow> os \<Rightarrow> (int \<times> os) option" where
  "open_file path w =
     (case opens w of
        [] \<Rightarrow> None
      | fd # fds \<Rightarrow> Some (fd, do_op (OpenFile path fd) (w\<lparr>opens := fds\<rparr>)))"

definition nginx_Init :: "conn_mode \<Rightarrow> int \<Rightarrow> int \<Rightarrow> TCPConn \<times> os \<Rightarrow> (TCPConn \<times> os) option" where
  "nginx_Init mode epfd sockfd = (\<lambda>(c, w).
     map_option (\<lambda>(fd, w).
       (Reset (c\<lparr>epoll_fd := epfd, socket_fd := sockfd, log_fd := fd\<rparr>),
        register_socket mode epfd sockfd (do_op (Fcntl fd) w)))
     (open_file ''./dummy.log'' w))"

text \<open>
  \<open>read(fd, buf, len)\<close> on the next arrival: the error, or the bytes delivered, and what is left of
  the arrival.
\<close>

fun sys_read :: "nat \<Rightarrow> arrival \<Rightarrow> (errno + string) \<times> arrival list" where
  "sys_read len (ReadError e) = (Inl e, [])"
| "sys_read len (Arrive bs) = (Inr (take len bs), if length bs \<le> len then [] else [Arrive (drop len bs)])"

text \<open>
  The call \<open>read(socket_fd_, read_buf_ + read_idx_, READ_BUFFER_SIZE - read_idx_)\<close>. The length is
  computed as an \<open>int\<close> and converted to \<open>size_t\<close>; what is delivered is stored from \<open>read_idx_\<close> on.
\<close>

definition read_len :: "TCPConn \<Rightarrow> nat" where
  "read_len c = (let n = int (length (read_buf c)) - read_idx c in nat (if n < 0 then n + 2 ^ 64 else n))"

definition store_read :: "string \<Rightarrow> TCPConn \<Rightarrow> TCPConn cres" where
  "store_read bytes c =
     (if bytes = [] then Inr c
      else if 0 \<le> read_idx c \<and> nat (read_idx c) + length bytes \<le> length (read_buf c)
      then Inr (c\<lparr>read_buf := splice_at (nat (read_idx c)) bytes (read_buf c)\<rparr>)
      else Inl Out_of_bounds)"

text \<open>The end of \<open>ReadOnce\<close>, for the result of the call: a failed call returned \<open>-1\<close>.\<close>

definition finish_read :: "errno + string \<Rightarrow> TCPConn \<Rightarrow> os \<Rightarrow> (bool \<times> TCPConn \<times> os) cres" where
  "finish_read result c w =
     (let bytes = (case result of Inl e \<Rightarrow> [] | Inr bytes \<Rightarrow> bytes);
          bytes_read = (case result of Inl e \<Rightarrow> - 1 | Inr bytes \<Rightarrow> int (length bytes))
      in cbind (store_read bytes c) (\<lambda>c.
         let c = c\<lparr>read_idx := read_idx c + bytes_read\<rparr>
         in if bytes_read \<le> 0 then Inr (False, c, w) else Inr (True, c, w)))"

fun ReadOnce_loop :: "TCPConn \<Rightarrow> os \<Rightarrow> arrival list \<Rightarrow> (bool \<times> TCPConn \<times> os) cres option" where
  "ReadOnce_loop c w [] = None"
| "ReadOnce_loop c w (a # rs) =
     (case sys_read (read_len c) a of
        (Inl e, rest) \<Rightarrow>
          if e = EAGAIN \<or> e = EWOULDBLOCK then ReadOnce_loop c w rs
          else Some (Inr (False, c, w\<lparr>reads := rs\<rparr>))
      | (Inr bytes, rest) \<Rightarrow> Some (finish_read (Inr bytes) c (w\<lparr>reads := rest @ rs\<rparr>)))"

definition ReadOnce :: "conn_mode \<Rightarrow> TCPConn \<Rightarrow> os \<Rightarrow> (bool \<times> TCPConn \<times> os) cres option" where
  "ReadOnce mode c w =
     (if mode = NONBLOCKING then ReadOnce_loop c w (reads w)
      else case reads w of
        [] \<Rightarrow> None
      | a # rs \<Rightarrow>
          (case sys_read (read_len c) a of (result, rest) \<Rightarrow>
             Some (finish_read result c (w\<lparr>reads := rest @ rs\<rparr>))))"

section \<open>Sending\<close>

text \<open>The bytes of the write buffer that an array of \<open>iovec\<close> describes, inside the buffer.\<close>

definition iov_ok :: "string \<Rightarrow> (nat \<times> nat) list \<Rightarrow> bool" where
  "iov_ok buf vs = list_all (\<lambda>(off, len). off + len \<le> length buf) vs"

definition iov_bytes :: "string \<Rightarrow> (nat \<times> nat) list \<Rightarrow> string" where
  "iov_bytes buf vs = concat (map (\<lambda>(off, len). window off len buf) vs)"

definition send_bytes :: "TCPConn \<Rightarrow> string \<Rightarrow> int \<Rightarrow> os \<Rightarrow> os" where
  "send_bytes c bytes temp w = w\<lparr>sent := sent w @ [(socket_fd c, take (nat temp) bytes)]\<rparr>"

definition sent_some :: "int \<Rightarrow> TCPConn \<Rightarrow> TCPConn" where
  "sent_some temp c = c\<lparr>bytes_have_send := bytes_have_send c + temp, bytes_to_send := bytes_to_send c - temp\<rparr>"

text \<open>
  The loop of \<open>WriteOnce\<close> outside \<open>BLOCKING\<close>, for the way a call names the bytes to send and for
  the \<open>Reset\<close> of the server. A call that names bytes outside the buffer is a fault.
\<close>

fun write_loop ::
  "(TCPConn \<Rightarrow> TCPConn) \<Rightarrow> (TCPConn \<Rightarrow> (nat \<times> nat) list) \<Rightarrow> conn_mode \<Rightarrow>
     TCPConn \<Rightarrow> os \<Rightarrow> (int \<times> errno) list \<Rightarrow> (TCPConn \<times> os) cres option" where
  "write_loop reset vec mode c w [] = None"
| "write_loop reset vec mode c w ((temp, e) # ws) =
     (if \<not> iov_ok (write_buf c) (vec c) then Some (Inl Out_of_bounds)
      else if temp < 0 then
        (if e = EAGAIN \<or> e = EWOULDBLOCK then write_loop reset vec mode c w ws
         else Some (Inr (CloseConn mode True (c, w\<lparr>writes := ws\<rparr>))))
      else
        let w = send_bytes c (iov_bytes (write_buf c) (vec c)) temp w;
            c = sent_some temp c
        in if bytes_to_send c \<le> 0 then Some (Inr (reset c, w\<lparr>writes := ws\<rparr>))
           else write_loop reset vec mode c w ws)"

text \<open>\<open>writev(socket_fd_, iv_, iv_count_)\<close>, of the skeleton and of the nginx server.\<close>

definition writev_vec :: "TCPConn \<Rightarrow> (nat \<times> nat) list" where
  "writev_vec c = take (iv_count c) (iv c)"

text \<open>
  \<open>write(socket_fd_, write_buf_ + bytes_have_send_, bytes_to_send_)\<close>, of the redis server. The two
  counts are not negative where the loop makes the call.
\<close>

definition write_vec :: "TCPConn \<Rightarrow> (nat \<times> nat) list" where
  "write_vec c = [(nat (bytes_have_send c), nat (bytes_to_send c))]"

text \<open>\<open>WriteOnce\<close> under \<open>BLOCKING\<close>, the same in all servers but for their \<open>Reset\<close>.\<close>

definition WriteOnce_blocking ::
  "(TCPConn \<Rightarrow> TCPConn) \<Rightarrow> TCPConn \<Rightarrow> os \<Rightarrow> (TCPConn \<times> os) cres option" where
  "WriteOnce_blocking reset c w =
     (case writes w of
        [] \<Rightarrow> None
      | (temp, e) # ws \<Rightarrow>
          if \<not> iov_ok (write_buf c) (writev_vec c) then Some (Inl Out_of_bounds)
          else
            let w = (if temp < 0 then w
                     else send_bytes c (iov_bytes (write_buf c) (writev_vec c)) temp w)\<lparr>writes := ws\<rparr>;
                c = sent_some temp c
            in if temp < 0 \<or> bytes_to_send c \<noteq> 0 then Some (Inr (CloseConn BLOCKING True (c, w)))
               else Some (Inr (reset c, w)))"

definition WriteOnce :: "conn_mode \<Rightarrow> TCPConn \<Rightarrow> os \<Rightarrow> (TCPConn \<times> os) cres option" where
  "WriteOnce mode c w =
     (if mode = BLOCKING then WriteOnce_blocking Reset c w
      else write_loop Reset writev_vec mode c w (writes w))"

definition redis_WriteOnce :: "conn_mode \<Rightarrow> TCPConn \<Rightarrow> os \<Rightarrow> (TCPConn \<times> os) cres option" where
  "redis_WriteOnce mode c w =
     (if mode = BLOCKING then WriteOnce_blocking redis_Reset c w
      else write_loop redis_Reset write_vec mode c w (writes w))"

text \<open>
  \<open>WriteOnce\<close> of the memcached server. Lengths are of type \<open>size_t\<close>; \<open>advance_iov\<close> is the part
  that moves the three elements of \<open>iv_\<close> after a send of \<open>temp\<close> bytes, in the order of the code.
\<close>

definition advance_iov :: "int \<Rightarrow> (nat \<times> nat) list \<Rightarrow> (nat \<times> nat) list" where
  "advance_iov temp vs =
     (let (b0, l0) = vs ! 0; (b1, l1) = vs ! 1; (b2, l2) = vs ! 2; t = nat temp in
      if t < l0 then [(b0 + t, l0 - t), (b1, l1), (b2, l2)]
      else if t \<ge> l0 \<and> t \<le> l0 + l1 then
        [(b0, 0), (b1 + (t - l0), (2 ^ 64 + l1 - (t - 0)) mod 2 ^ 64), (b2, l2)]
      else
        [(b0, 0), (b1, 0), (b2 + (t - 0 - 0), (2 ^ 64 + l2 - (t - 0 - 0)) mod 2 ^ 64)])"

fun memcached_WriteOnce_loop ::
  "conn_mode \<Rightarrow> TCPConn \<Rightarrow> os \<Rightarrow> (int \<times> errno) list \<Rightarrow> (TCPConn \<times> os) cres option" where
  "memcached_WriteOnce_loop mode c w [] =
     (if bytes_to_send c = 0 then Some (Inr (Reset c, w\<lparr>writes := []\<rparr>)) else None)"
| "memcached_WriteOnce_loop mode c w ((temp, e) # ws) =
     (if bytes_to_send c = 0 then Some (Inr (Reset c, w\<lparr>writes := (temp, e) # ws\<rparr>))
      else if \<not> iov_ok (write_buf c) (writev_vec c) then Some (Inl Out_of_bounds)
      else if temp < 0 then
        (if e = EAGAIN \<or> e = EWOULDBLOCK then memcached_WriteOnce_loop mode c w ws
         else Some (Inr (CloseConn mode True (c, w\<lparr>writes := ws\<rparr>))))
      else
        let w = send_bytes c (iov_bytes (write_buf c) (writev_vec c)) temp w;
            c = (sent_some temp c)\<lparr>iv := advance_iov temp (iv c)\<rparr>
        in if bytes_to_send c \<le> 0 then Some (Inr (Reset c, w\<lparr>writes := ws\<rparr>))
           else memcached_WriteOnce_loop mode c w ws)"

definition memcached_WriteOnce :: "conn_mode \<Rightarrow> TCPConn \<Rightarrow> os \<Rightarrow> (TCPConn \<times> os) cres option" where
  "memcached_WriteOnce mode c w =
     (if mode = BLOCKING then WriteOnce_blocking Reset c w else memcached_WriteOnce_loop mode c w (writes w))"

section \<open>Requests\<close>

definition ParseMultiRequest :: "TCPConn \<Rightarrow> int" where
  "ParseMultiRequest c = 1"

definition memcached_ParseMultiRequest :: "TCPConn \<Rightarrow> int" where
  "memcached_ParseMultiRequest c = read_idx c sdiv 54"

text \<open>The servers for redis and nginx count the line ends among the bytes read.\<close>

definition newline_ParseMultiRequest :: "TCPConn \<Rightarrow> int" where
  "newline_ParseMultiRequest c =
     int (length (filter (\<lambda>ch. ch = CHR 0x0A) (take (nat (read_idx c)) (read_buf c))))"

text \<open>Writing bytes into the write buffer from an offset on.\<close>

definition put_bytes :: "nat \<Rightarrow> string \<Rightarrow> TCPConn \<Rightarrow> TCPConn cres" where
  "put_bytes off s c =
     (if off + length s \<le> length (write_buf c) then Inr (c\<lparr>write_buf := splice_at off s (write_buf c)\<rparr>)
      else Inl Out_of_bounds)"

definition reply_text :: string where
  "reply_text = ''reply!Helloworld!Helloworld!Helloworld!'' @ [CHR 0x0A]"

text \<open>
  The body of the loop of \<open>Process\<close> up to the call of \<open>WriteOnce\<close>, per server. The one for nginx
  first looks at a file and writes to its log.
\<close>

definition prepare_reply :: "TCPConn \<times> os \<Rightarrow> (TCPConn \<times> os) cres option" where
  "prepare_reply = (\<lambda>(c, w). Some (
     cbind (put_bytes 0 reply_text c) (\<lambda>c.
     Inr (c\<lparr>write_idx := int (length reply_text), iv := [(0, length reply_text)],
        iv_count := 1, bytes_to_send := int (length reply_text)\<rparr>, w))))"

definition redis_prepare :: "TCPConn \<times> os \<Rightarrow> (TCPConn \<times> os) cres option" where
  "redis_prepare = (\<lambda>(c, w). Some (
     cbind (put_bytes 0 ''reply'' (c\<lparr>write_idx := 1205\<rparr>)) (\<lambda>c.
     cbind (put_bytes 1204 [CHR 0x0A] c) (\<lambda>c.
     Inr (c\<lparr>bytes_to_send := 1205\<rparr>, w)))))"

definition nginx_file_ops :: "int \<Rightarrow> os \<Rightarrow> os option" where
  "nginx_file_ops logfd w =
     map_option (\<lambda>(fd, w).
       do_op (CloseFd fd) (do_op (WriteFd logfd 82) (do_op (Pread fd 612) (do_op (Fstat fd) w))))
     (open_file ''./dummy.html'' (do_op (StatFile ''./dummy.html'') w))"

definition nginx_prepare :: "TCPConn \<times> os \<Rightarrow> (TCPConn \<times> os) cres option" where
  "nginx_prepare = (\<lambda>(c, w).
     map_option (\<lambda>w.
       cbind (put_bytes 0 ''reply'' (c\<lparr>write_idx := 238\<rparr>)) (\<lambda>c.
       Inr (c\<lparr>iv := [(0, 238), (238, 612)], iv_count := 2, bytes_to_send := 850\<rparr>, w)))
     (nginx_file_ops (log_fd c) w))"

definition memcached_prepare :: "TCPConn \<times> os \<Rightarrow> (TCPConn \<times> os) cres option" where
  "memcached_prepare = (\<lambda>(c, w). Some (
     cbind (put_bytes 0 ''reply'' c) (\<lambda>c.
     Inr (c\<lparr>iv := [(0, 24), (24, 4), (28, 4096)], iv_count := 3, bytes_to_send := 4124\<rparr>, w))))"

text \<open>
  The loop of \<open>Process\<close> with its number of requests, for a way to prepare and a way to send a
  reply; the last component is \<open>request_id\<close>.
\<close>

fun process_loop ::
  "(TCPConn \<times> os \<Rightarrow> (TCPConn \<times> os) cres option) \<Rightarrow> (TCPConn \<Rightarrow> os \<Rightarrow> (TCPConn \<times> os) cres option) \<Rightarrow>
     nat \<Rightarrow> TCPConn \<Rightarrow> os \<Rightarrow> ULong \<Rightarrow> (TCPConn \<times> os \<times> ULong) cres option" where
  "process_loop prepare send 0 c w request_id = Some (Inr (c, w, request_id))"
| "process_loop prepare send (Suc n) c w request_id =
     (case prepare (c, w) of
        None \<Rightarrow> None
      | Some (Inl e) \<Rightarrow> Some (Inl e)
      | Some (Inr (c, w)) \<Rightarrow>
          (case send c w of
             None \<Rightarrow> None
           | Some (Inl e) \<Rightarrow> Some (Inl e)
           | Some (Inr (c, w)) \<Rightarrow> process_loop prepare send n c w (request_id + 1)))"

definition Process :: "conn_mode \<Rightarrow> TCPConn \<Rightarrow> os \<Rightarrow> ULong \<Rightarrow> (TCPConn \<times> os \<times> ULong) cres option" where
  "Process mode c = process_loop prepare_reply (WriteOnce mode) (nat (ParseMultiRequest c)) c"

definition redis_Process :: "conn_mode \<Rightarrow> TCPConn \<Rightarrow> os \<Rightarrow> ULong \<Rightarrow> (TCPConn \<times> os \<times> ULong) cres option" where
  "redis_Process mode c = process_loop redis_prepare (redis_WriteOnce mode) (nat (newline_ParseMultiRequest c)) c"

definition nginx_Process :: "conn_mode \<Rightarrow> TCPConn \<Rightarrow> os \<Rightarrow> ULong \<Rightarrow> (TCPConn \<times> os \<times> ULong) cres option" where
  "nginx_Process mode c = process_loop nginx_prepare (WriteOnce mode) (nat (newline_ParseMultiRequest c)) c"

definition memcached_Process :: "conn_mode \<Rightarrow> TCPConn \<Rightarrow> os \<Rightarrow> ULong \<Rightarrow> (TCPConn \<times> os \<times> ULong) cres option" where
  "memcached_Process mode c =
     process_loop memcached_prepare (memcached_WriteOnce mode) (nat (memcached_ParseMultiRequest c)) c"

text \<open>A connection as \<open>Init\<close> leaves it, with buffers of the given size.\<close>

definition fresh_conn :: "nat \<Rightarrow> TCPConn" where
  "fresh_conn len = \<lparr>epoll_fd = 5, socket_fd = 7, read_buf = replicate len CHR 0x00, read_idx = 0,
     write_buf = replicate len CHR 0x00, write_idx = 0, iv = [], iv_count = 0,
     bytes_to_send = 0, bytes_have_send = 0, log_fd = 6\<rparr>"

definition quiet_os :: os where
  "quiet_os = \<lparr>reads = [], writes = [], opens = [], sent = [], ops = []\<rparr>"

section \<open>Reading\<close>

definition conn_ok :: "TCPConn \<Rightarrow> bool" where
  "conn_ok c \<longleftrightarrow> 0 \<le> read_idx c \<and> read_idx c \<le> int (length (read_buf c))"

text \<open>The bytes received and not yet processed, and the room behind them.\<close>

definition received :: "TCPConn \<Rightarrow> string" where
  "received c = take (nat (read_idx c)) (read_buf c)"

definition room :: "TCPConn \<Rightarrow> nat" where
  "room c = length (read_buf c) - length (received c)"

lemma read_len_room: "conn_ok c \<Longrightarrow> read_len c = room c"
  by (auto simp: read_len_def room_def received_def conn_ok_def)

lemma finish_read_ok:
  assumes "conn_ok c" and "length bytes \<le> room c"
  obtains c' where "finish_read (Inr bytes) c w = Inr (bytes \<noteq> [], c', w)" and "conn_ok c'"
    and "received c' = received c @ bytes" and "length (read_buf c') = length (read_buf c)"
    and "socket_fd c' = socket_fd c" and "write_buf c' = write_buf c"
    and "bytes_have_send c' = bytes_have_send c"
proof -
  define c' where "c' = (if bytes = [] then c
     else c\<lparr>read_buf := splice_at (nat (read_idx c)) bytes (read_buf c)\<rparr>)\<lparr>read_idx := read_idx c + int (length bytes)\<rparr>"
  have le: "nat (read_idx c) + length bytes \<le> length (read_buf c)"
    using assms by (auto simp: room_def received_def conn_ok_def min_def split: if_splits)
  have len: "length (read_buf c') = length (read_buf c)"
    using le by (simp add: c'_def length_splice_at)
  have "finish_read (Inr bytes) c w = Inr (bytes \<noteq> [], c', w)"
    using assms(1) le by (auto simp: finish_read_def store_read_def c'_def conn_ok_def Let_def)
  moreover have "conn_ok c'"
    using assms(1) le by (auto simp: conn_ok_def c'_def length_splice_at)
  moreover have "length (read_buf c) \<le> nat (read_idx c) \<Longrightarrow> bytes = []"
    using le by (cases bytes) simp_all
  then have "received c' = received c @ bytes"
    using assms(1) le
    by (auto simp: received_def c'_def splice_at_def conn_ok_def nat_add_distrib min_def)
  ultimately show ?thesis
    using len that by (simp add: c'_def)
qed

text \<open>The first arrival that the loop of \<open>NONBLOCKING\<close> does not repeat, and those after it.\<close>

fun settled_read :: "arrival list \<Rightarrow> (arrival \<times> arrival list) option" where
  "settled_read [] = None"
| "settled_read (ReadError e # rs) =
     (if e = EAGAIN \<or> e = EWOULDBLOCK then settled_read rs else Some (ReadError e, rs))"
| "settled_read (Arrive bs # rs) = Some (Arrive bs, rs)"

definition next_read :: "conn_mode \<Rightarrow> os \<Rightarrow> (arrival \<times> arrival list) option" where
  "next_read mode w =
     (if mode = NONBLOCKING then settled_read (reads w)
      else case reads w of [] \<Rightarrow> None | r # rs \<Rightarrow> Some (r, rs))"

lemma ReadOnce_loop_settled:
  "settled_read rs = Some (a, rs') \<Longrightarrow>
     ReadOnce_loop c w rs =
       Some (case sys_read (read_len c) a of
           (Inl e, rest) \<Rightarrow> Inr (False, c, w\<lparr>reads := rs'\<rparr>)
         | (Inr bytes, rest) \<Rightarrow> finish_read (Inr bytes) c (w\<lparr>reads := rest @ rs'\<rparr>))"
  by (induction rs rule: settled_read.induct) (auto split: if_splits)

lemma ReadOnce_next:
  assumes "next_read mode w = Some (a, rs)"
  shows "ReadOnce mode c w =
    Some (case sys_read (read_len c) a of
        (Inl e, rest) \<Rightarrow> if mode = NONBLOCKING then Inr (False, c, w\<lparr>reads := rs\<rparr>)
                        else finish_read (Inl e) c (w\<lparr>reads := rest @ rs\<rparr>)
      | (Inr bytes, rest) \<Rightarrow> finish_read (Inr bytes) c (w\<lparr>reads := rest @ rs\<rparr>))"
  using assms ReadOnce_loop_settled [of "reads w" a rs c w]
  by (auto simp: next_read_def ReadOnce_def split: if_splits list.splits prod.splits sum.splits)

text \<open>
  C36: \<open>ReadOnce\<close> on every branch, for a connection whose read index is inside the read buffer. When
  bytes have arrived, it asks for no more than the buffer has room for: it appends as many of them
  as fit to the bytes received, leaves the others to the next call, keeps the read index inside the
  buffer, and answers true exactly when it appended any; this holds in every mode. When the call
  fails it answers false; then the mode \<open>NONBLOCKING\<close>, which repeats calls that would block, leaves
  the connection unchanged, while the other modes decrement the read index.
\<close>

theorem ReadOnce_appends:
  assumes "conn_ok c" and "next_read mode w = Some (a, rs)"
  shows "case a of
      Arrive bs \<Rightarrow> \<exists>c'. ReadOnce mode c w = Some (Inr (take (room c) bs \<noteq> [], c',
          w\<lparr>reads := (if drop (room c) bs = [] then rs else Arrive (drop (room c) bs) # rs)\<rparr>)) \<and>
        conn_ok c' \<and> received c' = received c @ take (room c) bs \<and>
        length (read_buf c') = length (read_buf c) \<and> socket_fd c' = socket_fd c
    | ReadError e \<Rightarrow> ReadOnce mode c w = Some (Inr (False,
        if mode = NONBLOCKING then c else c\<lparr>read_idx := read_idx c - 1\<rparr>, w\<lparr>reads := rs\<rparr>))"
proof (cases a)
  case (ReadError e)
  then show ?thesis
    using ReadOnce_next [OF assms(2), of c] by (simp add: finish_read_def store_read_def)
next
  case (Arrive bs)
  let ?w = "w\<lparr>reads := (if drop (room c) bs = [] then rs else Arrive (drop (room c) bs) # rs)\<rparr>"
  have "ReadOnce mode c w = Some (finish_read (Inr (take (room c) bs)) c ?w)"
    using ReadOnce_next [OF assms(2), of c] by (simp add: Arrive read_len_room [OF assms(1)])
  moreover have "length (take (room c) bs) \<le> room c"
    by simp
  then obtain c' where "finish_read (Inr (take (room c) bs)) c ?w = Inr (take (room c) bs \<noteq> [], c', ?w)"
    "conn_ok c'" "received c' = received c @ take (room c) bs" "length (read_buf c') = length (read_buf c)"
    "socket_fd c' = socket_fd c"
    by (rule finish_read_ok [OF assms(1), where w = ?w])
  ultimately show ?thesis
    by (auto simp: Arrive)
qed

theorem ReadOnce_appends_witness:
  "\<exists>c'. ReadOnce NONBLOCKING ((fresh_conn 5)\<lparr>read_buf := ''abc'' @ replicate 2 CHR 0x00, read_idx := 3\<rparr>)
       (quiet_os\<lparr>reads := [ReadError EAGAIN, Arrive ''defg'']\<rparr>) =
         Some (Inr (True, c', quiet_os\<lparr>reads := [Arrive ''fg'']\<rparr>)) \<and>
     conn_ok c' \<and> received c' = ''abcde''"
  using ReadOnce_appends [of "(fresh_conn 5)\<lparr>read_buf := ''abc'' @ replicate 2 CHR 0x00, read_idx := 3\<rparr>" NONBLOCKING
      "quiet_os\<lparr>reads := [ReadError EAGAIN, Arrive ''defg'']\<rparr>" "Arrive ''defg''" "[]"]
  by (simp add: conn_ok_def fresh_conn_def next_read_def quiet_os_def received_def room_def numeral_eq_Suc) blast

text \<open>
  C38: Outside \<open>NONBLOCKING\<close> a failing \<open>read\<close> moves the read index before the buffer of an empty
  connection: the error value is added to it. The network threads keep such a connection, and the
  next bytes that arrive for it are stored from one byte before the buffer on.
\<close>

theorem ReadOnce_failure_underflow:
  assumes "mode \<noteq> NONBLOCKING" and "read_idx c = 0" and "bytes \<noteq> []"
    and "reads w = [ReadError e, Arrive bytes]"
  shows "\<exists>c' w'. ReadOnce mode c w = Some (Inr (False, c', w')) \<and> read_idx c' = - 1 \<and>
           ReadOnce mode c' w' = Some (Inl Out_of_bounds)"
  using assms by (simp add: ReadOnce_def finish_read_def store_read_def read_len_def nat_add_distrib)

theorem ReadOnce_failure_underflow_witness:
  "\<exists>c' w'. ReadOnce NETWORKEPOLL (fresh_conn 540)
       (quiet_os\<lparr>reads := [ReadError EAGAIN, Arrive ''get'']\<rparr>) = Some (Inr (False, c', w')) \<and> read_idx c' = - 1 \<and>
     ReadOnce NETWORKEPOLL c' w' = Some (Inl Out_of_bounds)"
  by (rule ReadOnce_failure_underflow [of NETWORKEPOLL "fresh_conn 540" "''get''" _ EAGAIN])
    (simp_all add: fresh_conn_def)

section \<open>Sending a reply\<close>

text \<open>
  The answers that take a message of \<open>n\<close> bytes in any number of parts, and those that take it at
  once; both give the answers left over. An answer never says more than it was asked for.
\<close>

fun drained :: "int \<Rightarrow> (int \<times> errno) list \<Rightarrow> (int \<times> errno) list option" where
  "drained n [] = None"
| "drained n ((t, e) # ws) =
     (if t < 0 then (if e = EAGAIN \<or> e = EWOULDBLOCK then drained n ws else None)
      else if n < t then None
      else if n \<le> t then Some ws
      else drained (n - t) ws)"

fun drained_once :: "int \<Rightarrow> (int \<times> errno) list \<Rightarrow> (int \<times> errno) list option" where
  "drained_once n [] = None"
| "drained_once n ((t, e) # ws) =
     (if t < 0 then (if e = EAGAIN \<or> e = EWOULDBLOCK then drained_once n ws else None)
      else if t = n then Some ws else None)"

abbreviation to_fd :: "int \<Rightarrow> string list \<Rightarrow> (int \<times> string) list" where
  "to_fd fd chunks \<equiv> map (Pair fd) chunks"

lemma sent_some_simps [simp]:
  "bytes_to_send (sent_some t c) = bytes_to_send c - t"
  "bytes_have_send (sent_some t c) = bytes_have_send c + t"
  "write_buf (sent_some t c) = write_buf c"
  "socket_fd (sent_some t c) = socket_fd c"
  "redis_Reset (sent_some t c) = redis_Reset c"
  "Reset (sent_some t c) = Reset c"
  "writev_vec (sent_some t c) = writev_vec c"
  by (simp_all add: sent_some_def redis_Reset_def Reset_def writev_vec_def)

lemma write_vec_bytes:
  "iov_ok buf (write_vec c) \<longleftrightarrow> nat (bytes_have_send c) + nat (bytes_to_send c) \<le> length buf"
  "iov_bytes buf (write_vec c) = window (nat (bytes_have_send c)) (nat (bytes_to_send c)) buf"
  by (simp_all add: iov_ok_def iov_bytes_def write_vec_def)

lemma take_window_append:
  assumes "t \<le> n"
  shows "take t (window b n xs) @ window (b + t) (n - t) xs = window b n xs"
proof -
  have "window (b + t) (n - t) xs = drop t (window b n xs)"
    by (simp add: window_def drop_take add.commute)
  then show ?thesis by simp
qed

lemma redis_write_loop:
  assumes "drained (bytes_to_send c) ws = Some ws'" and "0 \<le> bytes_have_send c" and "0 \<le> bytes_to_send c"
    and "bytes_have_send c + bytes_to_send c \<le> int (length (write_buf c))"
  shows "\<exists>chunks. write_loop redis_Reset write_vec mode c w ws =
      Some (Inr (redis_Reset c, w\<lparr>writes := ws', sent := sent w @ to_fd (socket_fd c) chunks\<rparr>)) \<and>
    concat chunks = window (nat (bytes_have_send c)) (nat (bytes_to_send c)) (write_buf c)"
  using assms
proof (induction ws arbitrary: c w)
  case (Cons a ws)
  obtain t e where a: "a = (t, e)" by (cases a)
  let ?b = "nat (bytes_have_send c)" and ?n = "nat (bytes_to_send c)"
  let ?w = "send_bytes c (window ?b ?n (write_buf c)) t w"
  have ok: "?b + ?n \<le> length (write_buf c)"
    using Cons.prems by linarith
  consider "t < 0" | "0 \<le> t" "t = bytes_to_send c" | "0 \<le> t" "t < bytes_to_send c"
    using Cons.prems(1) by (auto simp: a split: if_splits)
  then show ?case
  proof cases
    case 1
    then show ?thesis
      using Cons.prems Cons.IH [of c w] ok by (auto simp: a write_vec_bytes split: if_splits)
  next
    case 2
    then show ?thesis
      using Cons.prems ok
      by (intro exI [of _ "[window ?b ?n (write_buf c)]"])
        (auto simp: a write_vec_bytes send_bytes_def)
  next
    case 3
    let ?c = "sent_some t c"
    have eq: "nat (bytes_have_send c + t) = ?b + nat t" "nat (bytes_to_send c - t) = ?n - nat t"
      using 3 Cons.prems by (simp_all add: nat_add_distrib nat_diff_distrib)
    obtain chunks where IH: "write_loop redis_Reset write_vec mode ?c ?w ws =
          Some (Inr (redis_Reset c, ?w\<lparr>writes := ws', sent := sent ?w @ to_fd (socket_fd c) chunks\<rparr>))"
        and cs: "concat chunks = window (?b + nat t) (?n - nat t) (write_buf c)"
      using Cons.IH [of ?c ?w] Cons.prems 3 by (auto simp: a eq)
    have "write_loop redis_Reset write_vec mode c w (a # ws) = write_loop redis_Reset write_vec mode ?c ?w ws"
      using 3 ok by (simp add: a write_vec_bytes Let_def)
    then show ?thesis
      using IH cs 3
      by (intro exI [of _ "take (nat t) (window ?b ?n (write_buf c)) # chunks"])
        (simp add: send_bytes_def take_window_append)
  qed
qed simp

lemma write_loop_once:
  assumes "drained_once (bytes_to_send c) ws = Some ws'" and "iov_ok (write_buf c) (writev_vec c)"
    and "bytes_to_send c = int (length (iov_bytes (write_buf c) (writev_vec c)))"
  shows "write_loop Reset writev_vec mode c w ws =
      Some (Inr (Reset c, w\<lparr>writes := ws', sent := sent w @ to_fd (socket_fd c) [iov_bytes (write_buf c) (writev_vec c)]\<rparr>))"
  using assms
proof (induction ws)
  case (Cons a ws)
  then show ?case
    by (cases a) (auto simp: send_bytes_def Let_def split: if_splits)
qed simp

section \<open>Replies of a batch of requests\<close>

text \<open>The answers that take one reply after the other, for the answers that take one.\<close>

fun drained_all :: "((int \<times> errno) list \<Rightarrow> (int \<times> errno) list option) \<Rightarrow> nat \<Rightarrow> (int \<times> errno) list \<Rightarrow> (int \<times> errno) list option" where
  "drained_all f 0 ws = Some ws"
| "drained_all f (Suc n) ws = (case f ws of None \<Rightarrow> None | Some ws \<Rightarrow> drained_all f n ws)"

text \<open>
  What \<open>Process\<close> relies on: preparing a reply and sending it delivers one message to the socket,
  over a script of answers that takes it and resources for it, and leaves a connection that can
  reply again.
\<close>

locale reply_sender =
  fixes prepare :: "TCPConn \<times> os \<Rightarrow> (TCPConn \<times> os) cres option"
    and send :: "TCPConn \<Rightarrow> os \<Rightarrow> (TCPConn \<times> os) cres option"
    and answers :: "(int \<times> errno) list \<Rightarrow> (int \<times> errno) list option"
    and msg :: string
    and good :: "TCPConn \<Rightarrow> bool"
    and avail :: "nat \<Rightarrow> os \<Rightarrow> bool"
  assumes one_reply: "good c \<Longrightarrow> avail (Suc n) w \<Longrightarrow> answers (writes w) = Some ws \<Longrightarrow>
    \<exists>c1 w1 c2 w2 chunks. prepare (c, w) = Some (Inr (c1, w1)) \<and> send c1 w1 = Some (Inr (c2, w2)) \<and>
      good c2 \<and> avail n w2 \<and> socket_fd c2 = socket_fd c \<and> read_idx c2 = 0 \<and> writes w2 = ws \<and>
      sent w2 = sent w @ to_fd (socket_fd c) chunks \<and> concat chunks = msg"
begin

lemma all_replies:
  assumes "good c" and "avail n w" and "drained_all answers n (writes w) = Some ws"
  shows "\<exists>c' w' chunks. process_loop prepare send n c w r = Some (Inr (c', w', r + of_nat n)) \<and>
    good c' \<and> socket_fd c' = socket_fd c \<and> (0 < n \<longrightarrow> read_idx c' = 0) \<and> writes w' = ws \<and>
    sent w' = sent w @ to_fd (socket_fd c) chunks \<and> concat chunks = concat (replicate n msg)"
  using assms
proof (induction n arbitrary: c w r)
  case 0
  then show ?case
    by (auto intro: exI [of _ "[]"])
next
  case (Suc n)
  then obtain us where us: "answers (writes w) = Some us" "drained_all answers n us = Some ws"
    by (auto split: option.splits)
  obtain c1 w1 c2 w2 chunks where one: "prepare (c, w) = Some (Inr (c1, w1))" "send c1 w1 = Some (Inr (c2, w2))"
      "good c2" "avail n w2" "socket_fd c2 = socket_fd c" "read_idx c2 = 0" "writes w2 = us"
      "sent w2 = sent w @ to_fd (socket_fd c) chunks" "concat chunks = msg"
    using one_reply [OF Suc.prems(1,2) us(1)] by blast
  obtain c' w' chunks' where rest: "process_loop prepare send n c2 w2 (r + 1) = Some (Inr (c', w', r + 1 + of_nat n))"
      "good c'" "socket_fd c' = socket_fd c2" "0 < n \<longrightarrow> read_idx c' = 0" "writes w' = ws"
      "sent w' = sent w2 @ to_fd (socket_fd c2) chunks'" "concat chunks' = concat (replicate n msg)"
    using Suc.IH [OF one(3,4), of "r + 1"] us(2) one(7) by auto
  have "read_idx c' = 0"
    using rest(1,4) one(6) by (cases n) auto
  then show ?case
    using one rest
    by (intro exI [of _ c'] exI [of _ w'] exI [of _ "chunks @ chunks'"]) (simp add: add.assoc)
qed

end

text \<open>The answers that take a message of \<open>n\<close> bytes from the \<open>WriteOnce\<close> that names it by \<open>iv_\<close>.\<close>

definition taken_whole :: "conn_mode \<Rightarrow> int \<Rightarrow> (int \<times> errno) list \<Rightarrow> (int \<times> errno) list option" where
  "taken_whole mode n ws =
     (if mode = BLOCKING then (case ws of (t, e) # ws' \<Rightarrow> if t = n then Some ws' else None | [] \<Rightarrow> None)
      else drained_once n ws)"

definition taken_parts :: "conn_mode \<Rightarrow> int \<Rightarrow> (int \<times> errno) list \<Rightarrow> (int \<times> errno) list option" where
  "taken_parts mode n ws = (if mode = BLOCKING then None else drained n ws)"

lemma WriteOnce_taken_whole:
  assumes "taken_whole mode (bytes_to_send c) (writes w) = Some ws" and "iov_ok (write_buf c) (writev_vec c)"
    and "bytes_to_send c = int (length (iov_bytes (write_buf c) (writev_vec c)))"
  shows "WriteOnce mode c w =
      Some (Inr (Reset c, w\<lparr>writes := ws, sent := sent w @ to_fd (socket_fd c) [iov_bytes (write_buf c) (writev_vec c)]\<rparr>))"
proof (cases "mode = BLOCKING")
  case True
  then show ?thesis
    using assms by (auto simp: WriteOnce_def WriteOnce_blocking_def taken_whole_def send_bytes_def Let_def
        split: list.splits if_splits)
next
  case False
  then show ?thesis
    using write_loop_once [OF _ assms(2,3)] assms(1) by (simp add: WriteOnce_def taken_whole_def)
qed

lemma length_reply_text: "length reply_text = 40"
  by (simp add: reply_text_def)

lemma skeleton_one_reply:
  assumes "40 \<le> length (write_buf c)" and "taken_whole mode 40 (writes w) = Some ws"
  shows "\<exists>c1 c2. prepare_reply (c, w) = Some (Inr (c1, w)) \<and>
    WriteOnce mode c1 w = Some (Inr (c2, w\<lparr>writes := ws, sent := sent w @ [(socket_fd c, reply_text)]\<rparr>)) \<and>
    socket_fd c2 = socket_fd c \<and> read_idx c2 = 0 \<and> length (write_buf c2) = length (write_buf c) \<and>
    length (read_buf c2) = length (read_buf c)"
proof -
  let ?c = "c\<lparr>write_buf := splice_at 0 reply_text (write_buf c), write_idx := int (length reply_text), iv := [(0, length reply_text)],
        iv_count := 1, bytes_to_send := int (length reply_text)\<rparr>"
  have bytes: "iov_bytes (write_buf ?c) (writev_vec ?c) = reply_text"
    using assms(1) by (simp add: iov_bytes_def writev_vec_def put_bytes_def window_splice_at_same length_reply_text)
  have "iov_ok (write_buf ?c) (writev_vec ?c)"
    using assms(1) by (simp add: iov_ok_def writev_vec_def put_bytes_def length_splice_at length_reply_text)
  then have "WriteOnce mode ?c w =
      Some (Inr (Reset ?c, w\<lparr>writes := ws, sent := sent w @ to_fd (socket_fd ?c) [reply_text]\<rparr>))"
    using WriteOnce_taken_whole [of mode ?c w ws] assms(2) bytes by (simp add: length_reply_text)
  then show ?thesis
    using assms(1) by (intro exI [of _ ?c] exI [of _ "Reset ?c"])
      (simp add: prepare_reply_def Reset_def put_bytes_def length_splice_at length_reply_text)
qed

interpretation skeleton: reply_sender prepare_reply "WriteOnce mode" "taken_whole mode 40" reply_text
  "\<lambda>c. 40 \<le> length (write_buf c)" "\<lambda>n w. True" for mode
proof unfold_locales
  fix c :: TCPConn and w :: os and ws and n :: nat
  assume *: "40 \<le> length (write_buf c)" "taken_whole mode 40 (writes w) = Some ws"
  obtain c1 c2 where "prepare_reply (c, w) = Some (Inr (c1, w))"
      "WriteOnce mode c1 w = Some (Inr (c2, w\<lparr>writes := ws, sent := sent w @ [(socket_fd c, reply_text)]\<rparr>))"
      "socket_fd c2 = socket_fd c" "read_idx c2 = 0" "length (write_buf c2) = length (write_buf c)"
    using skeleton_one_reply [OF *] by blast
  then show "\<exists>c1 w1 c2 w2 chunks. prepare_reply (c, w) = Some (Inr (c1, w1)) \<and> WriteOnce mode c1 w1 = Some (Inr (c2, w2)) \<and>
      40 \<le> length (write_buf c2) \<and> True \<and> socket_fd c2 = socket_fd c \<and> read_idx c2 = 0 \<and> writes w2 = ws \<and>
      sent w2 = sent w @ to_fd (socket_fd c) chunks \<and> concat chunks = reply_text"
    using *(1) by (intro exI [of _ c1] exI [of _ w] exI [of _ c2]
        exI [of _ "w\<lparr>writes := ws, sent := sent w @ [(socket_fd c, reply_text)]\<rparr>"] exI [of _ "[reply_text]"]) simp
qed

text \<open>
  The server for redis sends its buffer as it is, with the marks of a reply in it; the bytes
  between them are those the buffer had, the same for every reply.
\<close>

definition redis_buf :: "string \<Rightarrow> string" where
  "redis_buf buf = (splice_at 0 ''reply'' buf)[1204 := CHR 0x0A]"

definition redis_good :: "string \<Rightarrow> TCPConn \<Rightarrow> bool" where
  "redis_good msg c \<longleftrightarrow> 1205 \<le> length (write_buf c) \<and> bytes_have_send c = 0 \<and>
     take 1205 (redis_buf (write_buf c)) = msg"

lemma splice_at_single: "i < length xs \<Longrightarrow> splice_at i [x] xs = xs[i := x]"
  by (simp add: splice_at_def upd_conv_take_nth_drop)

lemma redis_buf_simps:
  assumes "1205 \<le> length buf"
  shows "length (redis_buf buf) = length buf" and "redis_buf (redis_buf buf) = redis_buf buf"
proof -
  show "length (redis_buf buf) = length buf"
    using assms by (simp add: redis_buf_def length_splice_at)
  show "redis_buf (redis_buf buf) = redis_buf buf"
    using assms by (simp add: redis_buf_def splice_at_def drop_update_swap list_update_append)
qed

lemma redis_one_reply:
  assumes "redis_good msg c" and "taken_parts mode 1205 (writes w) = Some ws"
  shows "\<exists>c1 c2 chunks. redis_prepare (c, w) = Some (Inr (c1, w)) \<and>
    redis_WriteOnce mode c1 w = Some (Inr (c2, w\<lparr>writes := ws, sent := sent w @ to_fd (socket_fd c) chunks\<rparr>)) \<and>
    redis_good msg c2 \<and> socket_fd c2 = socket_fd c \<and> read_idx c2 = 0 \<and> concat chunks = msg"
proof -
  let ?c = "c\<lparr>write_idx := 1205, write_buf := redis_buf (write_buf c), bytes_to_send := 1205\<rparr>"
  have len: "1205 \<le> length (write_buf c)" and have0: "bytes_have_send c = 0"
    and msg: "take 1205 (redis_buf (write_buf c)) = msg"
    using assms(1) by (simp_all add: redis_good_def)
  obtain chunks where "write_loop redis_Reset write_vec mode ?c w (writes w) =
      Some (Inr (redis_Reset ?c, w\<lparr>writes := ws, sent := sent w @ to_fd (socket_fd c) chunks\<rparr>))"
    and "concat chunks = msg"
    using redis_write_loop [of ?c "writes w" ws mode w] assms(2) len have0 msg
    by (auto simp: taken_parts_def redis_buf_simps window_def split: if_splits)
  moreover have "redis_prepare (c, w) = Some (Inr (?c, w))"
    using len by (simp add: redis_prepare_def put_bytes_def redis_buf_def length_splice_at splice_at_single)
  moreover have "redis_good msg (redis_Reset ?c)"
    using len msg by (simp add: redis_good_def redis_Reset_def redis_buf_simps)
  ultimately show ?thesis
    using assms(2)
    by (intro exI [of _ ?c] exI [of _ "redis_Reset ?c"] exI [of _ chunks])
      (simp add: redis_WriteOnce_def taken_parts_def redis_Reset_def split: if_splits)
qed

interpretation redis: reply_sender redis_prepare "redis_WriteOnce mode" "taken_parts mode 1205" msg
  "redis_good msg" "\<lambda>n w. True" for mode msg
proof unfold_locales
  fix c :: TCPConn and w :: os and ws and n :: nat
  assume "redis_good msg c" and "taken_parts mode 1205 (writes w) = Some ws"
  from redis_one_reply [OF this] show "\<exists>c1 w1 c2 w2 chunks. redis_prepare (c, w) = Some (Inr (c1, w1)) \<and>
      redis_WriteOnce mode c1 w1 = Some (Inr (c2, w2)) \<and> redis_good msg c2 \<and> True \<and>
      socket_fd c2 = socket_fd c \<and> read_idx c2 = 0 \<and> writes w2 = ws \<and>
      sent w2 = sent w @ to_fd (socket_fd c) chunks \<and> concat chunks = msg"
    by fastforce
qed

text \<open>The reply of the server for nginx, from a buffer that \<open>Reset\<close> cleared.\<close>

definition nginx_reply :: string where
  "nginx_reply = ''reply'' @ replicate 845 CHR 0x00"

definition nginx_good :: "TCPConn \<Rightarrow> bool" where
  "nginx_good c \<longleftrightarrow> write_buf c = replicate 2048 CHR 0x00"

lemma nginx_one_reply:
  assumes "nginx_good c" and "Suc n \<le> length (opens w)" and "taken_whole mode 850 (writes w) = Some ws"
  shows "\<exists>c1 w1 c2 w2. nginx_prepare (c, w) = Some (Inr (c1, w1)) \<and> WriteOnce mode c1 w1 = Some (Inr (c2, w2)) \<and>
    nginx_good c2 \<and> n \<le> length (opens w2) \<and> socket_fd c2 = socket_fd c \<and> read_idx c2 = 0 \<and> writes w2 = ws \<and>
    sent w2 = sent w @ to_fd (socket_fd c) [nginx_reply]"
proof -
  let ?c = "c\<lparr>write_idx := 238, write_buf := splice_at 0 ''reply'' (write_buf c),
          iv := [(0, 238), (238, 612)], iv_count := 2, bytes_to_send := 850\<rparr>"
  obtain fd fds where fds: "opens w = fd # fds"
    using assms(2) by (cases "opens w") auto
  obtain w1 where w1: "nginx_file_ops (log_fd c) w = Some w1" "writes w1 = writes w" "sent w1 = sent w" "opens w1 = fds"
    using fds by (simp add: nginx_file_ops_def open_file_def do_op_def)
  have buf: "write_buf ?c = ''reply'' @ replicate 2043 CHR 0x00"
    using assms(1) by (simp add: put_bytes_def nginx_good_def splice_at_def)
  have bytes: "iov_bytes (write_buf ?c) (writev_vec ?c) = nginx_reply"
    unfolding buf by (simp add: iov_bytes_def writev_vec_def window_def nginx_reply_def numeral_eq_Suc
        flip: replicate_add)
  have "iov_ok (write_buf ?c) (writev_vec ?c)"
    unfolding buf by (simp add: iov_ok_def writev_vec_def)
  then have "WriteOnce mode ?c w1 =
      Some (Inr (Reset ?c, w1\<lparr>writes := ws, sent := sent w1 @ to_fd (socket_fd ?c) [nginx_reply]\<rparr>))"
    using WriteOnce_taken_whole [of mode ?c w1 ws] assms(3) bytes w1(2) by (simp add: nginx_reply_def)
  then show ?thesis
    using w1 fds assms(1,2)
    by (intro exI [of _ ?c] exI [of _ w1] exI [of _ "Reset ?c"]
        exI [of _ "w1\<lparr>writes := ws, sent := sent w1 @ to_fd (socket_fd ?c) [nginx_reply]\<rparr>"])
      (simp add: nginx_prepare_def nginx_good_def Reset_def put_bytes_def length_splice_at)
qed

interpretation nginx: reply_sender nginx_prepare "WriteOnce mode" "taken_whole mode 850" nginx_reply
  nginx_good "\<lambda>n w. n \<le> length (opens w)" for mode
proof unfold_locales
  fix c :: TCPConn and w :: os and ws and n :: nat
  assume "nginx_good c" and "Suc n \<le> length (opens w)" and "taken_whole mode 850 (writes w) = Some ws"
  from nginx_one_reply [OF this] show "\<exists>c1 w1 c2 w2 chunks. nginx_prepare (c, w) = Some (Inr (c1, w1)) \<and>
      WriteOnce mode c1 w1 = Some (Inr (c2, w2)) \<and> nginx_good c2 \<and> n \<le> length (opens w2) \<and>
      socket_fd c2 = socket_fd c \<and> read_idx c2 = 0 \<and> writes w2 = ws \<and>
      sent w2 = sent w @ to_fd (socket_fd c) chunks \<and> concat chunks = nginx_reply"
    by (metis concat.simps append_Nil2)
qed

section \<open>Properties of the servers\<close>

text \<open>
  C7: The server for redis answers every line it received with one whole reply of 1205 bytes, in
  order and without a byte lost or repeated, however the kernel splits the replies over partial
  writes and calls that would block; it counts the requests and is ready to read again.
\<close>

theorem redis_Process_delivers:
  assumes "1205 \<le> length (write_buf c)" and "bytes_have_send c = 0" and "mode \<noteq> BLOCKING"
    and "n = length (filter (\<lambda>ch. ch = CHR 0x0A) (received c))"
    and "drained_all (drained 1205) n (writes w) = Some ws"
  shows "\<exists>c' w' chunks. redis_Process mode c w r = Some (Inr (c', w', r + of_nat n)) \<and>
    (0 < n \<longrightarrow> read_idx c' = 0) \<and> writes w' = ws \<and>
    sent w' = sent w @ to_fd (socket_fd c) chunks \<and>
    concat chunks = concat (replicate n (take 1205 (redis_buf (write_buf c))))"
proof -
  let ?msg = "take 1205 (redis_buf (write_buf c))"
  have "taken_parts mode 1205 = drained 1205"
    using assms(3) by (auto simp: taken_parts_def)
  then have "\<exists>c' w' chunks. process_loop redis_prepare (redis_WriteOnce mode) n c w r =
      Some (Inr (c', w', r + of_nat n)) \<and> redis_good ?msg c' \<and> socket_fd c' = socket_fd c \<and>
      (0 < n \<longrightarrow> read_idx c' = 0) \<and> writes w' = ws \<and>
      sent w' = sent w @ to_fd (socket_fd c) chunks \<and> concat chunks = concat (replicate n ?msg)"
    using redis.all_replies [where msg = ?msg and mode = mode and c = c and n = n and w = w and ws = ws and r = r] assms by (simp add: redis_good_def)
  moreover have "nat (newline_ParseMultiRequest c) = n"
    using assms(4) by (simp add: newline_ParseMultiRequest_def received_def)
  ultimately show ?thesis
    unfolding redis_Process_def by auto
qed

theorem redis_Process_delivers_witness:
  "\<exists>c' w' chunks. redis_Process NONBLOCKING
       ((fresh_conn 20480)\<lparr>read_buf := CHR ''a'' # CHR 0x0A # replicate 20478 CHR 0x00, read_idx := 2\<rparr>)
       (quiet_os\<lparr>writes := [(500, EINTR), (- 1, EAGAIN), (705, EINTR)]\<rparr>) 0 = Some (Inr (c', w', 1)) \<and>
    sent w' = to_fd 7 chunks \<and> concat chunks = take 1205 (redis_buf (replicate 20480 CHR 0x00))"
  using redis_Process_delivers [of
      "(fresh_conn 20480)\<lparr>read_buf := CHR ''a'' # CHR 0x0A # replicate 20478 CHR 0x00, read_idx := 2\<rparr>"
      NONBLOCKING 1 "quiet_os\<lparr>writes := [(500, EINTR), (- 1, EAGAIN), (705, EINTR)]\<rparr>" "[]" 0]
  by (fastforce simp: fresh_conn_def quiet_os_def received_def)

text \<open>
  The server for nginx answers every line it received with one reply of 850 bytes when the
  kernel takes each reply at once, in every mode, after its file accesses of that request.
\<close>

theorem nginx_Process_delivers:
  assumes "nginx_good c" and "n = length (filter (\<lambda>ch. ch = CHR 0x0A) (received c))"
    and "n \<le> length (opens w)" and "drained_all (taken_whole mode 850) n (writes w) = Some ws"
  shows "\<exists>c' w' chunks. nginx_Process mode c w r = Some (Inr (c', w', r + of_nat n)) \<and> nginx_good c' \<and>
    sent w' = sent w @ to_fd (socket_fd c) chunks \<and> concat chunks = concat (replicate n nginx_reply)"
proof -
  have "nat (newline_ParseMultiRequest c) = n"
    using assms(2) by (simp add: newline_ParseMultiRequest_def received_def)
  then show ?thesis
    using nginx.all_replies [OF assms(1,3,4), of r] unfolding nginx_Process_def by auto
qed

theorem nginx_Process_delivers_witness:
  "\<exists>c' w' chunks. nginx_Process BLOCKING
       ((fresh_conn 2048)\<lparr>read_buf := CHR 0x0A # replicate 2047 CHR 0x00, read_idx := 1\<rparr>)
       (quiet_os\<lparr>writes := [(850, EINTR)], opens := [9]\<rparr>) 3 = Some (Inr (c', w', 4)) \<and> nginx_good c' \<and>
    sent w' = to_fd 7 chunks \<and> concat chunks = nginx_reply"
  using nginx_Process_delivers [of
      "(fresh_conn 2048)\<lparr>read_buf := CHR 0x0A # replicate 2047 CHR 0x00, read_idx := 1\<rparr>"
      1 "quiet_os\<lparr>writes := [(850, EINTR)], opens := [9]\<rparr>" BLOCKING "[]" 3]
  by (fastforce simp: fresh_conn_def quiet_os_def received_def taken_whole_def nginx_good_def)

lemma reply_text_no_overlap:
  assumes "0 < k" and "k < 40"
  shows "take k reply_text @ take (40 - k) reply_text \<noteq> reply_text"
proof
  assume eq: "take k reply_text @ take (40 - k) reply_text = reply_text"
  have "reply_text ! 39 = (take k reply_text @ take (40 - k) reply_text) ! 39"
    using eq by simp
  also have "\<dots> = reply_text ! (39 - k)"
    using assms by (simp add: nth_append length_reply_text)
  finally have "reply_text ! (39 - k) = CHR 0x0A"
    by (simp add: reply_text_def)
  moreover have "\<forall>i<39. reply_text ! i \<noteq> CHR 0x0A"
    by (simp add: reply_text_def numeral_eq_Suc All_less_Suc)
  ultimately show False
    using assms by auto
qed

text \<open>
  C39: The skeleton replies with its text and nothing else when the kernel takes the reply at once,
  but when the kernel takes only a part of it, the loop sends the text from its start again: what
  the client gets has the right length and is not the reply.
\<close>

theorem skeleton_partial_write_repeats:
  assumes "40 \<le> length (write_buf c)" and "mode \<noteq> BLOCKING" and "0 < k" and "k < 40"
    and "writes w = [(int k, e), (40 - int k, e')]" and "sent w = []"
  shows "\<exists>c' w'. Process mode c w r = Some (Inr (c', w', r + 1)) \<and>
    concat (map snd (sent w')) = take k reply_text @ take (40 - k) reply_text \<and>
    concat (map snd (sent w')) \<noteq> reply_text"
proof -
  let ?c = "c\<lparr>write_buf := splice_at 0 reply_text (write_buf c), write_idx := int (length reply_text), iv := [(0, length reply_text)],
        iv_count := 1, bytes_to_send := int (length reply_text)\<rparr>"
  have buf: "iov_ok (write_buf ?c) (writev_vec ?c)" "iov_bytes (write_buf ?c) (writev_vec ?c) = reply_text"
    using assms(1) by (simp_all add: iov_ok_def iov_bytes_def writev_vec_def put_bytes_def length_splice_at
        window_splice_at_same length_reply_text)
  have "WriteOnce mode ?c w = Some (Inr (Reset ?c, w\<lparr>writes := [],
      sent := [(socket_fd c, take k reply_text), (socket_fd c, take (40 - k) reply_text)]\<rparr>))"
    using assms buf
    by (simp add: WriteOnce_def Let_def send_bytes_def length_reply_text nat_diff_distrib)
  then have "Process mode c w r = Some (Inr (Reset ?c, w\<lparr>writes := [],
      sent := [(socket_fd c, take k reply_text), (socket_fd c, take (40 - k) reply_text)]\<rparr>, r + 1))"
    using assms(1) by (simp add: Process_def ParseMultiRequest_def prepare_reply_def put_bytes_def length_reply_text)
  then show ?thesis
    using reply_text_no_overlap [OF assms(3,4)] by simp
qed

theorem skeleton_partial_write_repeats_witness:
  "\<exists>c' w'. Process NETWORKEPOLL (fresh_conn 540) (quiet_os\<lparr>writes := [(10, EINTR), (30, EINTR)]\<rparr>) 0 =
       Some (Inr (c', w', 1)) \<and> concat (map snd (sent w')) \<noteq> reply_text"
  using skeleton_partial_write_repeats [of "fresh_conn 540" NETWORKEPOLL 10
      "quiet_os\<lparr>writes := [(10, EINTR), (30, EINTR)]\<rparr>" EINTR EINTR 0]
  by (auto simp: fresh_conn_def quiet_os_def)

text \<open>
  The skeleton answers a request with exactly its text, in every mode, when the kernel takes the
  text at once, also after calls that would block.
\<close>

theorem skeleton_Process_delivers:
  assumes "40 \<le> length (write_buf c)" and "taken_whole mode 40 (writes w) = Some ws"
  shows "\<exists>c' w' chunks. Process mode c w r = Some (Inr (c', w', r + 1)) \<and> read_idx c' = 0 \<and> writes w' = ws \<and>
    sent w' = sent w @ to_fd (socket_fd c) chunks \<and> concat chunks = reply_text"
proof -
  have "drained_all (taken_whole mode 40) 1 (writes w) = Some ws"
    using assms(2) by simp
  from skeleton.all_replies [OF assms(1) TrueI this, of r] show ?thesis
    by (auto simp: Process_def ParseMultiRequest_def)
qed

theorem skeleton_Process_delivers_witness:
  "\<exists>c' w' chunks. Process NETWORKEPOLL (fresh_conn 540) (quiet_os\<lparr>writes := [(- 1, EAGAIN), (40, EINTR)]\<rparr>) 0 =
       Some (Inr (c', w', 1)) \<and> sent w' = to_fd 7 chunks \<and> concat chunks = reply_text"
  using skeleton_Process_delivers [of "fresh_conn 540" NETWORKEPOLL
      "quiet_os\<lparr>writes := [(- 1, EAGAIN), (40, EINTR)]\<rparr>" "[]" 0]
  by (auto simp: fresh_conn_def quiet_os_def taken_whole_def)

text \<open>
  The server for memcached names 4124 bytes of a write buffer of 540 bytes for each reply: as
  soon as one request of 54 bytes is complete, the first send reaches outside the buffer.
\<close>

theorem memcached_Process_overread:
  assumes "length (write_buf c) = 540" and "54 \<le> read_idx c" and "writes w \<noteq> []"
  shows "memcached_Process mode c w r = Some (Inl Out_of_bounds)"
proof -
  let ?c = "c\<lparr>write_buf := splice_at 0 ''reply'' (write_buf c), iv := [(0, 24), (24, 4), (28, 4096)], iv_count := 3, bytes_to_send := 4124\<rparr>"
  have "\<not> iov_ok (write_buf ?c) (writev_vec ?c)"
    using assms(1) by (simp add: iov_ok_def writev_vec_def put_bytes_def length_splice_at)
  then have "memcached_WriteOnce mode ?c w = Some (Inl Out_of_bounds)"
    using assms(3) by (cases "writes w") (auto simp: memcached_WriteOnce_def WriteOnce_blocking_def)
  moreover obtain n where "nat (memcached_ParseMultiRequest c) = Suc n"
  proof -
    have "0 < memcached_ParseMultiRequest c"
      using assms(2) by (simp add: memcached_ParseMultiRequest_def signed_divide_int_def)
    then show ?thesis
      using that by (cases "nat (memcached_ParseMultiRequest c)") auto
  qed
  ultimately show ?thesis
    using assms(1) by (simp add: memcached_Process_def memcached_prepare_def put_bytes_def)
qed

theorem memcached_Process_overread_witness:
  "memcached_Process NETWORKEPOLL ((fresh_conn 540)\<lparr>read_idx := 54\<rparr>) (quiet_os\<lparr>writes := [(4124, EINTR)]\<rparr>) 0 =
     Some (Inl Out_of_bounds)"
  by (rule memcached_Process_overread) (simp_all add: fresh_conn_def)

text \<open>
  The code of the memcached server that moves its three parts after a partial send is right
  while the send ends inside the first part, and wrong once it reaches the second or the third: it
  clears the lengths of the parts sent before it subtracts them, so the second part keeps a wrong
  length, and the third starts too far on.
\<close>

theorem advance_iov_ok_only_in_first:
  assumes "0 < l0" and "l0 + l1 < 2 ^ 31" and "b0 + l0 \<le> length buf" and "0 \<le> t"
  shows "if nat t < l0 then
       iov_bytes buf (advance_iov t [(b0, l0), (b1, l1), (b2, l2)]) =
         drop (nat t) (iov_bytes buf [(b0, l0), (b1, l1), (b2, l2)])
     else if nat t \<le> l0 + l1 then
       snd (advance_iov t [(b0, l0), (b1, l1), (b2, l2)] ! 1) \<noteq> l0 + l1 - nat t
     else fst (advance_iov t [(b0, l0), (b1, l1), (b2, l2)] ! 2) \<noteq> b2 + (nat t - (l0 + l1))"
proof (cases "nat t < l0")
  case True
  then show ?thesis
    using assms by (simp add: advance_iov_def iov_bytes_def window_def drop_take add.commute Let_def)
next
  case False
  have "(2 ^ 64 + l1 - nat t) mod 2 ^ 64 \<noteq> l0 + l1 - nat t" if "nat t \<le> l0 + l1"
  proof (cases "nat t \<le> l1")
    case True
    then have "(2 ^ 64 + l1 - nat t) mod 2 ^ 64 = l1 - nat t"
      using assms(2) by (simp only: Nat.diff_add_assoc mod_add_self1) simp
    then show ?thesis using True assms(1) by linarith
  qed (use assms(2) that in simp)
  moreover have "b2 + nat t \<noteq> b2 + (nat t - (l0 + l1))" if "l0 + l1 < nat t"
    using that assms(1) by linarith
  ultimately show ?thesis
    using False by (simp add: advance_iov_def Let_def)
qed

theorem advance_iov_ok_only_in_first_witness:
  "snd (advance_iov 26 [(0, 24), (24, 4), (28, 4096)] ! 1) \<noteq> 2"
  using advance_iov_ok_only_in_first [of 24 4 0 "replicate 4124 CHR 0x00" 26 24 28 4096] by simp

end
