(* ===== verification/Server.thy ===== *)
theory Server
  imports TCPConn "HOL-Library.Multiset"
begin

text \<open>
  The synthetic server around its connections: the memory for pointer chasing of \<open>Service::Init\<close>,
  \<open>handleNetwork\<close> and \<open>handleNewConn\<close> of \<open>utils.cpp\<close>, the network and accept threads of
  \<open>threadpool.h\<close>, the event loop and the set-up of \<open>service.cpp\<close>, and the options of
  \<open>config.cpp\<close>. The results of \<open>epoll_wait\<close> are a script, as are those of \<open>accept\<close>.
\<close>

section \<open>Memory for pointer chasing\<close>

text \<open>
  An address of an element of the shared array is its index; an element not yet written is \<open>None\<close>.
  The shift of the source stays far below the width of its type for the 23 levels. The engine of
  \<open>std::shuffle\<close> is built from the same seed at every level, so one function stands for it.
\<close>

definition level_end :: "nat \<Rightarrow> nat" where
  "level_end i = push_bit i 64 div 8"

fun fill_mem :: "nat \<Rightarrow> nat list \<Rightarrow> nat option list \<Rightarrow> nat option list cres" where
  "fill_mem j [] mem = Inr mem"
| "fill_mem j (v # vs) mem =
     (if j < length mem then fill_mem (j + 1) vs (mem[j := Some v]) else Inl Out_of_bounds)"

fun init_levels ::
  "(nat list \<Rightarrow> nat list) \<Rightarrow> nat \<Rightarrow> nat \<Rightarrow> nat \<Rightarrow> nat option list \<Rightarrow> nat option list cres" where
  "init_levels shuffle 0 i begin mem = Inr mem"
| "init_levels shuffle (Suc k) i begin mem =
     cbind (fill_mem begin (shuffle [begin..<level_end i]) mem) (\<lambda>mem.
     init_levels shuffle k (i + 1) (level_end i) mem)"

definition mem_words :: nat where
  "mem_words = 256 * 1024 * 1024 div 8"

definition init_mem :: "(nat list \<Rightarrow> nat list) \<Rightarrow> nat option list cres" where
  "init_mem shuffle = init_levels shuffle 23 0 0 (replicate mem_words None)"

text \<open>The start addresses that a thread gives to the work of a request, one per level.\<close>

fun addr_slots :: "nat \<Rightarrow> nat \<Rightarrow> nat \<Rightarrow> nat list" where
  "addr_slots 0 i curr_idx = []"
| "addr_slots (Suc k) i curr_idx = curr_idx # addr_slots k (i + 1) (level_end i)"

definition curr_mem_addrs :: "nat list" where
  "curr_mem_addrs = addr_slots 23 0 0"

text \<open>Following the pointers.\<close>

fun chase :: "nat option list \<Rightarrow> nat \<Rightarrow> nat \<Rightarrow> nat option" where
  "chase mem 0 a = Some a"
| "chase mem (Suc n) a =
     (if a < length mem then (case mem ! a of None \<Rightarrow> None | Some b \<Rightarrow> chase mem n b) else None)"

section \<open>Connections of the server\<close>

record server =
  conns :: "int \<Rightarrow> TCPConn"
  world :: os
  accepts :: "int list"
  network_epoll_fds :: "int list"
  request_id :: ULong
  spawned :: "int list"

definition MAX_FD :: int where
  "MAX_FD = 65536"

definition handleNewConn :: "conn_mode \<Rightarrow> int \<Rightarrow> server \<Rightarrow> server cres option" where
  "handleNewConn mode epfd sv =
     (case accepts sv of
        [] \<Rightarrow> None
      | connfd # rest \<Rightarrow>
          let sv = sv\<lparr>accepts := rest, world := do_op (SetNoDelay connfd) (world sv)\<rparr> in
          if connfd < 0 then Some (Inr sv)
          else if connfd \<ge> MAX_FD then Some (Inl Out_of_bounds)
          else
            let (c, w) = Init mode epfd connfd (conns sv connfd, world sv);
                sv = sv\<lparr>conns := (conns sv)(connfd := c), world := w\<rparr>
            in Some (Inr (if mode = NETWORKEPOLL then sv else sv\<lparr>spawned := spawned sv @ [connfd]\<rparr>)))"

text \<open>The loop of a thread of its own for one connection; it ends when a read gives no bytes.\<close>

partial_function (option) handleNetwork_loop ::
  "conn_mode \<Rightarrow> TCPConn \<Rightarrow> os \<Rightarrow> ULong \<Rightarrow> (TCPConn \<times> os) cres option" where
  "handleNetwork_loop mode c w r =
     (case ReadOnce mode c w of
        None \<Rightarrow> None
      | Some (Inl e) \<Rightarrow> Some (Inl e)
      | Some (Inr (got, c, w)) \<Rightarrow>
          if got then
            (case Process mode c w r of
               None \<Rightarrow> None
             | Some (Inl e) \<Rightarrow> Some (Inl e)
             | Some (Inr (c, w, r)) \<Rightarrow> handleNetwork_loop mode c w r)
          else Some (Inr (c, w)))"

definition handleNetwork :: "conn_mode \<Rightarrow> int \<Rightarrow> TCPConn \<Rightarrow> os \<Rightarrow> (TCPConn \<times> os) cres option" where
  "handleNetwork mode connfd c w =
     (case handleNetwork_loop mode c w 0 of
        None \<Rightarrow> None
      | Some (Inl e) \<Rightarrow> Some (Inl e)
      | Some (Inr (c, w)) \<Rightarrow> Some (Inr (c, do_op (CloseFd connfd) w)))"

section \<open>Event loops\<close>

text \<open>An event: its descriptor, whether it reports a hang-up or an error, and whether input.\<close>

type_synonym event = "int \<times> bool \<times> bool"

definition handle_event :: "conn_mode \<Rightarrow> int \<Rightarrow> event \<Rightarrow> server \<Rightarrow> server cres option" where
  "handle_event mode epfd ev sv =
     (let (fd, hup, inp) = ev in
      if hup then Some (Inr (sv\<lparr>world := do_op (CloseFd fd) (do_op (EpollDel epfd fd) (world sv))\<rparr>))
      else if inp then
        (if fd < 0 \<or> fd \<ge> MAX_FD then Some (Inl Out_of_bounds)
         else case ReadOnce mode (conns sv fd) (world sv) of
             None \<Rightarrow> None
           | Some (Inl e) \<Rightarrow> Some (Inl e)
           | Some (Inr (got, c, w)) \<Rightarrow>
               if got then
                 (case Process mode c w (request_id sv) of
                    None \<Rightarrow> None
                  | Some (Inl e) \<Rightarrow> Some (Inl e)
                  | Some (Inr (c, w, r)) \<Rightarrow>
                      Some (Inr (sv\<lparr>conns := (conns sv)(fd := c), world := w, request_id := r\<rparr>)))
               else Some (Inr (sv\<lparr>conns := (conns sv)(fd := c), world := w\<rparr>)))
      else Some (Inr sv))"

fun handle_events :: "conn_mode \<Rightarrow> int \<Rightarrow> event list \<Rightarrow> server \<Rightarrow> server cres option" where
  "handle_events mode epfd [] sv = Some (Inr sv)"
| "handle_events mode epfd (ev # evs) sv =
     (case handle_event mode epfd ev sv of
        None \<Rightarrow> None
      | Some (Inl e) \<Rightarrow> Some (Inl e)
      | Some (Inr sv) \<Rightarrow> handle_events mode epfd evs sv)"

text \<open>
  The loop of a network thread over the results of \<open>epoll_wait\<close>: the number, \<open>errno\<close> and the events.
  The flag says whether the loop has ended, rather than waiting for the next result.
\<close>

fun network_thread_loop ::
  "conn_mode \<Rightarrow> int \<Rightarrow> (int \<times> errno \<times> event list) list \<Rightarrow> server \<Rightarrow> (bool \<times> server) cres option" where
  "network_thread_loop mode epfd [] sv = Some (Inr (False, sv))"
| "network_thread_loop mode epfd ((number, e, events) # waits) sv =
     (if number < 0 \<and> e \<noteq> EINTR then Some (Inr (True, sv))
      else case handle_events mode epfd (take (nat number) events) sv of
          None \<Rightarrow> None
        | Some (Inl e) \<Rightarrow> Some (Inl e)
        | Some (Inr sv) \<Rightarrow> network_thread_loop mode epfd waits sv)"

text \<open>The start of a network thread: it publishes its descriptor, the result of \<open>epoll_create\<close>.\<close>

definition network_thread_start :: "nat \<Rightarrow> int \<Rightarrow> server \<Rightarrow> server cres" where
  "network_thread_start thread_id epfd sv =
     cassert (epfd \<noteq> - 1) (
     if thread_id < length (network_epoll_fds sv)
     then Inr (sv\<lparr>network_epoll_fds := (network_epoll_fds sv)[thread_id := epfd]\<rparr>)
     else Inl Out_of_bounds)"

text \<open>
  An event of the main thread or of an accept thread. \<open>dispatch\<close> is \<open>NETWORKDISPATCH\<close>; the first
  component of the state is \<open>network_turn\<close>. With \<open>NETWORKDISPATCH\<close> other descriptors have no branch.
\<close>

definition accept_event ::
  "bool \<Rightarrow> conn_mode \<Rightarrow> nat \<Rightarrow> int \<Rightarrow> int \<Rightarrow> event \<Rightarrow> nat \<times> server \<Rightarrow> (nat \<times> server) cres option" where
  "accept_event dispatch mode n listen_fd epfd ev = (\<lambda>(turn, sv).
     if fst ev = listen_fd then
       if dispatch \<and> mode = NETWORKEPOLL then
         if turn < length (network_epoll_fds sv) then
           map_option (map_sum id (Pair (if turn + 1 = n then 0 else turn + 1)))
             (handleNewConn mode (network_epoll_fds sv ! turn) sv)
         else Some (Inl Out_of_bounds)
       else map_option (map_sum id (Pair turn)) (handleNewConn mode (if dispatch then - 1 else epfd) sv)
     else if dispatch then Some (Inr (turn, sv))
     else map_option (map_sum id (Pair turn)) (handle_event mode epfd ev sv))"

fun accept_events ::
  "bool \<Rightarrow> conn_mode \<Rightarrow> nat \<Rightarrow> int \<Rightarrow> int \<Rightarrow> event list \<Rightarrow> nat \<times> server \<Rightarrow> (nat \<times> server) cres option" where
  "accept_events dispatch mode n listen_fd epfd [] st = Some (Inr st)"
| "accept_events dispatch mode n listen_fd epfd (ev # evs) st =
     (case accept_event dispatch mode n listen_fd epfd ev st of
        None \<Rightarrow> None
      | Some (Inl e) \<Rightarrow> Some (Inl e)
      | Some (Inr st) \<Rightarrow> accept_events dispatch mode n listen_fd epfd evs st)"

text \<open>\<open>Service::EventLoop\<close> without \<open>ACCEPTDISPATCH\<close>, and the loop of an accept thread.\<close>

fun EventLoop ::
  "bool \<Rightarrow> conn_mode \<Rightarrow> nat \<Rightarrow> int \<Rightarrow> int \<Rightarrow> (int \<times> errno \<times> event list) list \<Rightarrow> nat \<times> server \<Rightarrow>
     (bool \<times> nat \<times> server) cres option" where
  "EventLoop dispatch mode n listen_fd epfd [] st = Some (Inr (False, st))"
| "EventLoop dispatch mode n listen_fd epfd ((number, e, events) # waits) st =
     (if number < 0 \<and> e \<noteq> EINTR then Some (Inr (True, st))
      else case accept_events dispatch mode n listen_fd epfd (take (nat number) events) st of
          None \<Rightarrow> None
        | Some (Inl e) \<Rightarrow> Some (Inl e)
        | Some (Inr st) \<Rightarrow> EventLoop dispatch mode n listen_fd epfd waits st)"

section \<open>Set-up\<close>











section \<open>Pointer chasing stays in its level\<close>

definition level_begin :: "nat \<Rightarrow> nat" where
  "level_begin i = (if i = 0 then 0 else level_end (i - 1))"

text \<open>A level of the array holds a permutation of its own addresses.\<close>

definition level_ok :: "nat option list \<Rightarrow> nat \<Rightarrow> bool" where
  "level_ok mem i \<longleftrightarrow> (\<exists>xs. mset xs = mset [level_begin i..<level_end i] \<and>
     window (level_begin i) (level_end i - level_begin i) mem = map Some xs)"

lemma level_end_eq: "level_end i = 8 * 2 ^ i"
  by (simp add: level_end_def push_bit_eq_mult)

lemma level_begin_le_end: "level_begin i \<le> level_end i"
  by (cases i) (simp_all add: level_begin_def level_end_eq)

lemma level_end_le_begin: "l < i \<Longrightarrow> level_end l \<le> level_begin i"
  by (cases i) (simp_all add: level_begin_def level_end_eq)

lemma fill_mem_splice:
  "j + length vs \<le> length mem \<Longrightarrow> fill_mem j vs mem = Inr (splice_at j (map Some vs) mem)"
proof (induction vs arbitrary: j mem)
  case (Cons v vs)
  have "splice_at (Suc j) ys (mem[j := Some v]) = splice_at j (Some v # ys) mem" for ys
    using Cons.prems by (simp add: splice_at_def take_Suc_conv_app_nth)
  then show ?case
    using Cons by simp
qed (simp add: splice_at_def)

lemma init_levels_ok:
  assumes "\<And>xs. mset (shuffle xs) = mset xs" and "level_begin (i + k) \<le> length mem"
    and "\<forall>l<i. level_ok mem l"
  shows "\<exists>mem'. init_levels shuffle k i (level_begin i) mem = Inr mem' \<and> length mem' = length mem \<and>
    (\<forall>l<i + k. level_ok mem' l)"
  using assms(2,3)
proof (induction k arbitrary: i mem)
  case (Suc k)
  let ?b = "level_begin i" and ?e = "level_end i"
  let ?xs = "shuffle [?b..<?e]"
  let ?mem = "splice_at ?b (map Some ?xs) mem"
  have len: "length ?xs = ?e - ?b"
    using assms(1) [of "[?b..<?e]"] by (metis length_upt mset_eq_length)
  have "?e \<le> length mem"
    using Suc.prems(1) level_end_le_begin [of i "i + Suc k"] by simp
  then have fits: "?b + length (map Some ?xs) \<le> length mem"
    using level_begin_le_end [of i] by (simp add: len)
  have "level_ok ?mem i"
    unfolding level_ok_def using fits assms(1)
    by (intro exI [of _ ?xs]) (simp add: window_splice_at_same len)
  moreover have "level_ok ?mem l" if "l < i" for l
  proof -
    have "window (level_begin l) (level_end l - level_begin l) ?mem =
        window (level_begin l) (level_end l - level_begin l) mem"
      using fits level_end_le_begin [OF that] level_begin_le_end [of l] by (intro window_splice_at_other) auto
    then show ?thesis
      using Suc.prems(2) that by (simp add: level_ok_def)
  qed
  ultimately have "\<forall>l<Suc i. level_ok ?mem l"
    by (simp add: less_Suc_eq)
  moreover have "level_begin (Suc i) = ?e"
    by (simp add: level_begin_def)
  moreover have "length ?mem = length mem"
    using fits by (rule length_splice_at)
  ultimately show ?case
    using Suc.IH [of "Suc i" ?mem] Suc.prems(1) fits by (simp add: fill_mem_splice)
qed simp

lemma addr_slots_nth: "i < k \<Longrightarrow> addr_slots k j (level_begin j) ! i = level_begin (j + i)"
proof (induction k arbitrary: i j)
  case (Suc k)
  then show ?case
    using Suc.IH [of "i - 1" "Suc j"] by (cases i) (simp_all add: level_begin_def)
qed simp

lemma level_ok_step:
  assumes "level_ok mem i" and "level_begin i \<le> a" and "a < level_end i" and "level_end i \<le> length mem"
  obtains b where "mem ! a = Some b" and "level_begin i \<le> b" and "b < level_end i"
proof -
  let ?b = "level_begin i" and ?n = "level_end i - level_begin i"
  obtain xs where xs: "mset xs = mset [?b..<level_end i]" "window ?b ?n mem = map Some xs"
    using assms(1) by (auto simp: level_ok_def)
  have len: "length xs = ?n"
    using xs(1) by (metis length_upt mset_eq_length)
  have "mem ! a = map Some xs ! (a - ?b)"
    using assms(2-4) xs(2) nth_window [of "a - ?b" ?n ?b mem] by simp
  moreover have "xs ! (a - ?b) \<in> set xs"
    using assms(2,3) len by (intro nth_mem) simp
  then have "xs ! (a - ?b) \<in> {?b..<level_end i}"
    using mset_eq_setD [OF xs(1)] by simp
  ultimately show ?thesis
    using that assms(2,3) len by simp
qed

lemma chase_in_level:
  assumes "level_ok mem i" and "level_end i \<le> length mem" and "level_begin i \<le> a" and "a < level_end i"
  shows "\<exists>b. chase mem n a = Some b \<and> level_begin i \<le> b \<and> b < level_end i"
  using assms(3,4)
proof (induction n arbitrary: a)
  case (Suc n)
  obtain b where b: "mem ! a = Some b" "level_begin i \<le> b" "b < level_end i"
    using level_ok_step [OF assms(1) Suc.prems assms(2)] by blast
  then show ?case
    using Suc.IH [OF b(2,3)] Suc.prems assms(2) by simp
qed simp

lemma init_mem_ok:
  assumes "\<And>xs. mset (shuffle xs) = mset xs"
  obtains mem where "init_mem shuffle = Inr mem" and "length mem = mem_words" and "\<And>i. i < 23 \<Longrightarrow> level_ok mem i"
  using init_levels_ok [of shuffle 0 23 "replicate mem_words None", OF assms] that
  by (auto simp: init_mem_def mem_words_def level_begin_def level_end_eq)

text \<open>
  C8: \<open>Service::Init\<close> writes every element of the array for pointer chasing and nothing outside it,
  whatever permutation the shuffle makes: each of the 23 levels holds a permutation of its own
  addresses, and a chase of any length from the start address that a thread takes for a level stays
  inside that level.
\<close>

theorem init_mem_chase:
  assumes "\<And>xs. mset (shuffle xs) = mset xs"
  shows "\<exists>mem. init_mem shuffle = Inr mem \<and> length mem = mem_words \<and> level_end 22 = mem_words \<and>
    (\<forall>i<23. level_ok mem i \<and>
      (\<forall>n. \<exists>b. chase mem n (curr_mem_addrs ! i) = Some b \<and> curr_mem_addrs ! i \<le> b \<and> b < level_end i))"
proof -
  obtain mem where mem: "init_mem shuffle = Inr mem" "length mem = mem_words" "\<And>i. i < 23 \<Longrightarrow> level_ok mem i"
    using init_mem_ok [OF assms] by blast
  have slot: "curr_mem_addrs ! i = level_begin i" if "i < 23" for i
    using addr_slots_nth [OF that, of 0] by (simp add: curr_mem_addrs_def level_begin_def)
  have fits: "level_end i \<le> length mem" if "i < 23" for i
  proof -
    have "(2::nat) ^ i \<le> 2 ^ 22" using that by (intro power_increasing) simp_all
    then show ?thesis by (simp add: mem(2) mem_words_def level_end_eq)
  qed
  have "level_begin i < level_end i" for i
    by (cases i) (simp_all add: level_begin_def level_end_eq)
  then have "\<exists>b. chase mem n (curr_mem_addrs ! i) = Some b \<and> curr_mem_addrs ! i \<le> b \<and> b < level_end i"
    if "i < 23" for i n
    using chase_in_level [OF mem(3) [OF that] fits [OF that]] by (simp add: slot that)
  then show ?thesis
    using mem by (intro exI [of _ mem]) (simp add: mem_words_def level_end_eq)
qed

theorem init_mem_chase_witness:
  "\<exists>mem. init_mem rev = Inr mem \<and> length mem = 33554432 \<and>
     (\<exists>b. chase mem 1000 (curr_mem_addrs ! 3) = Some b \<and> curr_mem_addrs ! 3 \<le> b \<and> b < level_end 3)"
  using init_mem_chase [of rev] by (auto simp: mem_words_def)

section \<open>Dispatch to the network threads\<close>

text \<open>The registrations of sockets among the calls made, with the descriptors they go to.\<close>

fun adds :: "fdop list \<Rightarrow> (int \<times> int) list" where
  "adds [] = []"
| "adds (EpollAdd epfd fd et # fs) = (epfd, fd) # adds fs"
| "adds (f # fs) = adds fs"

lemma adds_append [simp]: "adds (fs @ gs) = adds fs @ adds gs"
  by (induction fs rule: adds.induct) simp_all

lemma handleNewConn_adds:
  assumes "accepts sv = fd # rest" and "0 \<le> fd" and "fd < MAX_FD"
  shows "\<exists>sv'. handleNewConn NETWORKEPOLL epfd sv = Some (Inr sv') \<and> accepts sv' = rest \<and>
    network_epoll_fds sv' = network_epoll_fds sv \<and>
    adds (ops (world sv')) = adds (ops (world sv)) @ [(epfd, fd)] \<and> socket_fd (conns sv' fd) = fd"
  using assms
  by (simp add: handleNewConn_def Init_def register_socket_def addfd_def setnonblocking_def do_op_def
      Reset_def Let_def)

lemma accept_event_listen:
  assumes "accepts sv = fd # rest" and "0 \<le> fd" and "fd < MAX_FD" and "turn < n"
    and "length (network_epoll_fds sv) = n"
  shows "\<exists>sv'. accept_event True NETWORKEPOLL n listen_fd epfd (listen_fd, ev) (turn, sv) =
      Some (Inr (Suc turn mod n, sv')) \<and> accepts sv' = rest \<and> network_epoll_fds sv' = network_epoll_fds sv \<and>
    adds (ops (world sv')) = adds (ops (world sv)) @ [(network_epoll_fds sv ! turn, fd)]"
proof -
  have "(if turn + 1 = n then 0 else turn + 1) = Suc turn mod n"
    using assms(4) by auto
  then show ?thesis
    using handleNewConn_adds [OF assms(1-3), of "network_epoll_fds sv ! turn"] assms(4,5)
    by (auto simp: accept_event_def)
qed

text \<open>
  C16: The main loop and the accept threads give the accepted connections to the network threads in
  turn: from turn \<open>t\<close> on, connection \<open>k\<close> is registered with the descriptor of thread
  \<open>(t + k) mod n\<close>, for any number of connections, and the turn stays in range.
\<close>

theorem accept_events_round_robin:
  assumes "length (network_epoll_fds sv) = n" and "turn < n" and "accepts sv = fds @ rest"
    and "\<forall>fd\<in>set fds. 0 \<le> fd \<and> fd < MAX_FD"
  shows "\<exists>sv'. accept_events True NETWORKEPOLL n listen_fd epfd (replicate (length fds) (listen_fd, False, True)) (turn, sv) =
      Some (Inr ((turn + length fds) mod n, sv')) \<and> accepts sv' = rest \<and>
    adds (ops (world sv')) = adds (ops (world sv)) @
      map (\<lambda>k. (network_epoll_fds sv ! ((turn + k) mod n), fds ! k)) [0..<length fds]"
  using assms
proof (induction fds arbitrary: turn sv)
  case (Cons fd fds)
  obtain sv1 where sv1: "accept_event True NETWORKEPOLL n listen_fd epfd (listen_fd, False, True) (turn, sv) =
      Some (Inr (Suc turn mod n, sv1))" "accepts sv1 = fds @ rest" "network_epoll_fds sv1 = network_epoll_fds sv"
      "adds (ops (world sv1)) = adds (ops (world sv)) @ [(network_epoll_fds sv ! turn, fd)]"
    using accept_event_listen [of sv fd "fds @ rest" turn n listen_fd epfd "(False, True)"] Cons.prems by auto
  obtain sv' where sv': "accept_events True NETWORKEPOLL n listen_fd epfd
        (replicate (length fds) (listen_fd, False, True)) (Suc turn mod n, sv1) =
      Some (Inr ((Suc turn mod n + length fds) mod n, sv'))" "accepts sv' = rest"
      "adds (ops (world sv')) = adds (ops (world sv1)) @
        map (\<lambda>k. (network_epoll_fds sv1 ! ((Suc turn mod n + k) mod n), fds ! k)) [0..<length fds]"
    using Cons.IH [of sv1 "Suc turn mod n"] Cons.prems sv1(2,3) by auto
  have "(\<lambda>k. (network_epoll_fds sv ! ((turn + k) mod n), (fd # fds) ! k)) \<circ> Suc =
      (\<lambda>k. (network_epoll_fds sv ! ((Suc turn mod n + k) mod n), fds ! k))"
    by (simp add: fun_eq_iff mod_simps)
  then have "map (\<lambda>k. (network_epoll_fds sv ! ((turn + k) mod n), (fd # fds) ! k)) [0..<length (fd # fds)] =
      (network_epoll_fds sv ! turn, fd) #
      map (\<lambda>k. (network_epoll_fds sv ! ((Suc turn mod n + k) mod n), fds ! k)) [0..<length fds]"
    using Cons.prems(2) by (simp add: upt_conv_Cons flip: map_Suc_upt del: upt_Suc)
  then show ?case
    using sv1 sv' by (simp add: mod_simps)
qed simp

definition demo_server :: server where
  "demo_server = \<lparr>conns = (\<lambda>_. fresh_conn 540), world = quiet_os, accepts = [20, 21, 22],
     network_epoll_fds = [11, 12], request_id = 0, spawned = []\<rparr>"

theorem accept_events_round_robin_witness:
  "\<exists>sv'. accept_events True NETWORKEPOLL 2 3 4 [(3, False, True), (3, False, True), (3, False, True)] (0, demo_server) =
       Some (Inr (1, sv')) \<and> adds (ops (world sv')) = [(11, 20), (12, 21), (11, 22)]"
  using accept_events_round_robin [of demo_server 2 0 "[20, 21, 22]" "[]" 3 4]
  by (auto simp: demo_server_def quiet_os_def MAX_FD_def simp del: accept_events.simps)

text \<open>
  The network threads start while the main thread already accepts: the steps of both, in any order.
\<close>

inductive boot_step :: "nat \<Rightarrow> int \<Rightarrow> int \<Rightarrow> nat \<times> server \<Rightarrow> nat \<times> server \<Rightarrow> bool" for n listen_fd epfd where
  thread: "i < n \<Longrightarrow> network_thread_start i fd sv = Inr sv' \<Longrightarrow>
     boot_step n listen_fd epfd (turn, sv) (turn, sv')"
| arrival: "accept_event True NETWORKEPOLL n listen_fd epfd (listen_fd, False, True) st = Some (Inr st') \<Longrightarrow>
     boot_step n listen_fd epfd st st'"

inductive_cases boot_stepE: "boot_step n listen_fd epfd st st'"

definition boot_ok :: "nat \<Rightarrow> nat \<times> server \<Rightarrow> bool" where
  "boot_ok n = (\<lambda>(turn, sv). turn < n \<and> length (network_epoll_fds sv) = n)"

lemma handleNewConn_fds:
  "handleNewConn mode epfd sv = Some (Inr sv') \<Longrightarrow> network_epoll_fds sv' = network_epoll_fds sv"
  by (auto simp: handleNewConn_def Let_def split: list.splits if_splits prod.splits)

lemma map_sum_eq_Inr: "map_sum f g z = Inr y \<longleftrightarrow> (\<exists>x. z = Inr x \<and> y = g x)"
  by (cases z) auto

lemma boot_step_ok:
  assumes "boot_step n listen_fd epfd st st'" and "boot_ok n st"
  shows "boot_ok n st'"
  using assms
  by (cases rule: boot_step.cases)
    (auto simp: boot_ok_def network_thread_start_def accept_event_def cassert_def map_sum_eq_Inr
      dest!: handleNewConn_fds split: if_splits sum.splits)

text \<open>
  However the starts of the network threads and the arrivals of connections interleave, the turn
  stays inside the array of descriptors, so an arrival never reads outside it.
\<close>

theorem boot_never_out_of_bounds:
  assumes "(boot_step n listen_fd epfd)\<^sup>*\<^sup>* (0, sv) st" and "0 < n" and "length (network_epoll_fds sv) = n"
    and "accepts (snd st) = fd # rest" and "0 \<le> fd" and "fd < MAX_FD"
  shows "boot_ok n st \<and> (\<exists>st'. accept_event True NETWORKEPOLL n listen_fd epfd (listen_fd, False, True) st = Some (Inr st'))"
proof -
  have ok: "boot_ok n st"
    using assms(1) by (induction) (use assms(2,3) boot_step_ok in \<open>auto simp: boot_ok_def\<close>)
  obtain turn sv1 where st: "st = (turn, sv1)" by (cases st)
  show ?thesis
    using ok accept_event_listen [of sv1 fd rest turn n listen_fd epfd "(False, True)"] assms(4-6)
    by (auto simp: st boot_ok_def)
qed

theorem boot_never_out_of_bounds_witness:
  "boot_ok 2 (0, demo_server) \<and>
     (\<exists>st'. accept_event True NETWORKEPOLL 2 3 4 (3, False, True) (0, demo_server) = Some (Inr st'))"
  by (rule boot_never_out_of_bounds [of 2 3 4 demo_server "(0, demo_server)" 20 "[21, 22]"])
    (simp_all add: demo_server_def MAX_FD_def)

text \<open>
  Nothing orders the first arrivals after the starts of the network threads: a reachable state has
  a connection registered with what \<open>new\<close> left in the array, and the start of the thread afterwards
  does not repair it.
\<close>

theorem boot_unset_descriptor:
  assumes "network_epoll_fds sv = [junk]" and "accepts sv = [fd]" and "0 \<le> fd" and "fd < MAX_FD"
    and "adds (ops (world sv)) = []" and "epoll \<noteq> - 1"
  shows "\<exists>st. (boot_step 1 listen_fd epfd)\<^sup>*\<^sup>* (0, sv) (0, st) \<and> network_epoll_fds st = [epoll] \<and>
    adds (ops (world st)) = [(junk, fd)]"
proof -
  obtain sv' where sv': "accept_event True NETWORKEPOLL 1 listen_fd epfd (listen_fd, False, True) (0, sv) =
      Some (Inr (0, sv'))" "network_epoll_fds sv' = [junk]" "adds (ops (world sv')) = [(junk, fd)]"
    using accept_event_listen [of sv fd "[]" 0 1 listen_fd epfd "(False, True)"] assms by auto
  have "boot_step 1 listen_fd epfd (0, sv) (0, sv')"
    using sv'(1) by (rule arrival)
  moreover have "network_thread_start 0 epoll sv' = Inr (sv'\<lparr>network_epoll_fds := [epoll]\<rparr>)"
    using assms(6) sv'(2) by (simp add: network_thread_start_def cassert_def)
  then have "boot_step 1 listen_fd epfd (0, sv') (0, sv'\<lparr>network_epoll_fds := [epoll]\<rparr>)"
    by (intro thread) simp_all
  ultimately show ?thesis
    using sv'(3) by (intro exI [of _ "sv'\<lparr>network_epoll_fds := [epoll]\<rparr>"])
      (auto intro: converse_rtranclp_into_rtranclp)
qed

theorem boot_unset_descriptor_witness:
  "\<exists>st. (boot_step 1 3 4)\<^sup>*\<^sup>* (0, demo_server\<lparr>network_epoll_fds := [0], accepts := [20]\<rparr>) (0, st) \<and>
     network_epoll_fds st = [11] \<and> adds (ops (world st)) = [(0, 20)]"
  by (rule boot_unset_descriptor) (simp_all add: demo_server_def quiet_os_def MAX_FD_def)

section \<open>Serving one connection\<close>

text \<open>One request of the loop, and its end.\<close>

lemma handleNetwork_loop_request:
  assumes "conn_ok c" and "read_idx c = 0" and "40 \<le> length (write_buf c)" and "q \<noteq> []"
    and "length q \<le> length (read_buf c)" and "reads w = Arrive q # rs" and "writes w = (40, e') # ws"
  obtains c' where "handleNetwork_loop mode c w r = handleNetwork_loop mode c'
      (w\<lparr>reads := rs, writes := ws, sent := sent w @ [(socket_fd c, reply_text)]\<rparr>) (r + 1)"
    and "conn_ok c'" and "read_idx c' = 0" and "socket_fd c' = socket_fd c"
    and "length (write_buf c') = length (write_buf c)" and "length (read_buf c') = length (read_buf c)"
proof -
  have nr: "next_read mode w = Some (Arrive q, rs)"
    using assms(6) by (simp add: next_read_def)
  have "room c = length (read_buf c)"
    using assms(2) by (simp add: room_def received_def)
  then have room: "length q \<le> room c"
    using assms(5) by simp
  obtain c1 where fin: "finish_read (Inr q) c (w\<lparr>reads := rs\<rparr>) = Inr (q \<noteq> [], c1, w\<lparr>reads := rs\<rparr>)"
      and c1: "length (read_buf c1) = length (read_buf c)" "socket_fd c1 = socket_fd c" "write_buf c1 = write_buf c"
    using finish_read_ok [OF assms(1) room, of "w\<lparr>reads := rs\<rparr>"] by blast
  have read: "ReadOnce mode c w = Some (Inr (True, c1, w\<lparr>reads := rs\<rparr>))"
    using ReadOnce_next [OF nr, of c] fin assms(4) room by (simp add: read_len_room [OF assms(1)])
  have "taken_whole mode 40 (writes (w\<lparr>reads := rs\<rparr>)) = Some ws"
    using assms(7) by (simp add: taken_whole_def)
  then obtain c0 c2 where "prepare_reply (c1, w\<lparr>reads := rs\<rparr>) = Some (Inr (c0, w\<lparr>reads := rs\<rparr>))"
      "WriteOnce mode c0 (w\<lparr>reads := rs\<rparr>) =
        Some (Inr (c2, w\<lparr>reads := rs, writes := ws, sent := sent w @ [(socket_fd c, reply_text)]\<rparr>))"
      and c2: "socket_fd c2 = socket_fd c" "read_idx c2 = 0" "length (write_buf c2) = length (write_buf c)"
        "length (read_buf c2) = length (read_buf c)"
    using skeleton_one_reply [of c1 mode "w\<lparr>reads := rs\<rparr>" ws] assms(3) c1 by auto
  then have "handleNetwork_loop mode c w r = handleNetwork_loop mode c2
      (w\<lparr>reads := rs, writes := ws, sent := sent w @ [(socket_fd c, reply_text)]\<rparr>) (r + 1)"
    using read by (simp add: handleNetwork_loop.simps [of mode c] Process_def ParseMultiRequest_def)
  then show ?thesis
    using that c2 by (simp add: conn_ok_def)
qed

lemma handleNetwork_loop_end:
  assumes "reads w = Arrive [] # rs"
  shows "handleNetwork_loop mode c w r = Some (Inr (c, w\<lparr>reads := rs\<rparr>))"
proof -
  have "next_read mode w = Some (Arrive [], rs)"
    using assms by (simp add: next_read_def)
  then have "ReadOnce mode c w = Some (Inr (False, c, w\<lparr>reads := rs\<rparr>))"
    by (simp add: ReadOnce_next finish_read_def store_read_def)
  then show ?thesis
    by (simp add: handleNetwork_loop.simps [of mode c])
qed

lemma handleNetwork_loop_serves:
  assumes "conn_ok c" and "read_idx c = 0" and "40 \<le> length (write_buf c)"
    and "\<forall>q\<in>set reqs. q \<noteq> [] \<and> length q \<le> length (read_buf c)"
    and "reads w = map Arrive reqs @ Arrive [] # rs"
    and "writes w = replicate (length reqs) (40, e') @ ws"
  shows "\<exists>c'. handleNetwork_loop mode c w r = Some (Inr (c', w\<lparr>reads := rs, writes := ws,
    sent := sent w @ replicate (length reqs) (socket_fd c, reply_text)\<rparr>))"
  using assms
proof (induction reqs arbitrary: c w r)
  case Nil
  then have "w\<lparr>reads := rs, writes := ws, sent := sent w\<rparr> = w\<lparr>reads := rs\<rparr>"
    by simp
  then show ?case
    using Nil.prems(5) by (simp add: handleNetwork_loop_end)
next
  case (Cons q reqs)
  let ?w = "w\<lparr>reads := map Arrive reqs @ Arrive [] # rs,
      writes := replicate (length reqs) (40, e') @ ws, sent := sent w @ [(socket_fd c, reply_text)]\<rparr>"
  obtain c2 where "handleNetwork_loop mode c w r = handleNetwork_loop mode c2 ?w (r + 1)"
    and "conn_ok c2" "read_idx c2 = 0" "socket_fd c2 = socket_fd c"
      "length (write_buf c2) = length (write_buf c)" "length (read_buf c2) = length (read_buf c)"
    using handleNetwork_loop_request [of c q w _ e' _ mode r] Cons.prems by auto
  then show ?case
    using Cons.IH [of c2 ?w "r + 1"] Cons.prems(3,4) by simp
qed

text \<open>
  C14: A connection with a thread of its own is served to its end: for every sequence of requests that
  fit the read buffer, followed by the end of input, \<open>handleNetwork\<close> returns, has sent one whole
  reply per request in order when the kernel takes each reply at once, and closes the socket last.
\<close>

theorem handleNetwork_serves:
  assumes "conn_ok c" and "read_idx c = 0" and "40 \<le> length (write_buf c)"
    and "\<forall>q\<in>set reqs. q \<noteq> [] \<and> length q \<le> length (read_buf c)"
    and "reads w = map Arrive reqs @ Arrive [] # rs"
    and "writes w = replicate (length reqs) (40, e') @ ws"
  shows "\<exists>c'. handleNetwork mode connfd c w = Some (Inr (c', w\<lparr>reads := rs, writes := ws,
    sent := sent w @ replicate (length reqs) (socket_fd c, reply_text), ops := ops w @ [CloseFd connfd]\<rparr>))"
  using handleNetwork_loop_serves [OF assms, of mode 0] by (auto simp: handleNetwork_def do_op_def)

theorem handleNetwork_serves_witness:
  "\<exists>c'. handleNetwork BLOCKING 7 (fresh_conn 540)
       (quiet_os\<lparr>reads := [Arrive ''get'', Arrive []], writes := [(40, EINTR)]\<rparr>) =
     Some (Inr (c', quiet_os\<lparr>sent := [(7, reply_text)], ops := [CloseFd 7]\<rparr>))"
  using handleNetwork_serves [of "fresh_conn 540" "[''get'']"
      "quiet_os\<lparr>reads := [Arrive ''get'', Arrive []], writes := [(40, EINTR)]\<rparr>" "[]" EINTR "[]" BLOCKING 7]
  by (simp add: fresh_conn_def quiet_os_def conn_ok_def)

section \<open>Start of the server\<close>






end
