(* ===== verification/Spec2Isabelle.thy ===== *)
theory Spec2Isabelle
  imports CacheAnnotate CallgrindReport Server
begin

text \<open>
  A verification development for Ditto, a system that clones networked cloud services. Ditto profiles
  an application, among others with the cache and branch profilers of a modified Valgrind, and puts
  the behaviour it measured into the body of a synthetic server that is built from a network
  skeleton. The development covers these two ends: the profilers, Cachegrind and Callgrind, and the
  server, in which the clone runs. The script \<open>src/assembly_analysis/run_valgrind.py\<close> runs Callgrind,
  which has its own simulator and counters but shares the configuration of the caches and the branch
  predictors with Cachegrind.

  \<^bold>\<open>Cachegrind\<close> (\<open>src/valgrind/cachegrind\<close>,
  \<open>src/valgrind/coregrind/m_oset.c\<close>). Start-up reads the cache options and fits the
  caches to what the simulator can do. Then the core hands every block of code to
  \<open>cg_instrument\<close>, which collects the events of the block, merges neighbouring ones and
  adds calls of helpers. At run time the helpers drive the cache simulator and the branch predictors
  and add to the counters of a source line, which lie in an ordered set. At the end the counters are
  written to a file and reported.

  \<^item> \<open>Prelude\<close>: machine integers, checked results (\<open>cres\<close>: a fault or a value), windows of arrays.
  \<^item> \<open>LibcBase\<close>: \<open>VG_(strtoll10)\<close>, \<open>VG_(strcmp)\<close> and \<open>VG_(log2)\<close> of \<open>m_libcbase.c\<close>.
  \<^item> \<open>CacheArch\<close>: \<open>cg_arch.c\<close>. \<open>check_cache\<close> accepts exactly the usable configurations, the text of
    such a configuration parses to it, \<open>maybe_tweak_LLc\<close> repairs the last level cache, and start-up
    yields three caches that pass the check.
  \<^item> \<open>CacheSim\<close>: \<open>cg_sim.c\<close>. A reference refines the rule of the least recently used line; from this
    follow inclusion between associativities and the characterisation of misses by reuse distance,
    and the shortcut for instructions equals the general routine.
  \<^item> \<open>BranchPred\<close>: \<open>cg_branchpred.c\<close>. Assertions never fail, and what the predictors learn.
  \<^item> \<open>OSet\<close>: \<open>m_oset.c\<close>. The balanced trees under insertion, removal, lookup, iteration and
    destruction, for a comparison that is a linear order (locale), interpreted on machine words and,
    in \<open>CacheCC\<close>, on the strings, lines and blocks of the profiler.
  \<^item> \<open>CacheCC\<close>: the counters and tables of \<open>cg_main.c\<close> and its \<open>log_\<close> helpers, with the invariants
    of a run and of the tables.
  \<^item> \<open>CacheInstr\<close>: the part of the intermediate representation the profiler inspects, the events,
    \<open>flushEvents\<close>, the \<open>addEvent_\<close> functions and \<open>cg_instrument\<close>, and the specification: the events
    of a block one at a time in program order.
  \<^item> \<open>CacheProfile\<close>: running an instrumented block equals performing its events; well formed blocks
    are instrumented, all their statements are kept, and misses stay within references.
  \<^item> \<open>CacheFini\<close>: the text of the output file, the report, the discarding of blocks, the options and
    start-up of the tool.
  \<^item> \<open>CacheAnnotate\<close>: \<open>read_input_file\<close> of the script \<open>cg_annotate.in\<close>, which gets from the text of the
    output file, under the name of each event, the counts of every line, of every function and of the
    whole table; and the command lines on which it fails.

  \<^bold>\<open>Callgrind\<close> (\<open>src/valgrind/callgrind\<close>). Events are registered in groups, an event set lays out
  groups in an array of costs, and helpers simulate the references of an instruction and add to the
  costs of the instruction and of the running context. At the end the totals are reported, and the
  script reads the report.

  \<^item> \<open>CallgrindSim\<close>: the simulator in \<open>sim.c\<close>, simple, with write-back and with hardware prefetch. The
    simple one computes what the one of Cachegrind computes.
  \<^item> \<open>CallgrindEvents\<close>: \<open>events.c\<close> and \<open>costs.c\<close>. Cost arrays are disjoint, event sets lay out their
    groups without overlap, moving costs between sets keeps every count, and a line of counts is read
    back by \<open>callgrind_annotate\<close>.
  \<^item> \<open>CallgrindCost\<close>: the options, start-up and helpers of \<open>sim.c\<close>, the branch helpers of \<open>main.c\<close> and
    \<open>init_eventsets\<close>. The two tools start with the same caches, the helpers add up what the simulator
    of Cachegrind counts, and every registered event is listed once.
  \<^item> \<open>CallgrindReport\<close>: the report of \<open>finish\<close>, the conversion of numbers in \<open>m_debuglog.c\<close>, and the
    loop of \<open>run_valgrind.py\<close> over the lines of the log, which gets back the sums of the counts.

  \<^bold>\<open>The server\<close> (\<open>src/network_skeleton\<close>, its variants under \<open>src/applications/synthetic_*\<close> and
  \<open>src/synthetic_memcached_skeleton\<close>). A main loop or accept threads take connections and give them
  to network threads in turn, or to a thread each. A thread reads requests into the buffer of a
  connection, runs the generated body once per request and writes a reply.

  \<^item> \<open>TCPConn\<close>: \<open>tcp_conn.cpp\<close> of the skeleton and of the redis, nginx and memcached servers, and the
    descriptor functions of \<open>utils.cpp\<close>. What \<open>Process\<close> relies on is the locale \<open>reply_sender\<close>,
    interpreted on three servers. The redis server delivers whole replies over any partial writes;
    the skeleton and nginx do so only when the kernel takes a reply at once; the memcached server
    reads outside its buffer. Reading keeps the buffer well formed until a read fails.
  \<^item> \<open>Server\<close>: \<open>utils.cpp\<close>, \<open>threadpool.h\<close>, \<open>service.cpp\<close>, \<open>config.cpp\<close> and \<open>main.cpp\<close>. Pointer
    chasing stays in its level of the memory, connections go to the network threads in turn, a
    connection thread serves its requests and returns, and the server starts exactly when its
    options and calls allow. The starts of threads and the arrivals interleave in a step relation.

  \<^bold>\<open>Conventions.\<close> Unsigned types are words of their width; signed ones are integers, with overflow a
  fault where the source can reach it. A fault is a value: a failed assertion, a division by zero,
  an access outside an array. State is passed explicitly. What is not in the sources is a parameter:
  the host's cache description, debug information, the values of temporaries at run time, \<open>getopt\<close>,
  \<open>atoi\<close> and \<open>std::shuffle\<close>. Two parts of the sources that are left out are parameters too: the
  \<open>%f\<close> conversion of \<open>m_debuglog.c\<close>, which works on floating point numbers, and the simulator for the
  use of cache lines (\<open>--cacheuse=yes\<close>). Theorems name what they assume of these.

  \<^bold>\<open>Fuel and scripts.\<close> Loops over the tree have termination proofs. The
  iteration that empties a table has one unit of fuel per element and one more, which is enough by
  the lemmas on \<open>drain\<close>. Answers of the kernel are scripts consumed by the loops; a
  \<open>read\<close> takes from the bytes that have arrived at most the number it asks for. A loop
  that runs out of answers is still waiting, the value \<open>None\<close>; the theorems on delivery
  show that it returns for the scripts they describe. The loop of a connection thread is a partial
  function, and that it returns is proved.

  \<^bold>\<open>Not modelled.\<close> The dynamic translation of Valgrind and its other tools,
  which are large and on which the profilers depend only through the intermediate representation; of
  Callgrind, the instrumentation, the call graph with its contexts and threads, the dump of the
  profile and the use of cache lines, of which the report that Ditto reads needs only the total
  costs; the generated bodies, which are inline assembly; the vendored applications, load generators
  and the tree distance library; the lock wrappers, which no code of the server uses; the other
  scripts around the programs, which start processes and edit files. Of the server, the destructor
  of the service, the sleeping main thread under \<open>ACCEPTDISPATCH\<close>, the texts printed
  for failed calls and the bytes that the nginx server writes to its log.
\<close>

end
